(* ===== verification/Blast_Prelude.thy ===== *)
theory Blast_Prelude
  imports Main "HOL-Library.Word" "HOL-Library.Sublist"
begin

unbundle bit_operations_syntax

text \<open>
  Shared vocabulary of the development: the byte and machine-integer types, the collections of
  simplification rules that the component theories extend, and the operations of the Rust
  standard library on strings, slices and numbers that the sources call.

  A Rust \<open>String\<close> or \<open>&str\<close> is a HOL \<open>string\<close> holding its UTF-8 bytes (a \<open>char\<close> is
  exactly one byte), so \<open>length\<close> is \<open>str::len\<close>. A \<open>Vec<u8>\<close> is a \<open>bytes\<close>.
\<close>

section \<open>Types and collections of rules\<close>

type_synonym u8 = "8 word"
type_synonym u16 = "16 word"
type_synonym u32 = "32 word"
type_synonym u64 = "64 word"
type_synonym bytes = "u8 list"
type_synonym header_list = "(string \<times> string) list"

named_theorems bits_simps \<open>bit-list views of words\<close>
named_theorems str_simps \<open>string operations of the Rust standard library\<close>
named_theorems wf_intros \<open>preservation of component invariants\<close>

section \<open>Results\<close>

text \<open>
  A Rust \<open>Result<T, E>\<close> is \<open>'e + 't\<close>. \<open>and_then\<close> is the early return of the \<open>?\<close> operator;
  \<open>ok_or\<close> turns an \<open>Option\<close> into a \<open>Result\<close>.
\<close>

definition and_then :: "'e + 'a \<Rightarrow> ('a \<Rightarrow> 'e + 'b) \<Rightarrow> 'e + 'b" where
  "and_then r k = (case r of Inl e \<Rightarrow> Inl e | Inr x \<Rightarrow> k x)"

definition ok_or :: "'a option \<Rightarrow> 'e \<Rightarrow> 'e + 'a" where
  "ok_or x e = (case x of None \<Rightarrow> Inl e | Some v \<Rightarrow> Inr v)"

lemma and_then_simps [simp]: "and_then (Inl e) k = Inl e" "and_then (Inr x) k = k x"
  by (simp_all add: and_then_def)

lemma ok_or_simps [simp]: "ok_or None e = Inl e" "ok_or (Some v) e = Inr v"
  by (simp_all add: ok_or_def)

lemma and_then_eq_Inr: "and_then r k = Inr y \<longleftrightarrow> (\<exists>x. r = Inr x \<and> k x = Inr y)"
  by (cases r) simp_all

lemma and_then_eq_Inl: "and_then r k = Inl e \<longleftrightarrow> r = Inl e \<or> (\<exists>x. r = Inr x \<and> k x = Inl e)"
  by (cases r) simp_all

lemma ok_or_eq_Inr [simp]: "ok_or x e = Inr v \<longleftrightarrow> x = Some v"
  by (cases x) simp_all

lemma and_then_cong [fundef_cong]:
  "r = r' \<Longrightarrow> (\<And>x. r' = Inr x \<Longrightarrow> k x = k' x) \<Longrightarrow> and_then r k = and_then r' k'"
  by (cases r') simp_all

text \<open>A call that may panic: \<open>Panic\<close> is the unwinding, \<open>Done\<close> a normal return.\<close>

datatype 'a outcome = Done 'a | Panic

definition on_done :: "'a outcome \<Rightarrow> ('a \<Rightarrow> 'b outcome) \<Rightarrow> 'b outcome" where
  "on_done r k = (case r of Done x \<Rightarrow> k x | Panic \<Rightarrow> Panic)"

lemma on_done_simps [simp]: "on_done (Done x) k = k x" "on_done Panic k = Panic"
  by (simp_all add: on_done_def)

lemma on_done_eq_Done: "on_done r k = Done y \<longleftrightarrow> (\<exists>x. r = Done x \<and> k x = Done y)"
  by (cases r) simp_all

lemma on_done_cong [fundef_cong]:
  "r = r' \<Longrightarrow> (\<And>x. r' = Done x \<Longrightarrow> k x = k' x) \<Longrightarrow> on_done r k = on_done r' k'"
  by (cases r') simp_all

text \<open>The checked operations on \<open>u32\<close>: \<open>checked_add\<close>, \<open>checked_shl\<close>.\<close>

definition checked_add :: "u32 \<Rightarrow> u32 \<Rightarrow> u32 option" where
  "checked_add a b = (if unat a + unat b < 2 ^ 32 then Some (a + b) else None)"

definition checked_shl :: "u32 \<Rightarrow> u32 \<Rightarrow> u32 option" where
  "checked_shl a s = (if s < 32 then Some (push_bit (unat s) a) else None)"

lemma unat_add_no_overflow:
  "unat a + unat b < 2 ^ LENGTH('a) \<Longrightarrow> unat (a + b) = unat a + unat (b :: 'a::len word)"
  by (simp add: unat_word_ariths)

lemma unat_plus_1: "x \<noteq> - 1 \<Longrightarrow> unat (x + 1) = unat x + 1" for x :: "'a :: len word"
  using unatSuc [of x] by (metis add.commute add.right_inverse add_left_cancel Suc_eq_plus1)

lemma unat_push_bit_less:
  "unat a * 2 ^ n < 2 ^ LENGTH('a) \<Longrightarrow> unat (push_bit n a) = unat (a :: 'a::len word) * 2 ^ n"
  by (simp only: unsigned_push_bit_eq) (simp add: push_bit_eq_mult take_bit_nat_eq_self)

section \<open>Bytes and text\<close>

definition str_bytes :: "string \<Rightarrow> bytes" where
  "str_bytes s = map of_char s"

definition bytes_str :: "bytes \<Rightarrow> string" where
  "bytes_str bs = map (\<lambda>b. char_of (unat b)) bs"

lemma unat_of_char [simp]: "unat (of_char c :: u8) = of_char c"
proof -
  have "unat (of_nat (of_char c) :: u8) = of_char c"
    by (simp only: unat_of_nat) (simp add: take_bit_nat_eq_self)
  then show ?thesis by (simp add: of_nat_of_char)
qed

lemma bytes_str_str_bytes [simp]: "bytes_str (str_bytes s) = s"
  by (simp add: bytes_str_def str_bytes_def comp_def)

lemma length_str_bytes [simp]: "length (str_bytes s) = length s"
  by (simp add: str_bytes_def)

lemma str_bytes_append [simp]: "str_bytes (a @ b) = str_bytes a @ str_bytes b"
  by (simp add: str_bytes_def)

lemma str_bytes_inject [simp]: "str_bytes a = str_bytes b \<longleftrightarrow> a = b"
  by (metis bytes_str_str_bytes)

text \<open>\<open>u32::to_be_bytes\<close> and \<open>u16::to_be_bytes\<close>: big-endian byte order.\<close>

definition u32_be :: "u32 \<Rightarrow> bytes" where
  "u32_be w = [ucast (drop_bit 24 w), ucast (drop_bit 16 w), ucast (drop_bit 8 w), ucast w]"

definition u16_be :: "u16 \<Rightarrow> bytes" where
  "u16_be w = [ucast (drop_bit 8 w), ucast w]"

lemma length_u32_be [simp]: "length (u32_be w) = 4"
  by (simp add: u32_be_def)

lemma length_u16_be [simp]: "length (u16_be w) = 2"
  by (simp add: u16_be_def)

text \<open>Reading a big-endian word back, the reference for the encoders above.\<close>

definition be_u32 :: "bytes \<Rightarrow> u32" where
  "be_u32 bs = foldl (\<lambda>acc b. push_bit 8 acc OR ucast b) 0 bs"

lemma be_u32_u32_be [simp]: "be_u32 (u32_be w) = w"
proof (rule bit_word_eqI)
  fix n assume n: "n < LENGTH(32)"
  consider "n < 8" | "8 \<le> n \<and> n < 16" | "16 \<le> n \<and> n < 24" | "24 \<le> n" by linarith
  then show "bit (be_u32 (u32_be w)) n \<longleftrightarrow> bit w n"
    using n by cases (auto simp: be_u32_def u32_be_def bit_simps dest: bit_imp_le_length)
qed

section \<open>Strings\<close>

definition ascii :: "char \<Rightarrow> bool" where
  "ascii c \<longleftrightarrow> (of_char c :: nat) < 128"

definition to_lower :: "char \<Rightarrow> char" where
  "to_lower c = (let n = (of_char c :: nat) in if 65 \<le> n \<and> n \<le> 90 then char_of (n + 32) else c)"

definition to_ascii_lowercase :: "string \<Rightarrow> string" where
  "to_ascii_lowercase s = map to_lower s"

definition eq_ignore_ascii_case :: "string \<Rightarrow> string \<Rightarrow> bool" where
  "eq_ignore_ascii_case a b \<longleftrightarrow> to_ascii_lowercase a = to_ascii_lowercase b"

lemma to_lower_to_lower [simp]: "to_lower (to_lower c) = to_lower c"
  by (auto simp: to_lower_def Let_def)

lemma to_ascii_lowercase_idem [simp]:
  "to_ascii_lowercase (to_ascii_lowercase s) = to_ascii_lowercase s"
  by (simp add: to_ascii_lowercase_def)

lemma length_to_ascii_lowercase [simp]: "length (to_ascii_lowercase s) = length s"
  by (simp add: to_ascii_lowercase_def)

lemma to_ascii_lowercase_append [simp]:
  "to_ascii_lowercase (a @ b) = to_ascii_lowercase a @ to_ascii_lowercase b"
  by (simp add: to_ascii_lowercase_def)

lemma to_ascii_lowercase_Nil [simp]: "to_ascii_lowercase [] = []"
  by (simp add: to_ascii_lowercase_def)

lemma to_ascii_lowercase_eq_Nil [simp]: "to_ascii_lowercase s = [] \<longleftrightarrow> s = []"
  by (simp add: to_ascii_lowercase_def)

lemma eq_ignore_ascii_case_refl [simp]: "eq_ignore_ascii_case a a"
  by (simp add: eq_ignore_ascii_case_def)

text \<open>\<open>str::split_once\<close>, \<open>str::rsplit_once\<close> and \<open>str::split\<close> on one ASCII character.\<close>

fun split_once :: "char \<Rightarrow> string \<Rightarrow> (string \<times> string) option" where
  "split_once c [] = None"
| "split_once c (x # xs) =
     (if x = c then Some ([], xs)
      else map_option (\<lambda>(a, b). (x # a, b)) (split_once c xs))"

definition rsplit_once :: "char \<Rightarrow> string \<Rightarrow> (string \<times> string) option" where
  "rsplit_once c s = map_option (\<lambda>(a, b). (rev b, rev a)) (split_once c (rev s))"

fun split_on :: "char \<Rightarrow> string \<Rightarrow> string list" where
  "split_on c [] = [[]]"
| "split_on c (x # xs) =
     (if x = c then [] # split_on c xs
      else (case split_on c xs of [] \<Rightarrow> [[x]] | p # ps \<Rightarrow> (x # p) # ps))"

fun join :: "string \<Rightarrow> string list \<Rightarrow> string" where
  "join sep [] = []"
| "join sep [p] = p"
| "join sep (p # q # ps) = p @ sep @ join sep (q # ps)"

lemma split_once_None: "split_once c s = None \<longleftrightarrow> c \<notin> set s"
  by (induction s) auto

lemma split_once_Some:
  "split_once c s = Some (a, b) \<longleftrightarrow> s = a @ c # b \<and> c \<notin> set a"
proof (induction s arbitrary: a)
  case (Cons x xs)
  have "split_once c (x # xs) = Some (a, b) \<longleftrightarrow>
    (if x = c then a = [] \<and> b = xs else \<exists>a'. a = x # a' \<and> split_once c xs = Some (a', b))"
    by auto
  then show ?case by (cases a) (auto simp: Cons.IH)
qed simp

lemma rsplit_once_Some:
  "rsplit_once c s = Some (a, b) \<longleftrightarrow> s = a @ c # b \<and> c \<notin> set b"
proof -
  have "rsplit_once c s = Some (a, b) \<longleftrightarrow> split_once c (rev s) = Some (rev b, rev a)"
    by (auto simp: rsplit_once_def)
  also have "\<dots> \<longleftrightarrow> rev s = rev b @ c # rev a \<and> c \<notin> set b"
    by (simp add: split_once_Some)
  also have "\<dots> \<longleftrightarrow> s = a @ c # b \<and> c \<notin> set b"
    by (metis append.assoc append_Cons append_Nil rev_append rev_rev_ident rev.simps(2))
  finally show ?thesis .
qed

lemma split_on_not_Nil [simp]: "split_on c s \<noteq> []"
  by (induction s) (auto split: list.splits)

lemma join_Cons: "ps \<noteq> [] \<Longrightarrow> join sep (p # ps) = p @ sep @ join sep ps"
  by (cases ps) auto

lemma join_split_on [simp]: "join [c] (split_on c s) = s"
proof (induction s)
  case (Cons x xs)
  show ?case
  proof (cases "split_on c xs")
    case (Cons p ps)
    with Cons.IH show ?thesis by (cases ps) (auto simp: join_Cons)
  qed simp
qed simp

lemma split_on_pieces: "p \<in> set (split_on c s) \<Longrightarrow> c \<notin> set p"
  by (induction s arbitrary: p) (auto split: list.splits if_splits)

lemma split_on_no_sep: "c \<notin> set s \<Longrightarrow> split_on c s = [s]"
  by (induction s) auto

lemma split_on_append: "c \<notin> set a \<Longrightarrow> split_on c (a @ c # b) = a # split_on c b"
  by (induction a) auto

lemma split_on_join:
  "ps \<noteq> [] \<Longrightarrow> (\<And>p. p \<in> set ps \<Longrightarrow> c \<notin> set p) \<Longrightarrow> split_on c (join [c] ps) = ps"
proof (induction ps)
  case (Cons p ps)
  then show ?case
    by (cases ps) (auto simp: split_on_no_sep split_on_append)
qed simp

lemma split_on_set: "p \<in> set (split_on c s) \<Longrightarrow> set p \<subseteq> set s"
  by (induction s arbitrary: p) (fastforce split: list.splits if_splits)+

subsection \<open>White space\<close>

text \<open>
  \<open>char::is_whitespace\<close> on UTF-8: \<open>ws_len s\<close> is the length of the encoding of the
  \<open>White_Space\<close> character at the front of \<open>s\<close>, or 0. The lead bytes it tests are never
  continuation bytes, so on valid UTF-8 a match is always a whole character.
\<close>

definition ascii_ws :: "char \<Rightarrow> bool" where
  "ascii_ws c \<longleftrightarrow> (let n = (of_char c :: nat) in (9 \<le> n \<and> n \<le> 13) \<or> n = 32)"

fun ws_codes :: "nat list \<Rightarrow> nat" where
  "ws_codes (a # b # c # r) =
     (if a = 0xC2 \<and> (b = 0x85 \<or> b = 0xA0) then 2
      else if a = 0xE1 \<and> b = 0x9A \<and> c = 0x80 then 3
      else if a = 0xE2 \<and> b = 0x80 \<and> ((0x80 \<le> c \<and> c \<le> 0x8A) \<or> c = 0xA8 \<or> c = 0xA9 \<or> c = 0xAF) then 3
      else if a = 0xE2 \<and> b = 0x81 \<and> c = 0x9F then 3
      else if a = 0xE3 \<and> b = 0x80 \<and> c = 0x80 then 3 else 0)"
| "ws_codes [a, b] = (if a = 0xC2 \<and> (b = 0x85 \<or> b = 0xA0) then 2 else 0)"
| "ws_codes r = 0"

fun ws_len :: "string \<Rightarrow> nat" where
  "ws_len [] = 0"
| "ws_len (c # r) = (if ascii_ws c then 1 else if ascii c then 0
     else ws_codes (map of_char (take 3 (c # r))))"

lemma ws_codes_le: "ws_codes ns \<le> length ns"
  by (cases ns rule: ws_codes.cases) auto

lemma ws_len_le: "ws_len s \<le> length s"
proof (cases s)
  case (Cons c r)
  have "ws_codes (map of_char (take 3 (c # r))) \<le> length (take 3 (c # r))"
    by (metis length_map ws_codes_le)
  with Cons show ?thesis by (auto simp: min_def split: if_splits)
qed simp

function trim_start :: "string \<Rightarrow> string" where
  "trim_start s = (if ws_len s = 0 then s else trim_start (drop (ws_len s) s))"
  by pat_completeness auto
termination
proof (relation "measure length", goal_cases)
  case (2 s)
  with ws_len_le [of s] show ?case by (cases s) auto
qed simp

declare trim_start.simps [simp del]

definition ws_suffix_len :: "string \<Rightarrow> nat" where
  "ws_suffix_len s =
     (if length s \<ge> 1 \<and> ws_len (drop (length s - 1) s) = 1 then 1
      else if length s \<ge> 2 \<and> ws_len (drop (length s - 2) s) = 2 then 2
      else if length s \<ge> 3 \<and> ws_len (drop (length s - 3) s) = 3 then 3 else 0)"

lemma ws_suffix_len_le: "ws_suffix_len s \<le> length s"
  by (simp add: ws_suffix_len_def)

function trim_end :: "string \<Rightarrow> string" where
  "trim_end s = (if ws_suffix_len s = 0 then s
     else trim_end (take (length s - ws_suffix_len s) s))"
  by pat_completeness auto
termination
proof (relation "measure length", goal_cases)
  case (2 s)
  with ws_suffix_len_le [of s] show ?case by auto
qed simp

declare trim_end.simps [simp del]

definition trim :: "string \<Rightarrow> string" where
  "trim s = trim_end (trim_start s)"

lemma trim_start_suffix: "\<exists>p. s = p @ trim_start s"
proof (induction s rule: trim_start.induct)
  case (1 s)
  show ?case
  proof (cases "ws_len s = 0")
    case True
    then show ?thesis by (simp add: trim_start.simps [of s])
  next
    case False
    with 1 obtain p where "drop (ws_len s) s = p @ trim_start (drop (ws_len s) s)" by blast
    then have "s = (take (ws_len s) s @ p) @ trim_start s"
      using False by (metis append.assoc append_take_drop_id trim_start.simps)
    then show ?thesis by blast
  qed
qed

lemma trim_end_prefix: "\<exists>q. s = trim_end s @ q"
proof (induction s rule: trim_end.induct)
  case (1 s)
  show ?case
  proof (cases "ws_suffix_len s = 0")
    case True
    then show ?thesis by (simp add: trim_end.simps [of s])
  next
    case False
    let ?t = "take (length s - ws_suffix_len s) s"
    from 1 False obtain q where "?t = trim_end ?t @ q" by blast
    then have "s = trim_end s @ (q @ drop (length s - ws_suffix_len s) s)"
      using False by (metis append.assoc append_take_drop_id trim_end.simps)
    then show ?thesis by blast
  qed
qed

text \<open>A trimmed string is a factor of the original.\<close>

lemma trim_factor: "\<exists>p q. s = p @ trim s @ q"
  unfolding trim_def by (metis trim_start_suffix trim_end_prefix)

lemma set_trim: "set (trim s) \<subseteq> set s"
  using trim_factor [of s] by (metis Un_iff set_append subsetI)

lemma length_trim: "length (trim s) \<le> length s"
  using trim_factor [of s] by (metis le_add1 le_add2 le_trans length_append)

lemma ws_len_trim_start [simp]: "ws_len (trim_start s) = 0"
  by (induction s rule: trim_start.induct) (metis trim_start.simps)

lemma ws_suffix_len_trim_end [simp]: "ws_suffix_len (trim_end s) = 0"
  by (induction s rule: trim_end.induct) (metis trim_end.simps)

lemma trim_end_idem [simp]: "trim_end (trim_end s) = trim_end s"
  by (simp add: trim_end.simps [of "trim_end s"])

text \<open>A string with no white space at either end is left alone.\<close>

lemma trim_id: "ws_len s = 0 \<Longrightarrow> ws_suffix_len s = 0 \<Longrightarrow> trim s = s"
  by (simp add: trim_def trim_start.simps [of s] trim_end.simps [of s])

lemma trim_Nil [simp]: "trim [] = []"
  by (simp add: trim_id ws_suffix_len_def)

text \<open>\<open>str::split_whitespace\<close>: the maximal runs of non-white-space characters.\<close>

function split_ws :: "string \<Rightarrow> string \<Rightarrow> string list" where
  "split_ws acc [] = (if acc = [] then [] else [rev acc])"
| "split_ws acc (c # r) =
     (if ws_len (c # r) = 0 then split_ws (c # acc) r
      else (if acc = [] then [] else [rev acc]) @ split_ws [] (drop (ws_len (c # r)) (c # r)))"
  by pat_completeness auto
termination
proof (relation "measure (\<lambda>(_, s). length s)", goal_cases)
  case (3 acc c r)
  with ws_len_le [of "c # r"] show ?case by auto
qed simp_all

definition split_whitespace :: "string \<Rightarrow> string list" where
  "split_whitespace s = split_ws [] s"

lemma split_ws_set: "t \<in> set (split_ws acc s) \<Longrightarrow> set t \<subseteq> set acc \<union> set s"
proof (induction acc s arbitrary: t rule: split_ws.induct)
  case (2 acc c r)
  show ?case
  proof (cases "ws_len (c # r) = 0")
    case True
    with 2 show ?thesis by fastforce
  next
    case False
    have "set (drop (ws_len (c # r)) (c # r)) \<subseteq> set (c # r)" by (rule set_drop_subset)
    with False 2(2)[OF False] 2(3) show ?thesis by (fastforce split: if_splits)
  qed
qed (auto split: if_splits)

lemma split_whitespace_set: "t \<in> set (split_whitespace s) \<Longrightarrow> set t \<subseteq> set s"
  using split_ws_set [of t "[]" s] by (simp add: split_whitespace_def)

text \<open>\<open>trim_start_matches\<close> and \<open>trim_end_matches\<close> on a set of characters.\<close>

definition trim_start_matches :: "(char \<Rightarrow> bool) \<Rightarrow> string \<Rightarrow> string" where
  "trim_start_matches P s = dropWhile P s"

definition trim_end_matches :: "(char \<Rightarrow> bool) \<Rightarrow> string \<Rightarrow> string" where
  "trim_end_matches P s = rev (dropWhile P (rev s))"

lemma set_trim_end_matches: "set (trim_end_matches P s) \<subseteq> set s"
  by (metis set_dropWhileD set_rev subsetI trim_end_matches_def)

lemma trim_end_matches_idem [simp]:
  "trim_end_matches P (trim_end_matches P s) = trim_end_matches P s"
  by (simp add: trim_end_matches_def)

text \<open>\<open>str::strip_prefix('[')\<close> followed by \<open>strip_suffix(']')\<close>, as used for IPv6 literals.\<close>

definition strip_brackets :: "string \<Rightarrow> string" where
  "strip_brackets h = (case h of
      c # r \<Rightarrow> if c = CHR ''['' \<and> r \<noteq> [] \<and> last r = CHR '']'' then butlast r else h
    | [] \<Rightarrow> h)"

section \<open>Numbers\<close>

definition is_digit :: "char \<Rightarrow> bool" where
  "is_digit c \<longleftrightarrow> (let n = (of_char c :: nat) in 48 \<le> n \<and> n \<le> 57)"

definition digit_val :: "char \<Rightarrow> nat" where
  "digit_val c = of_char c - 48"

definition digits_val :: "string \<Rightarrow> nat" where
  "digits_val s = foldl (\<lambda>acc c. acc * 10 + digit_val c) 0 s"

text \<open>
  \<open>str::parse\<close> for unsigned integers of at most \<open>mx\<close>, and for \<open>i64\<close>: an optional sign
  (\<open>-\<close> for signed types only), then one or more digits, no overflow.
\<close>

definition parse_digits :: "string \<Rightarrow> nat option" where
  "parse_digits s = (if s \<noteq> [] \<and> list_all is_digit s then Some (digits_val s) else None)"

definition parse_uint :: "nat \<Rightarrow> string \<Rightarrow> nat option" where
  "parse_uint mx s =
     (let d = (case s of c # r \<Rightarrow> if c = CHR ''+'' then r else s | [] \<Rightarrow> s) in
      case parse_digits d of Some n \<Rightarrow> if n \<le> mx then Some n else None | None \<Rightarrow> None)"

abbreviation "i64_min \<equiv> - (2 ^ 63 :: int)"
abbreviation "i64_max \<equiv> (2 ^ 63 - 1 :: int)"

definition parse_i64 :: "string \<Rightarrow> int option" where
  "parse_i64 s =
     (let (neg, d) = (case s of c # r \<Rightarrow> if c = CHR ''+'' then (False, r)
                                     else if c = CHR ''-'' then (True, r) else (False, s)
                     | [] \<Rightarrow> (False, s)) in
      case parse_digits d of
        Some n \<Rightarrow> (let v = (if neg then - int n else int n) in
                  if i64_min \<le> v \<and> v \<le> i64_max then Some v else None)
      | None \<Rightarrow> None)"

lemma parse_i64_range: "parse_i64 s = Some v \<Longrightarrow> i64_min \<le> v \<and> v \<le> i64_max"
  by (auto simp: parse_i64_def Let_def split: option.splits prod.splits if_splits)

lemma parse_uint_le: "parse_uint mx s = Some n \<Longrightarrow> n \<le> mx"
  by (auto simp: parse_uint_def Let_def split: option.splits if_splits)

text \<open>\<open>Display\<close> for unsigned integers.\<close>

fun show_nat :: "nat \<Rightarrow> string" where
  "show_nat n = (if n < 10 then [char_of (48 + n)]
     else show_nat (n div 10) @ [char_of (48 + n mod 10)])"

declare show_nat.simps [simp del]

lemma digit_char [simp]: "d < 10 \<Longrightarrow> is_digit (char_of (48 + d)) \<and> digit_val (char_of (48 + d)) = d"
  by (simp add: is_digit_def digit_val_def)

lemma is_digit_not_sign: "is_digit c \<Longrightarrow> c \<noteq> CHR ''+'' \<and> c \<noteq> CHR ''-''"
  by (auto simp: is_digit_def)

lemma digits_val_snoc [simp]: "digits_val (s @ [c]) = digits_val s * 10 + digit_val c"
  by (simp add: digits_val_def)

lemma show_nat_digits: "list_all is_digit (show_nat n) \<and> show_nat n \<noteq> [] \<and> digits_val (show_nat n) = n"
proof (induction n rule: show_nat.induct)
  case (1 n)
  show ?case
  proof (cases "n < 10")
    case True
    then show ?thesis by (simp add: show_nat.simps [of n]) (simp add: digits_val_def)
  next
    case False
    with 1 show ?thesis by (simp add: show_nat.simps [of n])
  qed
qed

lemma parse_digits_show_nat [simp]: "parse_digits (show_nat n) = Some n"
  using show_nat_digits [of n] by (simp add: parse_digits_def)

lemma parse_uint_show_nat:
  assumes "n \<le> mx"
  shows "parse_uint mx (show_nat n) = Some n"
proof -
  obtain c r where cr: "show_nat n = c # r" and "c \<noteq> CHR ''+''"
    using show_nat_digits [of n] is_digit_not_sign by (cases "show_nat n") auto
  then have "parse_uint mx (show_nat n) =
    (case parse_digits (show_nat n) of Some n \<Rightarrow> if n \<le> mx then Some n else None | None \<Rightarrow> None)"
    by (simp add: parse_uint_def)
  with assms show ?thesis by simp
qed

end
