(* ===== verification/Prefix_Code.thy ===== *)
theory Prefix_Code
  imports Blast_Prelude
begin

text \<open>
  Bit lists and prefix codes. \<open>bits_be n w\<close> are the low \<open>n\<close> bits of \<open>w\<close>, most
  significant first; \<open>bytes_bits\<close> is a byte string as it is read from the wire, bit by bit.
  \<open>full_code\<close> decides that a list of code words is the leaf set of a full binary tree, which
  is prefix-freeness and completeness at once; \<open>full_num\<close> is the same test on left-aligned
  numeric codes, the form a code table is checked in.
\<close>

section \<open>Bits of words\<close>

definition bits_be :: "nat \<Rightarrow> 'a::semiring_bits \<Rightarrow> bool list" where
  "bits_be n w = map (bit w) (rev [0..<n])"

definition bytes_bits :: "bytes \<Rightarrow> bool list" where
  "bytes_bits bs = concat (map (bits_be 8) bs)"

lemma bits_be_0 [simp, bits_simps]: "bits_be 0 w = []"
  by (simp add: bits_be_def)

lemma bits_be_Suc [bits_simps]: "bits_be (Suc n) w = bit w n # bits_be n w"
  by (simp add: bits_be_def)

lemma length_bits_be [simp]: "length (bits_be n w) = n"
  by (simp add: bits_be_def)

lemma nth_bits_be: "i < n \<Longrightarrow> bits_be n w ! i = bit w (n - 1 - i)"
  by (simp add: bits_be_def rev_nth)

lemma bytes_bits_simps [simp, bits_simps]:
  "bytes_bits [] = []"
  "bytes_bits (b # bs) = bits_be 8 b @ bytes_bits bs"
  "bytes_bits (as @ bs) = bytes_bits as @ bytes_bits bs"
  by (simp_all add: bytes_bits_def)

lemma length_bytes_bits [simp]: "length (bytes_bits bs) = 8 * length bs"
  by (induction bs) simp_all

lemma bits_be_8_inject: "bits_be 8 a = bits_be 8 b \<longleftrightarrow> a = (b :: u8)"
proof
  assume eq: "bits_be 8 a = bits_be 8 b"
  show "a = b"
  proof (rule bit_word_eqI)
    fix n assume "n < LENGTH(8)"
    then have n: "7 - n < 8" "n = 8 - 1 - (7 - n)" by auto
    with eq show "bit a n \<longleftrightarrow> bit b n"
      using nth_bits_be [OF n(1), of a] nth_bits_be [OF n(1), of b] by metis
  qed
qed simp

lemma bits_be_eq_Nil [simp]: "bits_be n w = [] \<longleftrightarrow> n = 0"
  by (metis length_0_conv length_bits_be)

lemma bytes_bits_inject: "bytes_bits as = bytes_bits bs \<longleftrightarrow> as = bs"
proof (induction as arbitrary: bs)
  case Nil
  then show ?case by (cases bs) auto
next
  case (Cons a as)
  then show ?case by (cases bs) (auto simp: bits_be_8_inject)
qed

lemma nth_bytes_bits:
  "i < length bs \<Longrightarrow> k < 8 \<Longrightarrow> bytes_bits bs ! (8 * i + k) = bit (bs ! i) (7 - k)"
proof (induction bs arbitrary: i)
  case (Cons b bs)
  show ?case
  proof (cases i)
    case 0
    with Cons.prems show ?thesis by (simp add: nth_append nth_bits_be)
  next
    case (Suc j)
    with Cons show ?thesis by (simp add: nth_append)
  qed
qed simp

section \<open>Full prefix codes\<close>

fun full_code :: "nat \<Rightarrow> bool list list \<Rightarrow> bool" where
  "full_code 0 cs \<longleftrightarrow> cs = [[]]"
| "full_code (Suc n) cs \<longleftrightarrow> cs = [[]] \<or> ([] \<notin> set cs \<and>
     full_code n (map tl (filter hd cs)) \<and> full_code n (map tl (filter (\<lambda>c. \<not> hd c) cs)))"

fun full_num :: "bool list \<Rightarrow> int \<Rightarrow> (int \<times> int) list \<Rightarrow> bool" where
  "full_num [] p cs = (case cs of [(c, l)] \<Rightarrow> l = 0 | _ \<Rightarrow> False)"
| "full_num (_ # n) p cs = (case cs of [] \<Rightarrow> False | (c, l) # r \<Rightarrow>
     if l = 0 then r = []
     else list_all (\<lambda>(c, l). l \<noteq> 0) cs \<and>
          full_num n (p div 2) (map (\<lambda>(c, l). (c - p, l - 1)) (filter (\<lambda>(c, l). c \<ge> p) cs)) \<and>
          full_num n (p div 2) (map (\<lambda>(c, l). (c, l - 1)) (filter (\<lambda>(c, l). c < p) cs)))"

definition sub_codes :: "bool \<Rightarrow> bool list list \<Rightarrow> bool list list" where
  "sub_codes b cs = map tl (filter (\<lambda>c. hd c = b) cs)"

lemma full_code_Suc:
  "full_code (Suc n) cs \<longleftrightarrow> cs = [[]] \<or> ([] \<notin> set cs \<and> (\<forall>b. full_code n (sub_codes b cs)))"
proof -
  have "sub_codes True cs = map tl (filter hd cs)"
    and "sub_codes False cs = map tl (filter (\<lambda>c. \<not> hd c) cs)"
    by (simp_all add: sub_codes_def)
  then show ?thesis by (metis (full_types) full_code.simps(2))
qed

lemma set_sub_codes:
  assumes "[] \<notin> set cs"
  shows "c \<in> set (sub_codes b cs) \<longleftrightarrow> b # c \<in> set cs"
proof
  assume "c \<in> set (sub_codes b cs)"
  then obtain d where d: "d \<in> set cs" "hd d = b" "c = tl d" by (auto simp: sub_codes_def)
  with assms have "d \<noteq> []" by blast
  with d(2,3) have "d = b # c" by (cases d) simp_all
  with d(1) show "b # c \<in> set cs" by simp
next
  assume "b # c \<in> set cs"
  then have "b # c \<in> set (filter (\<lambda>c. hd c = b) cs)" by simp
  then show "c \<in> set (sub_codes b cs)" unfolding sub_codes_def by force
qed

lemma full_code_nonempty: "full_code n cs \<Longrightarrow> cs \<noteq> []"
proof (induction n arbitrary: cs)
  case (Suc n)
  show ?case
  proof
    assume "cs = []"
    with Suc.prems have "full_code n []" by simp
    with Suc.IH show False by blast
  qed
qed simp

lemma full_code_prefix_free:
  "full_code n cs \<Longrightarrow> a \<in> set cs \<Longrightarrow> c \<in> set cs \<Longrightarrow> prefix a c \<Longrightarrow> a = c"
proof (induction n arbitrary: cs a c)
  case (Suc n)
  show ?case
  proof (cases "cs = [[]]")
    case False
    with Suc.prems have ne: "[] \<notin> set cs" and sub: "\<And>b. full_code n (sub_codes b cs)"
      by (auto simp: full_code_Suc simp del: full_code.simps)
    from ne Suc.prems(2-4) obtain b a' c' where ac: "a = b # a'" "c = b # c'" "prefix a' c'"
      by (cases a; cases c) auto
    with Suc.IH [OF sub] set_sub_codes [OF ne] Suc.prems(2,3) show ?thesis by blast
  qed (use Suc.prems in auto)
qed auto

lemma full_code_complete:
  "full_code n cs \<Longrightarrow> c \<in> set cs \<Longrightarrow> strict_prefix p c \<Longrightarrow> \<exists>c'\<in>set cs. prefix (p @ [b]) c'"
proof (induction n arbitrary: cs c p)
  case (Suc n)
  show ?case
  proof (cases "cs = [[]]")
    case False
    with Suc.prems have ne: "[] \<notin> set cs" and sub: "\<And>b. full_code n (sub_codes b cs)"
      by (auto simp: full_code_Suc simp del: full_code.simps)
    show ?thesis
    proof (cases p)
      case Nil
      obtain c' where "c' \<in> set (sub_codes b cs)"
        using full_code_nonempty [OF sub] by (meson last_in_set)
      then have "b # c' \<in> set cs" by (simp add: set_sub_codes [OF ne])
      with Nil show ?thesis by (intro bexI [of _ "b # c'"]) auto
    next
      case (Cons x p')
      with Suc.prems(3) obtain c1 where c1: "c = x # c1" "strict_prefix p' c1" by (cases c) auto
      with Suc.prems(2) have "c1 \<in> set (sub_codes x cs)" by (simp add: set_sub_codes [OF ne])
      from Suc.IH [OF sub this c1(2)] obtain c' where "c' \<in> set (sub_codes x cs)" "prefix (p' @ [b]) c'"
        by blast
      with Cons set_sub_codes [OF ne] show ?thesis by (metis append_Cons Cons_prefix_Cons)
    qed
  qed (use Suc.prems in auto)
qed auto

lemma distinct_halves:
  "distinct (filter P xs) \<Longrightarrow> distinct (filter (\<lambda>x. \<not> P x) xs) \<Longrightarrow> distinct xs"
  by (induction xs) (auto split: if_splits)

lemma full_code_distinct: "full_code n cs \<Longrightarrow> distinct cs"
proof (induction n arbitrary: cs)
  case (Suc n)
  show ?case
  proof (cases "cs = [[]]")
    case False
    with Suc.prems have "full_code n (map tl (filter hd cs))"
      "full_code n (map tl (filter (\<lambda>c. \<not> hd c) cs))"
      by simp_all
    then have "distinct (map tl (filter hd cs))" "distinct (map tl (filter (\<lambda>c. \<not> hd c) cs))"
      using Suc.IH by blast+
    then have "distinct (filter hd cs)" "distinct (filter (\<lambda>c. \<not> hd c) cs)"
      unfolding distinct_map by blast+
    then show ?thesis by (rule distinct_halves)
  qed simp
qed auto

text \<open>The numeric test implies the test on bit lists.\<close>

definition top_bits :: "nat \<Rightarrow> int \<times> int \<Rightarrow> bool list" where
  "top_bits n cl = take (nat (snd cl)) (bits_be n (fst cl))"

lemma bit_top:
  assumes "0 \<le> c" "c < 2 ^ Suc n"
  shows "bit c n \<longleftrightarrow> 2 ^ n \<le> (c :: int)"
proof (cases "2 ^ n \<le> c")
  case True
  with assms have "c div 2 ^ n = 1"
    by (intro int_div_pos_eq [of c "2 ^ n" 1 "c - 2 ^ n"]) auto
  with True show ?thesis by (simp add: bit_iff_odd)
next
  case False
  with assms show ?thesis by (simp add: bit_iff_odd div_pos_pos_trivial)
qed

lemma bits_be_top_sub:
  assumes "2 ^ n \<le> (c :: int)" "c < 2 ^ Suc n"
  shows "bits_be n (c - 2 ^ n) = bits_be n c"
proof -
  have "take_bit n (c - 2 ^ n) = take_bit n c"
    by (simp add: take_bit_eq_mod mod_diff_right_eq [symmetric])
  then have "bit (c - 2 ^ n) i = bit c i" if "i < n" for i
    using that by (metis bit_take_bit_iff)
  then show ?thesis by (auto simp: bits_be_def)
qed

lemma full_num_full_code:
  assumes "full_num f p cs" "p = 2 ^ length f div 2"
    and "\<And>c l. (c, l) \<in> set cs \<Longrightarrow> 0 \<le> c \<and> c < 2 ^ length f \<and> 0 \<le> l \<and> l \<le> int (length f)"
  shows "full_code (length f) (map (top_bits (length f)) cs)"
  using assms
proof (induction f p cs rule: full_num.induct)
  case (1 p cs)
  then obtain c where "cs = [(c, 0)]" by (cases cs; cases "tl cs") auto
  then show ?case by (simp add: top_bits_def)
next
  case (2 x f p cs)
  let ?n = "length f"
  from 2(3) obtain c l r where cs: "cs = (c, l) # r" by (cases cs) auto
  show ?case
  proof (cases "l = 0")
    case True
    with 2(3) cs show ?thesis by (simp add: top_bits_def)
  next
    case False
    have p: "p = 2 ^ ?n" using 2(4) by simp
    from False 2(3) cs have nz: "\<And>c l. (c, l) \<in> set cs \<Longrightarrow> l \<noteq> 0"
      by (auto simp: list_all_iff)
    have hd: "hd (top_bits (Suc ?n) (c, l)) \<longleftrightarrow> p \<le> c"
      and ne: "top_bits (Suc ?n) (c, l) \<noteq> []"
      and tl: "tl (top_bits (Suc ?n) (c, l)) = top_bits ?n (if p \<le> c then c - p else c, l - 1)"
      if "(c, l) \<in> set cs" for c l
    proof -
      have "nat l = Suc (nat (l - 1))" using nz [OF that] 2(5) [OF that] by linarith
      then have eq: "top_bits (Suc ?n) (c, l) = bit c ?n # take (nat (l - 1)) (bits_be ?n c)"
        by (simp add: top_bits_def bits_be_Suc)
      then show "hd (top_bits (Suc ?n) (c, l)) \<longleftrightarrow> p \<le> c" "top_bits (Suc ?n) (c, l) \<noteq> []"
        using 2(5) [OF that] by (simp_all add: bit_top p)
      show "tl (top_bits (Suc ?n) (c, l)) = top_bits ?n (if p \<le> c then c - p else c, l - 1)"
        using 2(5) [OF that] eq by (simp add: top_bits_def p bits_be_top_sub)
    qed
    have half1: "map tl (filter hd (map (top_bits (Suc ?n)) cs)) =
        map (top_bits ?n) (map (\<lambda>(c, l). (c - p, l - 1)) (filter (\<lambda>(c, l). c \<ge> p) cs))"
      using hd tl by (auto simp: filter_map comp_def intro!: map_cong filter_cong)
    have half2: "map tl (filter (\<lambda>c. \<not> hd c) (map (top_bits (Suc ?n)) cs)) =
        map (top_bits ?n) (map (\<lambda>(c, l). (c, l - 1)) (filter (\<lambda>(c, l). c < p) cs))"
      using hd tl by (auto simp: filter_map comp_def not_le intro!: map_cong filter_cong)
    have rec: "full_num f (p div 2) (map (\<lambda>(c, l). (c - p, l - 1)) (filter (\<lambda>(c, l). c \<ge> p) cs))"
      "full_num f (p div 2) (map (\<lambda>(c, l). (c, l - 1)) (filter (\<lambda>(c, l). c < p) cs))"
      using 2(3) cs False by auto
    have range1: "0 \<le> c' \<and> c' < 2 ^ ?n \<and> 0 \<le> l' \<and> l' \<le> int ?n"
      if "(c', l') \<in> set (map (\<lambda>(c, l). (c - p, l - 1)) (filter (\<lambda>(c, l). c \<ge> p) cs))" for c' l'
    proof -
      from that obtain c l where "(c, l) \<in> set cs" "p \<le> c" "c' = c - p" "l' = l - 1" by auto
      with 2(5) [of c l] nz [of c l] p show ?thesis by simp
    qed
    have range2: "0 \<le> c' \<and> c' < 2 ^ ?n \<and> 0 \<le> l' \<and> l' \<le> int ?n"
      if "(c', l') \<in> set (map (\<lambda>(c, l). (c, l - 1)) (filter (\<lambda>(c, l). c < p) cs))" for c' l'
    proof -
      from that obtain l where "(c', l) \<in> set cs" "c' < p" "l' = l - 1" by auto
      with 2(5) [of c' l] nz [of c' l] p show ?thesis by simp
    qed
    have "full_code ?n (map tl (filter hd (map (top_bits (Suc ?n)) cs)))"
      unfolding half1 by (rule 2(1) [OF cs refl False rec(1) _ range1]) (simp add: p)
    moreover have "full_code ?n (map tl (filter (\<lambda>c. \<not> hd c) (map (top_bits (Suc ?n)) cs)))"
      unfolding half2 by (rule 2(2) [OF cs refl False rec(2) _ range2]) (simp add: p)
    moreover have "[] \<notin> set (map (top_bits (Suc ?n)) cs)" using ne by fastforce
    ultimately show ?thesis by simp
  qed
qed

end
