(* ===== verification/Huffman.thy ===== *)
theory Huffman
  imports Prefix_Code
begin

text \<open>
  The HPACK string coder of \<^verbatim>\<open>src/h2/huffman.rs\<close>: the 256-entry code table, the
  encoder with its 64-bit accumulator, the length function, and the decoder that walks a binary
  tree built once from the table (an array of nodes, children by index).

  Lemmas: the encoder emits exactly the concatenated codes padded with ones; the tree built by
  \<open>insert_symbol\<close> is the trie of the table; decoding accepts exactly the encoder's output.
\<close>

section \<open>The encoder\<close>

definition HUFFMAN_TABLE :: "(u32 \<times> nat) list" where
  "HUFFMAN_TABLE = [
     (0x1ff8, 13), (0x7fffd8, 23), (0xfffffe2, 28), (0xfffffe3, 28), (0xfffffe4, 28), (0xfffffe5, 28),
     (0xfffffe6, 28), (0xfffffe7, 28), (0xfffffe8, 28), (0xffffea, 24), (0x3ffffffc, 30), (0xfffffe9, 28),
     (0xfffffea, 28), (0x3ffffffd, 30), (0xfffffeb, 28), (0xfffffec, 28), (0xfffffed, 28), (0xfffffee, 28),
     (0xfffffef, 28), (0xffffff0, 28), (0xffffff1, 28), (0xffffff2, 28), (0x3ffffffe, 30), (0xffffff3, 28),
     (0xffffff4, 28), (0xffffff5, 28), (0xffffff6, 28), (0xffffff7, 28), (0xffffff8, 28), (0xffffff9, 28),
     (0xffffffa, 28), (0xffffffb, 28), (0x14, 6), (0x3f8, 10), (0x3f9, 10), (0xffa, 12),
     (0x1ff9, 13), (0x15, 6), (0xf8, 8), (0x7fa, 11), (0x3fa, 10), (0x3fb, 10),
     (0xf9, 8), (0x7fb, 11), (0xfa, 8), (0x16, 6), (0x17, 6), (0x18, 6),
     (0x0, 5), (0x1, 5), (0x2, 5), (0x19, 6), (0x1a, 6), (0x1b, 6),
     (0x1c, 6), (0x1d, 6), (0x1e, 6), (0x1f, 6), (0x5c, 7), (0xfb, 8),
     (0x7ffc, 15), (0x20, 6), (0xffb, 12), (0x3fc, 10), (0x1ffa, 13), (0x21, 6),
     (0x5d, 7), (0x5e, 7), (0x5f, 7), (0x60, 7), (0x61, 7), (0x62, 7),
     (0x63, 7), (0x64, 7), (0x65, 7), (0x66, 7), (0x67, 7), (0x68, 7),
     (0x69, 7), (0x6a, 7), (0x6b, 7), (0x6c, 7), (0x6d, 7), (0x6e, 7),
     (0x6f, 7), (0x70, 7), (0x71, 7), (0x72, 7), (0xfc, 8), (0x73, 7),
     (0xfd, 8), (0x1ffb, 13), (0x7fff0, 19), (0x1ffc, 13), (0x3ffc, 14), (0x22, 6),
     (0x7ffd, 15), (0x3, 5), (0x23, 6), (0x4, 5), (0x24, 6), (0x5, 5),
     (0x25, 6), (0x26, 6), (0x27, 6), (0x6, 5), (0x74, 7), (0x75, 7),
     (0x28, 6), (0x29, 6), (0x2a, 6), (0x7, 5), (0x2b, 6), (0x76, 7),
     (0x2c, 6), (0x8, 5), (0x9, 5), (0x2d, 6), (0x77, 7), (0x78, 7),
     (0x79, 7), (0x7a, 7), (0x7b, 7), (0x7ffe, 15), (0x7fc, 11), (0x3ffd, 14),
     (0x1ffd, 13), (0xffffffc, 28), (0xfffe6, 20), (0x3fffd2, 22), (0xfffe7, 20), (0xfffe8, 20),
     (0x3fffd3, 22), (0x3fffd4, 22), (0x3fffd5, 22), (0x7fffd9, 23), (0x3fffd6, 22), (0x7fffda, 23),
     (0x7fffdb, 23), (0x7fffdc, 23), (0x7fffdd, 23), (0x7fffde, 23), (0xffffeb, 24), (0x7fffdf, 23),
     (0xffffec, 24), (0xffffed, 24), (0x3fffd7, 22), (0x7fffe0, 23), (0xffffee, 24), (0x7fffe1, 23),
     (0x7fffe2, 23), (0x7fffe3, 23), (0x7fffe4, 23), (0x1fffdc, 21), (0x3fffd8, 22), (0x7fffe5, 23),
     (0x3fffd9, 22), (0x7fffe6, 23), (0x7fffe7, 23), (0xffffef, 24), (0x3fffda, 22), (0x1fffdd, 21),
     (0xfffe9, 20), (0x3fffdb, 22), (0x3fffdc, 22), (0x7fffe8, 23), (0x7fffe9, 23), (0x1fffde, 21),
     (0x7fffea, 23), (0x3fffdd, 22), (0x3fffde, 22), (0xfffff0, 24), (0x1fffdf, 21), (0x3fffdf, 22),
     (0x7fffeb, 23), (0x7fffec, 23), (0x1fffe0, 21), (0x1fffe1, 21), (0x3fffe0, 22), (0x1fffe2, 21),
     (0x7fffed, 23), (0x3fffe1, 22), (0x7fffee, 23), (0x7fffef, 23), (0xfffea, 20), (0x3fffe2, 22),
     (0x3fffe3, 22), (0x3fffe4, 22), (0x7ffff0, 23), (0x3fffe5, 22), (0x3fffe6, 22), (0x7ffff1, 23),
     (0x3ffffe0, 26), (0x3ffffe1, 26), (0xfffeb, 20), (0x7fff1, 19), (0x3fffe7, 22), (0x7ffff2, 23),
     (0x3fffe8, 22), (0x1ffffec, 25), (0x3ffffe2, 26), (0x3ffffe3, 26), (0x3ffffe4, 26), (0x7ffffde, 27),
     (0x7ffffdf, 27), (0x3ffffe5, 26), (0xfffff1, 24), (0x1ffffed, 25), (0x7fff2, 19), (0x1fffe3, 21),
     (0x3ffffe6, 26), (0x7ffffe0, 27), (0x7ffffe1, 27), (0x3ffffe7, 26), (0x7ffffe2, 27), (0xfffff2, 24),
     (0x1fffe4, 21), (0x1fffe5, 21), (0x3ffffe8, 26), (0x3ffffe9, 26), (0xffffffd, 28), (0x7ffffe3, 27),
     (0x7ffffe4, 27), (0x7ffffe5, 27), (0xfffec, 20), (0xfffff3, 24), (0xfffed, 20), (0x1fffe6, 21),
     (0x3fffe9, 22), (0x1fffe7, 21), (0x1fffe8, 21), (0x7ffff3, 23), (0x3fffea, 22), (0x3fffeb, 22),
     (0x1ffffee, 25), (0x1ffffef, 25), (0xfffff4, 24), (0xfffff5, 24), (0x3ffffea, 26), (0x7ffff4, 23),
     (0x3ffffeb, 26), (0x7ffffe6, 27), (0x3ffffec, 26), (0x3ffffed, 26), (0x7ffffe7, 27), (0x7ffffe8, 27),
     (0x7ffffe9, 27), (0x7ffffea, 27), (0x7ffffeb, 27), (0xffffffe, 28), (0x7ffffec, 27), (0x7ffffed, 27),
     (0x7ffffee, 27), (0x7ffffef, 27), (0x7fffff0, 27), (0x3ffffee, 26)]"

function emit_bytes :: "u64 \<Rightarrow> nat \<Rightarrow> bytes \<Rightarrow> nat \<times> bytes" where
  "emit_bytes bit_buf bits_in_buf out =
     (if bits_in_buf \<ge> 8
      then emit_bytes bit_buf (bits_in_buf - 8)
             (out @ [ucast (drop_bit (bits_in_buf - 8) bit_buf AND 0xFF)])
      else (bits_in_buf, out))"
  by pat_completeness auto
termination
  by (relation "measure (\<lambda>(_, n, _). n)") auto

declare emit_bytes.simps [simp del]

definition encode_byte :: "u64 \<times> nat \<times> bytes \<Rightarrow> u8 \<Rightarrow> u64 \<times> nat \<times> bytes" where
  "encode_byte st b =
     (let (bit_buf, bits_in_buf, out) = st;
          (code, code_len) = HUFFMAN_TABLE ! unat b;
          bit_buf = push_bit code_len bit_buf OR ucast code;
          (bits_in_buf, out) = emit_bytes bit_buf (bits_in_buf + code_len) out
      in (bit_buf, bits_in_buf, out))"

definition huffman_encode :: "bytes \<Rightarrow> bytes" where
  "huffman_encode input =
     (let (bit_buf, bits_in_buf, out) = foldl encode_byte (0, 0, []) input in
      if bits_in_buf > 0
      then (let pad = 8 - bits_in_buf;
                bit_buf = push_bit pad bit_buf OR (push_bit pad 1 - 1)
            in out @ [ucast (bit_buf AND 0xFF)])
      else out)"

definition huffman_encoded_len :: "bytes \<Rightarrow> nat" where
  "huffman_encoded_len input =
     (let bits = foldl (\<lambda>bits b. bits + snd (HUFFMAN_TABLE ! unat b)) 0 input
      in (bits + 7) div 8)"

section \<open>The decode tree and the decoder\<close>

datatype huffman_error = EosInStream | BadPadding

record huff_node =
  hn_left :: nat
  hn_right :: nat
  hn_symbol :: "nat option"
  hn_all_ones_depth :: nat
  hn_prefix_of_eos :: bool

type_synonym huff_tree = "huff_node list"

text \<open>One step of the insertion loop: the child of node \<open>idx\<close> for bit \<open>b\<close>, created if absent.\<close>

definition insert_step :: "huff_tree \<Rightarrow> nat \<Rightarrow> bool \<Rightarrow> huff_tree \<times> nat" where
  "insert_step tree idx b =
     (let parent_all_ones_depth = hn_all_ones_depth (tree ! idx);
          parent_prefix_eos = hn_prefix_of_eos (tree ! idx) in
      if \<not> b then
        (if hn_left (tree ! idx) \<noteq> 0 then (tree, hn_left (tree ! idx))
         else (let new_idx = length tree;
                   tree = tree @ [\<lparr>hn_left = 0, hn_right = 0, hn_symbol = None,
                                   hn_all_ones_depth = 0, hn_prefix_of_eos = False\<rparr>]
               in (tree[idx := (tree ! idx)\<lparr>hn_left := new_idx\<rparr>], new_idx)))
      else if hn_right (tree ! idx) \<noteq> 0 then (tree, hn_right (tree ! idx))
      else (let new_idx = length tree;
                tree = tree @ [\<lparr>hn_left = 0, hn_right = 0, hn_symbol = None,
                                hn_all_ones_depth = parent_all_ones_depth + 1,
                                hn_prefix_of_eos = parent_prefix_eos\<rparr>]
            in (tree[idx := (tree ! idx)\<lparr>hn_right := new_idx\<rparr>], new_idx)))"

fun insert_walk :: "huff_tree \<Rightarrow> nat \<Rightarrow> u32 \<Rightarrow> nat \<Rightarrow> huff_tree \<times> nat" where
  "insert_walk tree idx code 0 = (tree, idx)"
| "insert_walk tree idx code (Suc i) =
     (let (tree, idx) = insert_step tree idx (bit code i) in insert_walk tree idx code i)"

definition insert_symbol :: "huff_tree \<Rightarrow> u32 \<Rightarrow> nat \<Rightarrow> nat \<Rightarrow> huff_tree" where
  "insert_symbol tree code code_len symb =
     (let (tree, idx) = insert_walk tree 0 code code_len
      in tree[idx := (tree ! idx)\<lparr>hn_symbol := Some symb\<rparr>])"

definition huff_root :: huff_node where
  "huff_root = \<lparr>hn_left = 0, hn_right = 0, hn_symbol = None,
                hn_all_ones_depth = 0, hn_prefix_of_eos = True\<rparr>"

definition huffman_tree :: huff_tree where
  "huffman_tree =
     (let tree = foldl (\<lambda>tree (symb, code, code_len). insert_symbol tree code code_len symb)
                   [huff_root] (zip [0..<256] HUFFMAN_TABLE)
      in insert_symbol tree 0x3fffffff 30 256)"

text \<open>
  The decode loop. The guard's second conjunct is the invariant of the bit counter, which the
  code resets whenever it reaches 8.
\<close>

function decode_loop ::
  "huff_tree \<Rightarrow> bytes \<Rightarrow> nat \<Rightarrow> nat \<Rightarrow> nat \<Rightarrow> bytes \<Rightarrow> huffman_error + nat \<times> bytes" where
  "decode_loop tree input byte_pos consumed node_idx out =
     (if byte_pos < length input \<and> consumed < 8 then
        (let b = input ! byte_pos;
             node_idx = (if \<not> bit b (7 - consumed) then hn_left (tree ! node_idx)
                         else hn_right (tree ! node_idx));
             (byte_pos', consumed') =
               (if consumed + 1 = 8 then (byte_pos + 1, 0) else (byte_pos, consumed + 1))
         in case hn_symbol (tree ! node_idx) of
              Some symb \<Rightarrow>
                (if symb = 256 then Inl EosInStream
                 else decode_loop tree input byte_pos' consumed' 0 (out @ [of_nat symb]))
            | None \<Rightarrow> decode_loop tree input byte_pos' consumed' node_idx out)
      else Inr (node_idx, out))"
  by pat_completeness auto
termination
  by (relation "measure (\<lambda>(_, input, pos, consumed, _, _). 8 * (length input - pos) + (8 - consumed))")
    (auto split: if_splits)

declare decode_loop.simps [simp del]

definition huffman_decode :: "bytes \<Rightarrow> huffman_error + bytes" where
  "huffman_decode input =
     (case decode_loop huffman_tree input 0 0 0 [] of
        Inl e \<Rightarrow> Inl e
      | Inr (node_idx, out) \<Rightarrow>
          (if node_idx \<noteq> 0 \<and>
              (hn_all_ones_depth (huffman_tree ! node_idx) > 7
               \<or> \<not> hn_prefix_of_eos (huffman_tree ! node_idx))
           then Inl BadPadding else Inr out))"

section \<open>Correctness of the encoder\<close>

definition code_of :: "u8 \<Rightarrow> bool list" where
  "code_of b = (let (code, code_len) = HUFFMAN_TABLE ! unat b in bits_be code_len code)"

lemma HUFFMAN_TABLE_length [simp]: "length HUFFMAN_TABLE = 256"
  by code_simp

lemma HUFFMAN_TABLE_wf: "list_all (\<lambda>(c, l). 5 \<le> l \<and> l \<le> 30 \<and> drop_bit l c = 0) HUFFMAN_TABLE"
  by code_simp

lemma HUFFMAN_TABLE_entry:
  assumes "HUFFMAN_TABLE ! unat (b :: u8) = (c, l)"
  shows "5 \<le> l \<and> l \<le> 30 \<and> drop_bit l c = 0"
proof -
  have "unat b < 2 ^ LENGTH(8)" by (rule unsigned_less)
  then have "(c, l) \<in> set HUFFMAN_TABLE" using assms nth_mem [of "unat b" HUFFMAN_TABLE] by simp
  with HUFFMAN_TABLE_wf show ?thesis by (auto simp: list_all_iff)
qed

lemma bits_be_split8:
  assumes "8 \<le> n"
  shows "bits_be n buf = bits_be 8 (ucast (drop_bit (n - 8) (buf :: u64) AND 0xFF) :: u8) @ bits_be (n - 8) buf"
proof -
  have ff: "(0xFF :: u64) = mask 8" by (simp add: mask_eq_exp_minus_1)
  show ?thesis
  proof (rule nth_equalityI)
    fix i assume "i < length (bits_be n buf)"
    then have i: "i < n" by simp
    show "bits_be n buf ! i = (bits_be 8 (ucast (drop_bit (n - 8) buf AND 0xFF) :: u8) @ bits_be (n - 8) buf) ! i"
    proof (cases "i < 8")
      case True
      then have eq: "n - 8 + (7 - i) = n - Suc i" using assms by simp
      from True i show ?thesis
        by (auto simp: nth_append nth_bits_be bit_simps ff eq)
    next
      case False
      with i assms show ?thesis by (simp add: nth_append nth_bits_be)
    qed
  qed (use assms in simp)
qed

lemma emit_bytes_bits:
  "emit_bytes buf n out = (n', out') \<Longrightarrow>
   n' < 8 \<and> bytes_bits out' @ bits_be n' buf = bytes_bits out @ bits_be n buf"
proof (induction buf n out rule: emit_bytes.induct)
  case (1 buf n out)
  show ?case
  proof (cases "8 \<le> n")
    case True
    with 1(2) have "emit_bytes buf (n - 8) (out @ [ucast (drop_bit (n - 8) buf AND 0xFF)]) = (n', out')"
      by (simp add: emit_bytes.simps [of buf n])
    from 1(1) [OF True this] bits_be_split8 [OF True, of buf] show ?thesis by simp
  next
    case False
    with 1(2) show ?thesis by (auto simp: emit_bytes.simps [of buf n])
  qed
qed

lemma push_code_bits:
  assumes "n + l \<le> 64" "drop_bit l code = (0 :: u32)"
  shows "bits_be (n + l) (push_bit l buf OR ucast code :: u64) = bits_be n buf @ bits_be l code"
proof (rule nth_equalityI)
  fix i assume "i < length (bits_be (n + l) (push_bit l buf OR ucast code :: u64))"
  then have i: "i < n + l" by simp
  have hi: "\<not> bit code (l + m)" for m
    using arg_cong [OF assms(2), of "\<lambda>w. bit w m"] by (simp add: bit_simps add.commute)
  show "bits_be (n + l) (push_bit l buf OR ucast code :: u64) ! i = (bits_be n buf @ bits_be l code) ! i"
  proof (cases "i < n")
    case True
    then have eq: "n + l - Suc i = l + (n - Suc i)" by simp
    from True i assms(1) hi [of "n - Suc i"] show ?thesis
      by (auto simp: nth_append nth_bits_be bit_simps eq add.commute)
  next
    case False
    then have eq: "n + l - Suc i = l - Suc (i - n)" "l - Suc (i - n) < l" using i by auto
    from False i assms(1) show ?thesis
      by (auto simp: nth_append nth_bits_be bit_simps eq)
  qed
qed simp

lemma encode_byte_bits:
  assumes "encode_byte (buf, n, out) b = (buf', n', out')" "n < 8"
  shows "n' < 8 \<and> bytes_bits out' @ bits_be n' buf' = bytes_bits out @ bits_be n buf @ code_of b"
proof -
  obtain c l where cl: "HUFFMAN_TABLE ! unat b = (c, l)" by fastforce
  from HUFFMAN_TABLE_entry [OF cl] assms(2) have "n + l \<le> 64" "drop_bit l c = 0" by auto
  from push_code_bits [OF this, of buf] assms(1) cl show ?thesis
    by (auto simp: encode_byte_def Let_def code_of_def dest!: emit_bytes_bits split: prod.splits)
qed

lemma encode_fold_bits:
  "foldl encode_byte (buf, n, out) s = (buf', n', out') \<Longrightarrow> n < 8 \<Longrightarrow>
   n' < 8 \<and> bytes_bits out' @ bits_be n' buf' = bytes_bits out @ bits_be n buf @ concat (map code_of s)"
proof (induction s arbitrary: buf n out)
  case (Cons b s)
  obtain buf1 n1 out1 where st: "encode_byte (buf, n, out) b = (buf1, n1, out1)"
    by (metis prod_cases3)
  from encode_byte_bits [OF st Cons.prems(2)] Cons.IH [of buf1 n1 out1] Cons.prems(1) st
  show ?case by simp
qed simp

lemma pad_bits:
  assumes "0 < n" "n < 8"
  shows "bits_be 8 (ucast ((push_bit (8 - n) buf OR (2 ^ (8 - n) - 1)) AND 0xFF :: u64) :: u8)
    = bits_be n buf @ replicate (8 - n) True"
proof -
  have ff: "(0xFF :: u64) = mask 8" by (simp add: mask_eq_exp_minus_1)
  have m: "2 ^ (8 - n) - 1 = (mask (8 - n) :: u64)"
    by (simp add: mask_eq_exp_minus_1)
  show ?thesis
  proof (rule nth_equalityI)
    fix i assume "i < length (bits_be 8 (ucast ((push_bit (8 - n) buf OR (2 ^ (8 - n) - 1)) AND 0xFF :: u64) :: u8))"
    then have "i < 8" by simp
    with assms show "bits_be 8 (ucast ((push_bit (8 - n) buf OR (2 ^ (8 - n) - 1)) AND 0xFF :: u64) :: u8) ! i
        = (bits_be n buf @ replicate (8 - n) True) ! i"
      unfolding m ff by (auto simp: nth_append nth_bits_be bit_simps)
  qed (use assms in simp)
qed

lemma huffman_encode_bits:
  "\<exists>k < 8. bytes_bits (huffman_encode s) = concat (map code_of s) @ replicate k True"
proof -
  obtain buf n out where st: "foldl encode_byte (0, 0, []) s = (buf, n, out)" by (metis prod_cases3)
  from encode_fold_bits [OF st] have n: "n < 8"
    and bits: "bytes_bits out @ bits_be n buf = concat (map code_of s)" by simp_all
  show ?thesis
  proof (cases "n = 0")
    case True
    with st bits have "bytes_bits (huffman_encode s) = concat (map code_of s) @ replicate 0 True"
      by (simp add: huffman_encode_def)
    then show ?thesis by (intro exI [of _ 0]) simp
  next
    case False
    with st n have "bytes_bits (huffman_encode s) = bytes_bits out @ bits_be n buf @ replicate (8 - n) True"
      by (simp add: huffman_encode_def Let_def pad_bits)
    with bits False show ?thesis by (intro exI [of _ "8 - n"]) simp
  qed
qed

lemma length_code_of: "length (code_of b) = snd (HUFFMAN_TABLE ! unat b)"
  by (simp add: code_of_def split: prod.splits)

lemma huffman_encoded_len_eq: "huffman_encoded_len s = length (huffman_encode s)"
proof -
  have sum: "foldl (\<lambda>bits b. bits + snd (HUFFMAN_TABLE ! unat b)) a s = a + length (concat (map code_of s))" for a
    by (induction s arbitrary: a) (simp_all add: length_code_of)
  obtain k where "k < 8" "8 * length (huffman_encode s) = length (concat (map code_of s)) + k"
    using huffman_encode_bits [of s] by (metis length_append length_bytes_bits length_replicate)
  then show ?thesis by (simp add: huffman_encoded_len_def sum)
qed

section \<open>The decode tree is the trie of the code\<close>

definition child :: "huff_tree \<Rightarrow> nat \<Rightarrow> bool \<Rightarrow> nat" where
  "child t i b = (if b then hn_right (t ! i) else hn_left (t ! i))"

fun follow_from :: "huff_tree \<Rightarrow> nat \<Rightarrow> bool list \<Rightarrow> nat option" where
  "follow_from t i [] = Some i"
| "follow_from t i (b # bs) = (if child t i b = 0 then None else follow_from t (child t i b) bs)"

abbreviation follow :: "huff_tree \<Rightarrow> bool list \<Rightarrow> nat option" where
  "follow t \<equiv> follow_from t 0"

definition wf_tree :: "huff_tree \<Rightarrow> bool" where
  "wf_tree t \<longleftrightarrow> t \<noteq> [] \<and>
     (\<forall>i < length t. \<forall>b. child t i b \<noteq> 0 \<longrightarrow> i < child t i b \<and> child t i b < length t) \<and>
     (\<forall>i < length t. \<forall>j < length t. \<forall>b c. child t i b \<noteq> 0 \<and> child t i b = child t j c \<longrightarrow> i = j \<and> b = c)"

definition pad_ok :: "huff_tree \<Rightarrow> bool" where
  "pad_ok t \<longleftrightarrow> (\<forall>p i. follow t p = Some i \<longrightarrow>
     hn_prefix_of_eos (t ! i) = list_all id p \<and>
     hn_all_ones_depth (t ! i) = length (takeWhile id (rev p)))"

definition sym_at :: "huff_tree \<Rightarrow> bool list \<Rightarrow> nat option option" where
  "sym_at t p = map_option (\<lambda>i. hn_symbol (t ! i)) (follow t p)"

lemma wf_treeD:
  assumes "wf_tree t"
  shows "t \<noteq> []" "i < length t \<Longrightarrow> child t i b \<noteq> 0 \<Longrightarrow> i < child t i b \<and> child t i b < length t"
    "i < length t \<Longrightarrow> j < length t \<Longrightarrow> child t i b \<noteq> 0 \<Longrightarrow> child t i b = child t j c \<Longrightarrow> i = j \<and> b = c"
  using assms unfolding wf_tree_def by blast+

lemma follow_snoc:
  "follow_from t i (p @ [b]) =
     (case follow_from t i p of None \<Rightarrow> None | Some j \<Rightarrow> if child t j b = 0 then None else Some (child t j b))"
  by (induction p arbitrary: i) auto

lemma follow_snoc_SomeE:
  assumes "follow t (p @ [b]) = Some i"
  obtains j where "follow t p = Some j" "child t j b = i" "i \<noteq> 0"
  using assms by (auto simp: follow_snoc split: option.splits if_splits)

lemma follow_less:
  assumes "wf_tree t"
  shows "follow t p = Some i \<Longrightarrow> i < length t"
proof (induction p arbitrary: i rule: rev_induct)
  case Nil
  then show ?case using wf_treeD(1) [OF assms] by simp
next
  case (snoc b p)
  then show ?case by (metis follow_snoc_SomeE wf_treeD(2) [OF assms])
qed

lemma follow_inj:
  assumes "wf_tree t"
  shows "follow t p = Some i \<Longrightarrow> follow t q = Some i \<Longrightarrow> p = q"
proof (induction p arbitrary: i q rule: rev_induct)
  case Nil
  show ?case
  proof (cases q rule: rev_cases)
    case (snoc q' b)
    with Nil show ?thesis by (metis follow_from.simps(1) follow_snoc_SomeE option.inject)
  qed simp
next
  case (snoc b p)
  from snoc.prems(1) obtain j where j: "follow t p = Some j" "child t j b = i" "i \<noteq> 0"
    by (rule follow_snoc_SomeE)
  show ?case
  proof (cases q rule: rev_cases)
    case Nil
    with snoc.prems(2) j(3) show ?thesis by simp
  next
    case (snoc q' c)
    with snoc.prems(2) obtain k where k: "follow t q' = Some k" "child t k c = i"
      by (metis follow_snoc_SomeE)
    with j have "j = k \<and> b = c"
      using wf_treeD(3) [OF assms, of j k b c] follow_less [OF assms] by metis
    with snoc.IH [OF j(1), of q'] k(1) have "p = q'" "b = c" by simp_all
    with snoc show ?thesis by simp
  qed
qed

subsection \<open>Adding one node\<close>

definition new_node :: "huff_tree \<Rightarrow> nat \<Rightarrow> bool \<Rightarrow> huff_node" where
  "new_node t i b = \<lparr>hn_left = 0, hn_right = 0, hn_symbol = None,
     hn_all_ones_depth = (if b then hn_all_ones_depth (t ! i) + 1 else 0),
     hn_prefix_of_eos = (b \<and> hn_prefix_of_eos (t ! i))\<rparr>"

definition set_child :: "bool \<Rightarrow> nat \<Rightarrow> huff_node \<Rightarrow> huff_node" where
  "set_child b j nd = (if b then nd\<lparr>hn_right := j\<rparr> else nd\<lparr>hn_left := j\<rparr>)"

definition add_node :: "huff_tree \<Rightarrow> nat \<Rightarrow> bool \<Rightarrow> huff_tree" where
  "add_node t i b = (t @ [new_node t i b])[i := set_child b (length t) (t ! i)]"

lemma insert_step_eq:
  assumes "i < length t"
  shows "insert_step t i b = (if child t i b \<noteq> 0 then (t, child t i b) else (add_node t i b, length t))"
  using assms by (cases b) (simp_all add: insert_step_def child_def add_node_def new_node_def set_child_def Let_def nth_append)

lemma length_add_node [simp]: "length (add_node t i b) = Suc (length t)"
  by (simp add: add_node_def)

lemma set_child_simps [simp]:
  "hn_symbol (set_child b j nd) = hn_symbol nd"
  "hn_all_ones_depth (set_child b j nd) = hn_all_ones_depth nd"
  "hn_prefix_of_eos (set_child b j nd) = hn_prefix_of_eos nd"
  by (simp_all add: set_child_def)

lemma nth_add_node:
  assumes "i < length t" "j \<le> length t"
  shows "add_node t i b ! j = (if j = length t then new_node t i b
     else if j = i then set_child b (length t) (t ! i) else t ! j)"
  using assms by (auto simp: add_node_def nth_append nth_list_update)

lemma child_add_node:
  assumes "i < length t" "j \<le> length t"
  shows "child (add_node t i b) j c =
    (if j = length t then 0 else if j = i \<and> c = b then length t else child t j c)"
  using assms by (auto simp: child_def nth_add_node new_node_def set_child_def)

lemma wf_add_node:
  assumes wf: "wf_tree t" and i: "i < length t" and none: "child t i b = 0"
  shows "wf_tree (add_node t i b)"
proof -
  have lt: "child t j c < length t" if "j < length t" for j c
    using wf_treeD(1) [OF wf] wf_treeD(2) [OF wf that, of c] by (cases "child t j c = 0") auto
  show ?thesis
    unfolding wf_tree_def
  proof (intro conjI allI impI; (elim conjE)?)
    show "add_node t i b \<noteq> []" by (simp add: add_node_def)
  next
    fix j c assume "j < length (add_node t i b)" and nz: "child (add_node t i b) j c \<noteq> 0"
    then have j: "j \<le> length t" by simp
    with nz show "j < child (add_node t i b) j c" "child (add_node t i b) j c < length (add_node t i b)"
      using wf_treeD(2) [OF wf, of j c] i by (auto simp: child_add_node [OF i j] split: if_splits)
  next
    fix j k c d
    assume "j < length (add_node t i b)" "k < length (add_node t i b)"
      and nz: "child (add_node t i b) j c \<noteq> 0" and eq: "child (add_node t i b) j c = child (add_node t i b) k d"
    then have jk: "j \<le> length t" "k \<le> length t" by simp_all
    from nz eq have "child (add_node t i b) k d \<noteq> 0" by simp
    with jk nz eq lt [of j c] lt [of k d] wf_treeD(3) [OF wf, of j k c d]
    show "j = k" "c = d"
      by (auto simp: child_add_node [OF i jk(1)] child_add_node [OF i jk(2)] split: if_splits)
  qed
qed

lemma follow_add_node:
  assumes wf: "wf_tree t" and q: "follow t q = Some i" and none: "child t i b = 0"
  shows "follow (add_node t i b) p = (if p = q @ [b] then Some (length t) else follow t p)"
proof (induction p rule: rev_induct)
  case Nil
  then show ?case by simp
next
  case (snoc c p)
  have i: "i < length t" using follow_less [OF wf q] .
  show ?case
  proof (cases "p = q @ [b]")
    case True
    then have "follow (add_node t i b) p = Some (length t)" "follow t p = None"
      using snoc q none by (simp_all add: follow_snoc)
    then have "follow (add_node t i b) (p @ [c]) = None" "follow t (p @ [c]) = None"
      using i by (simp_all only: follow_snoc) (simp_all add: child_add_node)
    then show ?thesis using True by simp
  next
    case False
    show ?thesis
    proof (cases "follow t p")
      case None
      with False snoc q show ?thesis by (auto simp: follow_snoc)
    next
      case (Some j)
      then have j: "j < length t" using follow_less [OF wf] by blast
      have "j = i \<longleftrightarrow> p = q" using follow_inj [OF wf] Some q by auto
      with False snoc Some q i j none show ?thesis
        by (auto simp: follow_snoc child_add_node split: if_splits)
    qed
  qed
qed

lemma sym_at_add_node:
  assumes wf: "wf_tree t" and q: "follow t q = Some i" and none: "child t i b = 0"
  shows "sym_at (add_node t i b) p = (if p = q @ [b] then Some None else sym_at t p)"
proof -
  have i: "i < length t" using follow_less [OF wf q] .
  show ?thesis
  proof (cases "p = q @ [b]")
    case True
    with i show ?thesis by (simp add: sym_at_def follow_add_node [OF assms] nth_add_node new_node_def)
  next
    case False
    with i show ?thesis
      by (cases "follow t p")
        (auto simp: sym_at_def follow_add_node [OF assms] nth_add_node dest: follow_less [OF wf])
  qed
qed

lemma pad_ok_add_node:
  assumes wf: "wf_tree t" and q: "follow t q = Some i" and none: "child t i b = 0" and pad: "pad_ok t"
  shows "pad_ok (add_node t i b)"
  unfolding pad_ok_def
proof (intro allI impI)
  fix p j assume f: "follow (add_node t i b) p = Some j"
  have i: "i < length t" using follow_less [OF wf q] .
  show "hn_prefix_of_eos (add_node t i b ! j) = list_all id p \<and>
        hn_all_ones_depth (add_node t i b ! j) = length (takeWhile id (rev p))"
  proof (cases "p = q @ [b]")
    case True
    with f have "j = length t" by (simp add: follow_add_node [OF wf q none])
    with True i q pad show ?thesis by (auto simp: nth_add_node new_node_def pad_ok_def)
  next
    case False
    with f have "follow t p = Some j" by (simp add: follow_add_node [OF wf q none])
    with pad follow_less [OF wf this] i show ?thesis by (auto simp: nth_add_node pad_ok_def)
  qed
qed

subsection \<open>Inserting a code word\<close>

fun insert_bits :: "huff_tree \<Rightarrow> nat \<Rightarrow> bool list \<Rightarrow> huff_tree \<times> nat" where
  "insert_bits t i [] = (t, i)"
| "insert_bits t i (b # bs) = (let (t', j) = insert_step t i b in insert_bits t' j bs)"

definition insert_code :: "huff_tree \<Rightarrow> bool list \<Rightarrow> nat \<Rightarrow> huff_tree" where
  "insert_code t bs s =
     (let (t', i) = insert_bits t 0 bs in t'[i := (t' ! i)\<lparr>hn_symbol := Some s\<rparr>])"

lemma insert_walk_bits: "insert_walk t i code n = insert_bits t i (bits_be n code)"
  by (induction n arbitrary: t i) (auto simp: bits_be_Suc Let_def split: prod.splits)

lemma insert_symbol_code: "insert_symbol t code n s = insert_code t (bits_be n code) s"
  by (simp add: insert_symbol_def insert_code_def insert_walk_bits)

lemma insert_bits_props:
  assumes "wf_tree t" "pad_ok t" "follow t q = Some i" "insert_bits t i bs = (t', i')"
  shows "wf_tree t' \<and> pad_ok t' \<and> follow t' (q @ bs) = Some i' \<and>
    (\<forall>p. sym_at t' p = (if \<exists>r. p = q @ r \<and> prefix r bs
       then (case sym_at t p of None \<Rightarrow> Some None | Some x \<Rightarrow> Some x) else sym_at t p))"
  using assms
proof (induction bs arbitrary: t q i)
  case Nil
  then have "sym_at t q \<noteq> None" by (simp add: sym_at_def)
  with Nil show ?case by (auto split: option.splits)
next
  case (Cons b bs)
  have i: "i < length t" using follow_less [OF Cons.prems(1,3)] .
  have split: "(\<exists>r. p = q @ r \<and> prefix r (b # bs)) \<longleftrightarrow>
      p = q \<or> (\<exists>r. p = (q @ [b]) @ r \<and> prefix r bs)" for p
    by (auto simp: prefix_Cons)
  have self: "sym_at t q \<noteq> None" using Cons.prems(3) by (simp add: sym_at_def)
  show ?case
  proof (cases "child t i b = 0")
    case False
    then have "follow t (q @ [b]) = Some (child t i b)" using Cons.prems(3) by (simp add: follow_snoc)
    moreover from False Cons.prems(4) i have "insert_bits t (child t i b) bs = (t', i')"
      by (simp add: insert_step_eq)
    ultimately show ?thesis
      using Cons.IH [OF Cons.prems(1,2), of "q @ [b]"] self split by (auto split: option.splits)
  next
    case True
    let ?t = "add_node t i b"
    note ext = Cons.prems(1,3) True
    have "insert_bits ?t (length t) bs = (t', i')"
      using True Cons.prems(4) i by (simp add: insert_step_eq)
    moreover have "follow ?t (q @ [b]) = Some (length t)" by (simp add: follow_add_node [OF ext])
    moreover have "wf_tree ?t" by (rule wf_add_node [OF Cons.prems(1) i True])
    moreover have "pad_ok ?t" by (rule pad_ok_add_node [OF ext Cons.prems(2)])
    ultimately have IH: "wf_tree t' \<and> pad_ok t' \<and> follow t' ((q @ [b]) @ bs) = Some i' \<and>
      (\<forall>p. sym_at t' p = (if \<exists>r. p = (q @ [b]) @ r \<and> prefix r bs
         then (case sym_at ?t p of None \<Rightarrow> Some None | Some x \<Rightarrow> Some x) else sym_at ?t p))"
      by (intro Cons.IH) simp_all
    have "sym_at t (q @ [b]) = None" using Cons.prems(3) True by (simp add: sym_at_def follow_snoc)
    with IH self show ?thesis
      by (auto simp: split sym_at_add_node [OF ext] split: option.splits)
  qed
qed

lemma child_set_symbol [simp]: "child (t[i := (t ! i)\<lparr>hn_symbol := s\<rparr>]) j b = child t j b"
  by (cases "i < length t"; cases "i = j") (simp_all add: child_def list_update_beyond)

lemma follow_set_symbol [simp]: "follow_from (t[i := (t ! i)\<lparr>hn_symbol := s\<rparr>]) j p = follow_from t j p"
  by (induction p arbitrary: j) auto

text \<open>Lookup after insertion, the law of a trie.\<close>

lemma insert_code_props:
  assumes "wf_tree t" "pad_ok t"
  shows "wf_tree (insert_code t bs s)" "pad_ok (insert_code t bs s)"
    "sym_at (insert_code t bs s) p = (if p = bs then Some (Some s) else if prefix p bs
       then (case sym_at t p of None \<Rightarrow> Some None | Some x \<Rightarrow> Some x) else sym_at t p)"
proof -
  obtain t' i where ib: "insert_bits t 0 bs = (t', i)" by fastforce
  from insert_bits_props [OF assms, of "[]" 0] ib
  have t': "wf_tree t'" "pad_ok t'" "follow t' bs = Some i"
    and sym: "\<And>p. sym_at t' p = (if prefix p bs
       then (case sym_at t p of None \<Rightarrow> Some None | Some x \<Rightarrow> Some x) else sym_at t p)"
    by auto
  have i: "i < length t'" using follow_less [OF t'(1,3)] .
  have eq: "insert_code t bs s = t'[i := (t' ! i)\<lparr>hn_symbol := Some s\<rparr>]"
    by (simp add: insert_code_def ib)
  show "wf_tree (insert_code t bs s)" using t'(1) by (simp add: eq wf_tree_def)
  show "pad_ok (insert_code t bs s)"
    using t'(2) i unfolding eq pad_ok_def by (auto simp: nth_list_update)
  have "sym_at (insert_code t bs s) p = (if p = bs then Some (Some s) else sym_at t' p)"
    using t'(3) i follow_inj [OF t'(1,3), of p]
    by (cases "follow t' p") (auto simp: eq sym_at_def nth_list_update)
  with sym show "sym_at (insert_code t bs s) p = (if p = bs then Some (Some s) else if prefix p bs
       then (case sym_at t p of None \<Rightarrow> Some None | Some x \<Rightarrow> Some x) else sym_at t p)" by simp
qed

definition build_tree :: "(bool list \<times> nat) list \<Rightarrow> huff_tree" where
  "build_tree codes = foldl (\<lambda>t (bs, s). insert_code t bs s) [huff_root] codes"

lemma build_tree_snoc: "build_tree (codes @ [(bs, s)]) = insert_code (build_tree codes) bs s"
  by (simp add: build_tree_def)

lemma root_child [simp]: "child [huff_root] 0 b = 0"
  by (simp add: child_def huff_root_def)

lemma follow_root: "follow [huff_root] p = Some i \<longleftrightarrow> p = [] \<and> i = 0"
  by (cases p) auto

lemma build_tree_wf: "wf_tree (build_tree codes) \<and> pad_ok (build_tree codes)"
proof (induction codes rule: rev_induct)
  case Nil
  have "wf_tree [huff_root]" by (simp add: wf_tree_def)
  moreover have "pad_ok [huff_root]"
    unfolding pad_ok_def follow_root by (simp add: huff_root_def)
  ultimately show ?case by (simp add: build_tree_def)
next
  case (snoc c codes)
  then show ?case by (cases c) (simp add: build_tree_snoc insert_code_props)
qed

lemma sym_at_build_tree:
  assumes "distinct (map fst codes)"
    and "\<And>a c. a \<in> fst ` set codes \<Longrightarrow> c \<in> fst ` set codes \<Longrightarrow> prefix a c \<Longrightarrow> a = c"
  shows "sym_at (build_tree codes) p =
    (case map_of codes p of Some s \<Rightarrow> Some (Some s)
     | None \<Rightarrow> if p = [] \<or> (\<exists>c \<in> fst ` set codes. strict_prefix p c) then Some None else None)"
  using assms
proof (induction codes rule: rev_induct)
  case Nil
  have "sym_at [huff_root] p = (if p = [] then Some None else None)"
    by (cases p) (simp_all add: sym_at_def, simp add: huff_root_def)
  then show ?case by (simp add: build_tree_def)
next
  case (snoc x codes)
  obtain bs s where x: "x = (bs, s)" by fastforce
  have IH: "sym_at (build_tree codes) p =
    (case map_of codes p of Some s \<Rightarrow> Some (Some s)
     | None \<Rightarrow> if p = [] \<or> (\<exists>c \<in> fst ` set codes. strict_prefix p c) then Some None else None)"
  proof (rule snoc.IH)
    show "distinct (map fst codes)" using snoc.prems(1) by simp
    show "a = c" if "a \<in> fst ` set codes" "c \<in> fst ` set codes" "prefix a c" for a c
      using snoc.prems(2) [of a c] that by simp
  qed
  have ins: "sym_at (build_tree (codes @ [x])) p = (if p = bs then Some (Some s) else if prefix p bs
       then (case sym_at (build_tree codes) p of None \<Rightarrow> Some None | Some x \<Rightarrow> Some x)
       else sym_at (build_tree codes) p)"
    unfolding x build_tree_snoc by (rule insert_code_props(3)) (simp_all add: build_tree_wf)
  consider "p = bs" | "strict_prefix p bs" | "p \<noteq> bs" "\<not> prefix p bs"
    by (auto simp: strict_prefix_def)
  then show ?case
  proof cases
    case 1
    have "map_of codes bs = None" using snoc.prems(1) x by (simp add: map_of_eq_None_iff)
    then have "map_of (codes @ [x]) p = Some s" using 1 x by (simp add: map_add_def)
    then show ?thesis using 1 ins by simp
  next
    case 2
    then have none: "map_of codes p = None"
      using snoc.prems(2) [of p bs] x by (force simp: map_of_eq_None_iff strict_prefix_def)
    from 2 have ne: "p \<noteq> bs" "prefix p bs" by (simp_all add: strict_prefix_def)
    with none have "map_of (codes @ [x]) p = None" using x by (simp add: map_add_def)
    moreover have "\<exists>c \<in> fst ` set (codes @ [x]). strict_prefix p c" using 2 x by auto
    moreover have "sym_at (build_tree (codes @ [x])) p = Some None"
      unfolding ins IH using none ne by simp
    ultimately show ?thesis by (simp del: map_of_append)
  next
    case 3
    then have "map_of (codes @ [x]) p = map_of codes p" using x by (simp add: map_add_def split: option.splits)
    moreover have "(\<exists>c \<in> fst ` set (codes @ [x]). strict_prefix p c) \<longleftrightarrow>
        (\<exists>c \<in> fst ` set codes. strict_prefix p c)" using 3 x by (auto simp: strict_prefix_def)
    ultimately show ?thesis using 3 ins IH by (auto simp del: map_of_append split: option.splits)
  qed
qed

section \<open>The decoder reads bits\<close>

fun dec_bits :: "huff_tree \<Rightarrow> nat \<Rightarrow> bool list \<Rightarrow> bytes \<Rightarrow> huffman_error + nat \<times> bytes" where
  "dec_bits t i [] out = Inr (i, out)"
| "dec_bits t i (b # bs) out =
     (case hn_symbol (t ! child t i b) of
        Some s \<Rightarrow> if s = 256 then Inl EosInStream else dec_bits t 0 bs (out @ [of_nat s])
      | None \<Rightarrow> dec_bits t (child t i b) bs out)"

lemma decode_loop_bits:
  "k < 8 \<Longrightarrow> decode_loop t input pos k i out = dec_bits t i (drop (8 * pos + k) (bytes_bits input)) out"
proof (induction t input pos k i out rule: decode_loop.induct)
  case (1 t input pos k i out)
  show ?case
  proof (cases "pos < length input")
    case False
    then show ?thesis by (simp add: decode_loop.simps [of t input pos])
  next
    case True
    define nx where "nx = (if k + 1 = 8 then (pos + 1, 0) else (pos, k + 1))"
    have nx: "8 * fst nx + snd nx = Suc (8 * pos + k)" "snd nx < 8" using 1(3) by (auto simp: nx_def)
    let ?j = "child t i (bit (input ! pos) (7 - k))"
    have j: "?j = (if \<not> bit (input ! pos) (7 - k) then hn_left (t ! i) else hn_right (t ! i))"
      by (simp add: child_def)
    have drop: "drop (8 * pos + k) (bytes_bits input) =
        bit (input ! pos) (7 - k) # drop (8 * fst nx + snd nx) (bytes_bits input)"
      using True 1(3) nx(1) nth_bytes_bits [OF True 1(3)]
      by (subst Cons_nth_drop_Suc [symmetric]) simp_all
    have step: "decode_loop t input pos k i out = (case hn_symbol (t ! ?j) of
         Some s \<Rightarrow> if s = 256 then Inl EosInStream
           else decode_loop t input (fst nx) (snd nx) 0 (out @ [of_nat s])
       | None \<Rightarrow> decode_loop t input (fst nx) (snd nx) ?j out)"
      unfolding decode_loop.simps [of t input pos k] j [symmetric] nx_def [symmetric] Let_def
      using True 1(3) by (simp add: split_beta)
    show ?thesis
    proof (cases "hn_symbol (t ! ?j)")
      case None
      from 1(1) [OF _ refl j nx_def prod.collapse None] True 1(3) nx(2) None
      show ?thesis unfolding step drop by simp
    next
      case (Some s)
      from 1(2) [OF _ refl j nx_def prod.collapse Some] True 1(3) nx(2) Some
      show ?thesis unfolding step drop by simp
    qed
  qed
qed

section \<open>Decoding any full prefix code\<close>

text \<open>
  What the decoder needs of its code table: the code words are the leaves of a full binary tree
  and the root is not a leaf. Everything about the decoding of the built tree follows from this.
\<close>

locale full_prefix_code =
  fixes n :: nat and codes :: "(bool list \<times> nat) list"
  assumes full: "full_code n (map fst codes)"
    and proper: "[] \<notin> fst ` set codes"
begin

lemma prefix_free: "(a, s) \<in> set codes \<Longrightarrow> (c, s') \<in> set codes \<Longrightarrow> prefix a c \<Longrightarrow> a = c"
  using full_code_prefix_free [OF full, of a c] by force

lemma sym_tree:
  "sym_at (build_tree codes) p =
    (case map_of codes p of Some s \<Rightarrow> Some (Some s)
     | None \<Rightarrow> if p = [] \<or> (\<exists>c \<in> fst ` set codes. strict_prefix p c) then Some None else None)"
  using full_code_distinct [OF full] full_code_prefix_free [OF full]
  by (intro sym_at_build_tree) simp_all

lemma sym_code: "(c, s) \<in> set codes \<Longrightarrow> sym_at (build_tree codes) c = Some (Some s)"
  using full_code_distinct [OF full] by (simp add: sym_tree)

lemma sym_inner:
  assumes "(c, s) \<in> set codes" "strict_prefix p c"
  shows "sym_at (build_tree codes) p = Some None"
proof -
  have "map_of codes p = None"
    using assms full_code_prefix_free [OF full, of p c] by (force simp: map_of_eq_None_iff strict_prefix_def)
  then show ?thesis using assms by (force simp: sym_tree)
qed

lemma symE:
  assumes "sym_at (build_tree codes) p = Some x"
  obtains i where "follow (build_tree codes) p = Some i" "hn_symbol (build_tree codes ! i) = x"
  using assms by (auto simp: sym_at_def)

lemma child_follow:
  assumes "follow t p = Some i" "follow t (p @ [b]) = Some j"
  shows "child t i b = j"
  using assms by (auto simp: follow_snoc split: if_splits)

text \<open>A run of bits strictly inside a code word only moves the node.\<close>

lemma dec_inner:
  assumes "(c, s) \<in> set codes"
  shows "follow (build_tree codes) p = Some i \<Longrightarrow> strict_prefix (p @ bs) c \<Longrightarrow>
    \<exists>j. follow (build_tree codes) (p @ bs) = Some j \<and>
        dec_bits (build_tree codes) i (bs @ r) out = dec_bits (build_tree codes) j r out"
proof (induction bs arbitrary: p i)
  case (Cons b bs)
  from Cons.prems(2) have "strict_prefix (p @ [b]) c"
    by (metis append.assoc append_Cons append_Nil prefix_order.le_less_trans prefixI)
  from symE [OF sym_inner [OF assms this]] obtain j where
    j: "follow (build_tree codes) (p @ [b]) = Some j" "hn_symbol (build_tree codes ! j) = None" by metis
  from Cons.IH [OF j(1)] Cons.prems(2) child_follow [OF Cons.prems(1) j(1)] j(2)
  show ?case by simp
qed simp

lemma dec_code:
  assumes "(c, s) \<in> set codes"
  shows "dec_bits (build_tree codes) 0 (c @ bs) out =
    (if s = 256 then Inl EosInStream else dec_bits (build_tree codes) 0 bs (out @ [of_nat s]))"
proof -
  have "c \<noteq> []" using assms proper by force
  then obtain p b where c: "c = p @ [b]" by (metis rev_exhaust)
  then have "strict_prefix ([] @ p) c" by (simp add: strict_prefix_def)
  from dec_inner [OF assms _ this, of 0 "b # bs" out] c obtain i where
    i: "follow (build_tree codes) p = Some i"
       "dec_bits (build_tree codes) 0 (c @ bs) out = dec_bits (build_tree codes) i (b # bs) out"
    by auto
  from symE [OF sym_code [OF assms]] obtain j where
    j: "follow (build_tree codes) c = Some j" "hn_symbol (build_tree codes ! j) = Some s" by metis
  from child_follow [OF i(1)] j(1) c have "child (build_tree codes) i b = j" by simp
  with i(2) j(2) show ?thesis by simp
qed

text \<open>Completeness: a bit string starts with a code word or lies strictly inside one.\<close>

lemma parse:
  "(\<exists>c s r. (c, s) \<in> set codes \<and> bits = c @ r) \<or> (\<exists>c s. (c, s) \<in> set codes \<and> strict_prefix bits c)"
proof (induction bits rule: rev_induct)
  case Nil
  obtain c s where "(c, s) \<in> set codes"
    using full_code_nonempty [OF full] by (metis list.map_disc_iff list.set_intros(1) neq_Nil_conv surj_pair)
  moreover from this proper have "c \<noteq> []" by force
  ultimately show ?case by (metis strict_prefix_simps(2) neq_Nil_conv)
next
  case (snoc b bits)
  from snoc.IH show ?case
  proof
    assume "\<exists>c s r. (c, s) \<in> set codes \<and> bits = c @ r"
    then show ?thesis by auto
  next
    assume "\<exists>c s. (c, s) \<in> set codes \<and> strict_prefix bits c"
    then obtain c s where "(c, s) \<in> set codes" "strict_prefix bits c" by blast
    with full_code_complete [OF full, of c bits b] obtain c' s' where
      "(c', s') \<in> set codes" "prefix (bits @ [b]) c'" by force
    then show ?thesis by (metis prefix_order.le_less append.right_neutral)
  qed
qed

lemma dec_words:
  "set ws \<subseteq> set codes \<Longrightarrow> 256 \<notin> snd ` set ws \<Longrightarrow>
   dec_bits (build_tree codes) 0 (concat (map fst ws) @ bs) out =
   dec_bits (build_tree codes) 0 bs (out @ map (of_nat \<circ> snd) ws)"
proof (induction ws arbitrary: out)
  case (Cons w ws)
  obtain c s where w: "w = (c, s)" by fastforce
  with Cons.prems have "(c, s) \<in> set codes" "s \<noteq> 256" by auto
  with Cons w show ?case by (simp add: dec_code)
qed simp

lemma dec_sound:
  "dec_bits (build_tree codes) 0 bits out = Inr (i, out') \<Longrightarrow>
   \<exists>ws p. set ws \<subseteq> set codes \<and> 256 \<notin> snd ` set ws \<and> bits = concat (map fst ws) @ p \<and>
     out' = out @ map (of_nat \<circ> snd) ws \<and> follow (build_tree codes) p = Some i"
proof (induction bits arbitrary: out rule: length_induct)
  case (1 bits)
  from parse [of bits] show ?case
  proof
    assume "\<exists>c s r. (c, s) \<in> set codes \<and> bits = c @ r"
    then obtain c s r where c: "(c, s) \<in> set codes" "bits = c @ r" by blast
    with 1(2) have s: "s \<noteq> 256"
      and r: "dec_bits (build_tree codes) 0 r (out @ [of_nat s]) = Inr (i, out')"
      by (auto simp: dec_code split: if_splits)
    have "c \<noteq> []" using c(1) proper by force
    with 1(1) c r obtain ws p where ws: "set ws \<subseteq> set codes" "256 \<notin> snd ` set ws"
      "r = concat (map fst ws) @ p" "out' = out @ [of_nat s] @ map (of_nat \<circ> snd) ws"
      "follow (build_tree codes) p = Some i" by (metis append.assoc length_append length_greater_0_conv less_add_same_cancel2)
    with c s show ?thesis by (intro exI [of _ "(c, s) # ws"] exI [of _ p]) auto
  next
    assume "\<exists>c s. (c, s) \<in> set codes \<and> strict_prefix bits c"
    then obtain c s where "(c, s) \<in> set codes" "strict_prefix bits c" by blast
    from dec_inner [OF this(1), of "[]" 0 bits "[]" out] this(2) 1(2)
    show ?thesis by (intro exI [of _ "[]"] exI [of _ bits]) auto
  qed
qed

end

section \<open>The HPACK code\<close>

definition huffman_entries :: "(u32 \<times> nat) list" where
  "huffman_entries = HUFFMAN_TABLE @ [(0x3fffffff, 30)]"

definition huffman_codes :: "(bool list \<times> nat) list" where
  "huffman_codes = zip (map (\<lambda>(c, l). bits_be l c) huffman_entries) [0..<257]"

text \<open>The table with its codes left-aligned to 30 bits, as numbers.\<close>

definition aligned_table :: "(int \<times> int) list" where
  "aligned_table = map (\<lambda>(c, l). (uint c * 2 ^ (30 - l), int l)) huffman_entries"

lemma aligned_table_full: "full_num (replicate 30 True) (2 ^ 29) aligned_table"
  by code_simp

lemma length_HUFFMAN_TABLE: "length HUFFMAN_TABLE = 256"
  by (simp add: HUFFMAN_TABLE_def)

lemma length_huffman_entries: "length huffman_entries = 257"
  by (simp add: huffman_entries_def length_HUFFMAN_TABLE)

lemma table_ranges: "list_all (\<lambda>(c, l). l \<le> 30 \<and> 0 < l \<and> uint c < 2 ^ l) huffman_entries"
  by code_simp

lemma top_bits_aligned:
  fixes c :: u32
  assumes "l \<le> 30" "uint c < 2 ^ l"
  shows "top_bits 30 (uint c * 2 ^ (30 - l), int l) = bits_be l c"
proof (rule nth_equalityI)
  fix i assume "i < length (top_bits 30 (uint c * 2 ^ (30 - l), int l))"
  then have i: "i < l" using assms by (simp add: top_bits_def)
  have "bit (uint c * 2 ^ (30 - l)) (29 - i) \<longleftrightarrow> bit (push_bit (30 - l) (uint c)) (29 - i)"
    by (simp add: push_bit_eq_mult)
  also have "\<dots> \<longleftrightarrow> bit (uint c) (l - 1 - i)"
    using i assms by (auto simp: bit_push_bit_iff)
  also have "\<dots> \<longleftrightarrow> bit c (l - 1 - i)" using i assms by (auto simp: bit_uint_iff)
  finally show "top_bits 30 (uint c * 2 ^ (30 - l), int l) ! i = bits_be l c ! i"
    using i assms by (simp add: top_bits_def nth_bits_be)
qed (use assms in \<open>simp add: top_bits_def\<close>)

lemma fst_huffman_codes: "map fst huffman_codes = map (\<lambda>(c, l). bits_be l c) huffman_entries"
  by (simp add: huffman_codes_def length_huffman_entries del: upt_conv_Cons upt_rec)

lemma huffman_full_code: "full_code 30 (map fst huffman_codes)"
proof -
  have rng: "l \<le> 30 \<and> 0 < l \<and> uint c < 2 ^ l" if "(c, l) \<in> set huffman_entries" for c l
    using table_ranges that unfolding list_all_iff by fast
  have "full_code (length (replicate 30 True)) (map (top_bits (length (replicate 30 True))) aligned_table)"
  proof (rule full_num_full_code [OF aligned_table_full])
    fix c l assume "(c, l) \<in> set aligned_table"
    then obtain c' l' where m: "(c', l') \<in> set huffman_entries"
      "c = uint c' * 2 ^ (30 - l')" "l = int l'"
      unfolding aligned_table_def by auto
    from rng [OF m(1)] have "uint c' * 2 ^ (30 - l') < 2 ^ l' * 2 ^ (30 - l')" "l' \<le> 30" by simp_all
    moreover from this have "(2::int) ^ l' * 2 ^ (30 - l') = 2 ^ 30" by (simp flip: power_add)
    ultimately show "0 \<le> c \<and> c < 2 ^ length (replicate 30 True) \<and> 0 \<le> l \<and> l \<le> int (length (replicate 30 True))"
      using m by simp
  qed simp
  moreover have "map (top_bits 30) aligned_table = map fst huffman_codes"
    unfolding fst_huffman_codes aligned_table_def map_map
  proof (rule map_cong [OF refl])
    fix x assume "x \<in> set huffman_entries"
    then show "(top_bits 30 \<circ> (\<lambda>(c, l). (uint c * 2 ^ (30 - l), int l))) x = (case x of (c, l) \<Rightarrow> bits_be l c)"
      by (cases "(x :: u32 \<times> nat)" rule: prod.exhaust) (auto dest: rng simp: top_bits_aligned)
  qed
  ultimately show ?thesis by simp
qed

lemma huffman_codes_proper: "[] \<notin> fst ` set huffman_codes"
proof -
  have "[] \<notin> set (map fst huffman_codes)"
    using table_ranges unfolding fst_huffman_codes list_all_iff
    by (metis (no_types, lifting) bits_be_eq_Nil case_prodE imageE less_irrefl set_map case_prod_conv)
  then show ?thesis by simp
qed

interpretation huff: full_prefix_code 30 huffman_codes
  by unfold_locales (rule huffman_full_code huffman_codes_proper)+

lemma huffman_codes_iff:
  "(c, s) \<in> set huffman_codes \<longleftrightarrow> (s < 256 \<and> c = code_of (of_nat s)) \<or> (s = 256 \<and> c = replicate 30 True)"
proof -
  have ones: "bits_be 30 (0x3fffffff :: u32) = replicate 30 True"
    by (simp add: bits_be_def upt_rec numeral_eq_Suc)
  have len: "length huffman_codes = 257" by (simp add: huffman_codes_def length_huffman_entries)
  have low: "huffman_codes ! i = (code_of (of_nat i), i)" if "i < 256" for i
    using that by (simp add: huffman_codes_def length_huffman_entries huffman_entries_def nth_append
      length_HUFFMAN_TABLE code_of_def unat_of_nat split: prod.splits)
  have eos: "huffman_codes ! 256 = (replicate 30 True, 256)"
    by (simp add: huffman_codes_def length_huffman_entries huffman_entries_def nth_append length_HUFFMAN_TABLE ones)
  show ?thesis
  proof
    assume "(c, s) \<in> set huffman_codes"
    then obtain i where i: "i < 257" "huffman_codes ! i = (c, s)"
      using len by (metis in_set_conv_nth)
    show "(s < 256 \<and> c = code_of (of_nat s)) \<or> (s = 256 \<and> c = replicate 30 True)"
    proof (cases "i = 256")
      case True
      with i(2) eos show ?thesis by simp
    next
      case False
      with i(1) have "i < 256" by simp
      with low [OF this] i(2) show ?thesis by simp
    qed
  next
    assume "(s < 256 \<and> c = code_of (of_nat s)) \<or> (s = 256 \<and> c = replicate 30 True)"
    then have "s < length huffman_codes \<and> huffman_codes ! s = (c, s)"
      using low [of s] eos len by auto
    then show "(c, s) \<in> set huffman_codes" by (metis nth_mem)
  qed
qed

lemma insert_entries:
  "foldl (\<lambda>tree (symb, code, code_len). insert_symbol tree code code_len symb) t (zip ns tab)
   = foldl (\<lambda>t (bs, s). insert_code t bs s) t (zip (map (\<lambda>(c, l). bits_be l c) tab) ns)"
proof (induction tab arbitrary: t ns)
  case (Cons x tab)
  then show ?case by (cases ns; cases x) (simp_all add: insert_symbol_code)
qed simp

lemma huffman_tree_eq: "huffman_tree = build_tree huffman_codes"
proof -
  have "[0..<257] = [0..<256] @ [256 :: nat]" by (simp add: upt_Suc_append [of 0 256, simplified])
  then have eq: "huffman_codes = zip (map (\<lambda>(c, l). bits_be l c) HUFFMAN_TABLE) [0..<256] @
      [(bits_be 30 (0x3fffffff :: u32), 256)]"
    by (simp add: huffman_codes_def huffman_entries_def length_HUFFMAN_TABLE del: upt_rec_numeral)
  show ?thesis
    unfolding huffman_tree_def build_tree_def insert_entries eq
    by (simp add: insert_symbol_code del: upt_rec_numeral)
qed

section \<open>Decoding inverts encoding\<close>

lemma dec_replicate_True:
  assumes "k < 30"
  shows "\<exists>i. follow huffman_tree (replicate k True) = Some i \<and>
    dec_bits huffman_tree 0 (replicate k True) out = Inr (i, out)"
proof -
  have eos: "(replicate 30 True, 256) \<in> set huffman_codes" by (simp add: huffman_codes_iff)
  have "replicate 30 True = replicate k True @ replicate (30 - k) True"
    using assms by (simp flip: replicate_add)
  then have "strict_prefix ([] @ replicate k True) (replicate 30 True)"
    using assms by (metis append_Nil diff_is_0_eq leD replicate_empty strict_prefixI' append_self_conv prefixI strict_prefixI)
  from huff.dec_inner [OF eos _ this, of 0 "[]" out] show ?thesis by (simp add: huffman_tree_eq)
qed

lemma huffman_words:
  assumes "set ws \<subseteq> set huffman_codes" "256 \<notin> snd ` set ws"
  shows "concat (map fst ws) = concat (map code_of (map (of_nat \<circ> snd) ws))"
proof -
  have "fst w = code_of (of_nat (snd w))" if "w \<in> set ws" for w
    using that assms huffman_codes_iff [of "fst w" "snd w"] by force
  then show ?thesis by (auto intro!: arg_cong [of _ _ concat])
qed

lemma dec_code_of:
  "dec_bits huffman_tree 0 (concat (map code_of s) @ bs) out = dec_bits huffman_tree 0 bs (out @ s)"
proof -
  define ws where "ws = map (\<lambda>b :: u8. (code_of b, unat b)) s"
  have lt: "unat b < 256" "unat b \<noteq> 256" for b :: u8
    using unsigned_less [of b, where 'a = nat] by auto
  have "set ws \<subseteq> set huffman_codes" "256 \<notin> snd ` set ws"
    using lt by (auto simp: ws_def huffman_codes_iff)
  from huff.dec_words [OF this, of bs out] huffman_words [OF this] show ?thesis
    by (simp add: ws_def huffman_tree_eq comp_def)
qed

lemma huffman_decode_bits:
  "huffman_decode input = (case dec_bits huffman_tree 0 (bytes_bits input) [] of
     Inl e \<Rightarrow> Inl e
   | Inr (i, out) \<Rightarrow> if i \<noteq> 0 \<and> (hn_all_ones_depth (huffman_tree ! i) > 7 \<or> \<not> hn_prefix_of_eos (huffman_tree ! i))
       then Inl BadPadding else Inr out)"
  by (simp add: huffman_decode_def decode_loop_bits)

lemma huffman_pad_ok:
  "follow huffman_tree p = Some i \<Longrightarrow> hn_prefix_of_eos (huffman_tree ! i) = list_all id p \<and>
     hn_all_ones_depth (huffman_tree ! i) = length (takeWhile id (rev p))"
  using build_tree_wf [of huffman_codes] by (simp add: huffman_tree_eq pad_ok_def)

lemma takeWhile_replicate_True: "length (takeWhile id (rev (replicate k True))) = k"
  by (induction k) (simp_all add: replicate_append_same [symmetric] del: replicate_Suc)

lemma huffman_decode_encode: "huffman_decode (huffman_encode s) = Inr s"
proof -
  obtain k where k: "k < 8" "bytes_bits (huffman_encode s) = concat (map code_of s) @ replicate k True"
    using huffman_encode_bits by blast
  moreover obtain i where i: "follow huffman_tree (replicate k True) = Some i"
    "dec_bits huffman_tree 0 (replicate k True) s = Inr (i, s)"
    using dec_replicate_True [of k s] k(1) by auto
  moreover have "hn_prefix_of_eos (huffman_tree ! i) \<and> hn_all_ones_depth (huffman_tree ! i) = k"
    using huffman_pad_ok [OF i(1)] by (simp add: list_all_iff del: rev_replicate) (simp add: takeWhile_replicate_True)
  ultimately show ?thesis by (simp add: huffman_decode_bits dec_code_of)
qed

lemma list_all_id: "list_all id p \<longleftrightarrow> p = replicate (length p) True"
  by (induction p) auto

lemma huffman_decode_sound:
  assumes "huffman_decode bs = Inr s"
  shows "bs = huffman_encode s"
proof -
  from assms obtain i where dec: "dec_bits huffman_tree 0 (bytes_bits bs) [] = Inr (i, s)"
    and pad: "i = 0 \<or> (hn_all_ones_depth (huffman_tree ! i) \<le> 7 \<and> hn_prefix_of_eos (huffman_tree ! i))"
    by (auto simp: huffman_decode_bits split: sum.splits if_splits)
  from huff.dec_sound [OF dec [unfolded huffman_tree_eq]] obtain ws p where ws:
    "set ws \<subseteq> set huffman_codes" "256 \<notin> snd ` set ws" "bytes_bits bs = concat (map fst ws) @ p"
    "s = map (of_nat \<circ> snd) ws" "follow huffman_tree p = Some i"
    by (auto simp: huffman_tree_eq)
  have p: "p = replicate (length p) True \<and> length p < 8"
  proof (cases "i = 0")
    case True
    with ws(5) follow_inj [of huffman_tree p 0 "[]"] build_tree_wf [of huffman_codes]
    show ?thesis by (simp add: huffman_tree_eq)
  next
    case False
    with pad huffman_pad_ok [OF ws(5)] have "p = replicate (length p) True"
      "length (takeWhile id (rev p)) \<le> 7" by (simp_all add: list_all_id)
    with takeWhile_replicate_True [of "length p"] show ?thesis by simp
  qed
  obtain k where k: "k < 8" "bytes_bits (huffman_encode s) = concat (map code_of s) @ replicate k True"
    using huffman_encode_bits by blast
  have bits: "bytes_bits bs = concat (map code_of s) @ p"
    using ws(3,4) huffman_words [OF ws(1,2)] by simp
  from arg_cong [OF bits, of length] arg_cong [OF k(2), of length]
  have "8 * length bs + k = 8 * length (huffman_encode s) + length p" by simp
  then have "(8 * length bs + k) mod 8 = (8 * length (huffman_encode s) + length p) mod 8" by simp
  then have "k mod 8 = length p mod 8" by simp
  then have "length p = k" using conjunct2 [OF p] k(1) by simp
  with p have "p = replicate k True" by simp
  with bits k(2) have "bytes_bits bs = bytes_bits (huffman_encode s)" by simp
  then show ?thesis by (simp add: bytes_bits_inject)
qed

lemma huffman_encoded_len_le: "huffman_encoded_len s \<le> 4 * length s"
proof -
  have le: "snd (HUFFMAN_TABLE ! unat b) \<le> 30" for b :: u8
    using HUFFMAN_TABLE_entry [of b] by (cases "HUFFMAN_TABLE ! unat b") simp
  have "foldl (\<lambda>bits b. bits + snd (HUFFMAN_TABLE ! unat b)) a s \<le> a + 30 * length s" for a
  proof (induction s arbitrary: a)
    case (Cons b s)
    from Cons.IH [of "a + snd (HUFFMAN_TABLE ! unat b)"] le [of b] show ?case by simp
  qed simp
  from this [of 0] show ?thesis by (cases s) (auto simp: huffman_encoded_len_def)
qed

section \<open>Properties\<close>

text \<open>
  C34: The decoder accepts exactly the encoder's output and inverts it. A byte string decodes to
  \<open>s\<close> if and only if it is the encoding of \<open>s\<close>; so no other padding, no embedded EOS and no
  truncated code is accepted, and there is one encoding per string.
\<close>

theorem huffman_decode_iff_encode: "huffman_decode bs = Inr s \<longleftrightarrow> bs = huffman_encode s"
  using huffman_decode_encode huffman_decode_sound by blast

text \<open>
  \<open>encoded_len\<close> is the length of the encoding, so the length prefix of an HPACK string is
  the number of bytes that follow it.
\<close>

theorem huffman_encoded_len_exact:
  "huffman_encoded_len s = length (huffman_encode s) \<and> length (huffman_encode s) \<le> 4 * length s"
  using huffman_encoded_len_eq [of s] huffman_encoded_len_le [of s] by simp

end
