(* ===== verification/Wire.thy ===== *)
theory Wire
  imports Blast_Prelude
begin

text \<open>
  The contract of a self-delimiting wire item: reading at the position where an item was written
  gives the item back and the position right after it, whatever surrounds it. HPACK integers and
  string literals and HTTP/2 frames satisfy it; the consequences are proved once here.
\<close>

locale wire_item =
  fixes enc :: "'a \<Rightarrow> bytes"
    and dec :: "bytes \<Rightarrow> nat \<Rightarrow> 'e + 'a \<times> nat"
    and ok :: "'a \<Rightarrow> bool"
  assumes dec_enc:
    "ok x \<Longrightarrow> dec (pre @ enc x @ post) (length pre) = Inr (x, length pre + length (enc x))"
begin

lemma dec_at:
  assumes "ok x" "buf = pre @ enc x @ post" "pos = length pre"
  shows "dec buf pos = Inr (x, length (pre @ enc x))"
  using dec_enc [OF assms(1)] assms(2,3) by simp

text \<open>No encoding is a proper prefix of another one.\<close>

lemma prefix_free:
  assumes "ok x" "ok y" "enc x @ r = enc y @ r'"
  shows "x = y \<and> r = r'"
  using dec_enc [OF assms(1), of "[]" r] dec_enc [OF assms(2), of "[]" r'] assms(3) by auto

lemma sequence_inject:
  "\<lbrakk>list_all ok xs; list_all ok ys; length xs = length ys;
    concat (map enc xs) @ r = concat (map enc ys) @ r'\<rbrakk> \<Longrightarrow> xs = ys \<and> r = r'"
proof (induction xs ys rule: list_induct2')
  case (4 x xs y ys)
  from 4(5) have "enc x @ (concat (map enc xs) @ r) = enc y @ (concat (map enc ys) @ r')" by simp
  with 4 prefix_free [of x y "concat (map enc xs) @ r" "concat (map enc ys) @ r'"] show ?case by auto
qed auto

end

end
