(* ===== verification/Hpack.thy ===== *)
theory Hpack
  imports Huffman Wire
begin

unbundle bit_operations_syntax

text \<open>
  Header compression, \<^verbatim>\<open>src/h2/hpack.rs\<close>, with the header entry type of
  \<^verbatim>\<open>src/h2/header.rs\<close>. The encoder is stateless; the decoder keeps a dynamic table,
  front entry first. Buffers the code pushes into are passed and returned; a byte position is a
  \<open>nat\<close> (\<open>usize\<close>), table sizes and decoded integers stay \<open>u32\<close> words.

  Lemmas: integers, string literals and whole header blocks decode to what was encoded; the
  dynamic table refines the longest prefix that fits its limit, and its byte count is exact after
  every block, accepted or not.
\<close>

lemma unat_drop_bit: "unat (drop_bit n w) = unat (w :: 'a::len word) div 2 ^ n"
  by (simp only: unsigned_drop_bit_eq) (simp add: drop_bit_eq_div take_bit_nat_eq_self)

section \<open>Header entries\<close>

datatype indexing = With | Without | Never

record h2_header =
  h_name :: bytes
  h_value :: bytes
  h_indexing :: indexing
  huffman_name :: "bool option"
  huffman_value :: "bool option"
  allow_invalid_value :: bool
  allow_invalid_name :: bool
  length_bloat_name :: u8
  length_bloat_value :: u8
  force_static_index :: "u8 option"

definition header_new :: "bytes \<Rightarrow> bytes \<Rightarrow> h2_header" where
  "header_new name value = \<lparr>h_name = name, h_value = value, h_indexing = With,
     huffman_name = None, huffman_value = None, allow_invalid_value = False,
     allow_invalid_name = False, length_bloat_name = 0, length_bloat_value = 0,
     force_static_index = None\<rparr>"

section \<open>The encoder\<close>

datatype encode_error = EmptyName | InvalidValue | InvalidName
  | BloatOutOfRange u8 | StaticIndexOutOfRange u8

function write_continuation :: "bytes \<Rightarrow> u32 \<Rightarrow> bytes" where
  "write_continuation out remaining =
     (if remaining \<ge> 128
      then write_continuation (out @ [ucast (remaining AND 0x7F) OR 0x80]) (drop_bit 7 remaining)
      else out @ [ucast remaining])"
  by pat_completeness auto
termination
proof (relation "measure (\<lambda>(_, r). unat r)")
  fix r :: u32
  assume "128 \<le> r"
  then have "128 \<le> unat r" by (simp add: word_le_nat_alt)
  then have "unat r div 2 ^ 7 < unat r" by simp
  then have "unat (drop_bit 7 r) < unat r" by (simp only: unat_drop_bit)
  then show "((out @ [ucast (r AND 0x7F) OR 0x80], drop_bit 7 r), out, r) \<in> measure (\<lambda>(_, r). unat r)" for out
    by simp
qed simp

declare write_continuation.simps [simp del]

text \<open>One turn of the bloat loop: pop the terminator, push \<open>0x80\<close>, push it back.\<close>

definition bloat_once :: "bytes \<Rightarrow> bytes" where
  "bloat_once out = butlast out @ [0x80, last out]"

definition write_integer :: "bytes \<Rightarrow> u32 \<Rightarrow> nat \<Rightarrow> u8 \<Rightarrow> u8 \<Rightarrow> bytes" where
  "write_integer out value n prefix_pattern bloat =
     (let max_prefix = push_bit n 1 - 1 in
      if value < max_prefix then out @ [prefix_pattern OR ucast value]
      else (let out = out @ [prefix_pattern OR ucast max_prefix];
                out = write_continuation out (value - max_prefix)
            in (bloat_once ^^ unat bloat) out))"

definition write_string :: "bytes \<Rightarrow> bytes \<Rightarrow> bool option \<Rightarrow> u8 \<Rightarrow> bytes" where
  "write_string out data huffman length_bloat =
     (let use_huffman = (case huffman of Some h \<Rightarrow> h
                         | None \<Rightarrow> huffman_encoded_len data < length data);
          (encoded, h_flag) = (if use_huffman then (huffman_encode data, 0x80) else (data, 0x00));
          out = write_integer out (of_nat (length encoded)) 7 h_flag length_bloat
      in out @ encoded)"

definition is_lowercase_token_char :: "u8 \<Rightarrow> bool" where
  "is_lowercase_token_char b \<longleftrightarrow> (0x61 \<le> b \<and> b \<le> 0x7A) \<or> (0x30 \<le> b \<and> b \<le> 0x39) \<or>
     b \<in> set (str_bytes ''!#$%&'' @ [0x27] @ str_bytes ''*+-.^_'' @ [0x60] @ str_bytes ''|~'')"

definition is_name_valid :: "bytes \<Rightarrow> bool" where
  "is_name_valid name = (case name of [] \<Rightarrow> False
     | first # rest \<Rightarrow>
         (if first = 0x3A then rest \<noteq> [] else is_lowercase_token_char first) \<and>
         list_all is_lowercase_token_char rest)"

definition is_value_valid :: "bytes \<Rightarrow> bool" where
  "is_value_valid value \<longleftrightarrow> \<not> list_ex (\<lambda>b. b = 0x00 \<or> b = 0x0A \<or> b = 0x0D) value"

definition encode_one :: "h2_header \<Rightarrow> bytes \<Rightarrow> encode_error + bytes" where
  "encode_one h out =
     (if h_name h = [] \<and> force_static_index h = None then Inl EmptyName
      else if length_bloat_name h > 3 then Inl (BloatOutOfRange (length_bloat_name h))
      else if length_bloat_value h > 3 then Inl (BloatOutOfRange (length_bloat_value h))
      else if \<not> allow_invalid_name h \<and> force_static_index h = None \<and> \<not> is_name_valid (h_name h)
        then Inl InvalidName
      else if \<not> allow_invalid_value h \<and> \<not> is_value_valid (h_value h) then Inl InvalidValue
      else (let (prefix_pattern, prefix_bits) =
                  (case h_indexing h of With \<Rightarrow> (0x40, 6) | Without \<Rightarrow> (0x00, 4) | Never \<Rightarrow> (0x10, 4))
            in and_then (case force_static_index h of
                 Some idx \<Rightarrow> if \<not> (1 \<le> idx \<and> idx \<le> 61) then Inl (StaticIndexOutOfRange idx)
                             else Inr (ucast idx)
               | None \<Rightarrow> Inr 0)
               (\<lambda>name_index.
                 let out = write_integer out name_index prefix_bits prefix_pattern 0;
                     out = (if name_index = 0
                            then write_string out (h_name h) (huffman_name h) (length_bloat_name h)
                            else out)
                 in Inr (write_string out (h_value h) (huffman_value h) (length_bloat_value h)))))"

fun encode_loop :: "h2_header list \<Rightarrow> bytes \<Rightarrow> encode_error + bytes" where
  "encode_loop [] out = Inr out"
| "encode_loop (h # hs) out = and_then (encode_one h out) (encode_loop hs)"

definition encode_headers :: "h2_header list \<Rightarrow> encode_error + bytes" where
  "encode_headers headers = encode_loop headers []"

section \<open>The decoder\<close>

datatype decode_error = UnexpectedEof nat | IntegerOverflow | InvalidIndex u32
  | TableSizeTooLarge u32 u32 | HuffmanFailed huffman_error

definition STATIC_TABLE :: "(bytes \<times> bytes) list" where
  "STATIC_TABLE = map (\<lambda>(n, v). (str_bytes n, str_bytes v)) [
     ('':authority'', ''''),
     ('':method'', ''GET''), ('':method'', ''POST''),
     ('':path'', ''/''), ('':path'', ''/index.html''),
     ('':scheme'', ''http''), ('':scheme'', ''https''),
     ('':status'', ''200''), ('':status'', ''204''),
     ('':status'', ''206''), ('':status'', ''304''),
     ('':status'', ''400''), ('':status'', ''404''),
     ('':status'', ''500''), (''accept-charset'', ''''),
     (''accept-encoding'', ''gzip, deflate''), (''accept-language'', ''''),
     (''accept-ranges'', ''''), (''accept'', ''''),
     (''access-control-allow-origin'', ''''), (''age'', ''''),
     (''allow'', ''''), (''authorization'', ''''),
     (''cache-control'', ''''), (''content-disposition'', ''''),
     (''content-encoding'', ''''), (''content-language'', ''''),
     (''content-length'', ''''), (''content-location'', ''''),
     (''content-range'', ''''), (''content-type'', ''''),
     (''cookie'', ''''), (''date'', ''''),
     (''etag'', ''''), (''expect'', ''''),
     (''expires'', ''''), (''from'', ''''),
     (''host'', ''''), (''if-match'', ''''),
     (''if-modified-since'', ''''), (''if-none-match'', ''''),
     (''if-range'', ''''), (''if-unmodified-since'', ''''),
     (''last-modified'', ''''), (''link'', ''''),
     (''location'', ''''), (''max-forwards'', ''''),
     (''proxy-authenticate'', ''''), (''proxy-authorization'', ''''),
     (''range'', ''''), (''referer'', ''''),
     (''refresh'', ''''), (''retry-after'', ''''),
     (''server'', ''''), (''set-cookie'', ''''),
     (''strict-transport-security'', ''''), (''transfer-encoding'', ''''),
     (''user-agent'', ''''), (''vary'', ''''),
     (''via'', ''''), (''www-authenticate'', '''')]"

record decoder =
  dynamic_table :: "(bytes \<times> bytes) list"
  dynamic_table_size :: u32
  max_table_size :: u32

definition decoder_new :: decoder where
  "decoder_new = \<lparr>dynamic_table = [], dynamic_table_size = 0, max_table_size = 4096\<rparr>"

definition with_max_table_size :: "u32 \<Rightarrow> decoder" where
  "with_max_table_size mx = decoder_new\<lparr>max_table_size := mx\<rparr>"

definition lookup_index :: "decoder \<Rightarrow> u32 \<Rightarrow> decode_error + bytes \<times> bytes" where
  "lookup_index d idx =
     (if idx = 0 then Inl (InvalidIndex 0)
      else if unat idx \<le> length STATIC_TABLE then Inr (STATIC_TABLE ! unat (idx - 1))
      else (let dyn_idx = unat idx - 1 - length STATIC_TABLE in
            if dyn_idx < length (dynamic_table d) then Inr (dynamic_table d ! dyn_idx)
            else Inl (InvalidIndex idx)))"

text \<open>\<open>(name.len() + value.len() + 32) as u32\<close>.\<close>

definition entry_size :: "bytes \<times> bytes \<Rightarrow> u32" where
  "entry_size e = of_nat (length (fst e) + length (snd e) + 32)"

function evict_for :: "(bytes \<times> bytes) list \<Rightarrow> u32 \<Rightarrow> u32 \<Rightarrow> u32 \<Rightarrow> (bytes \<times> bytes) list \<times> u32" where
  "evict_for table sz mx entry =
     (if sz + entry > mx
      then (if table = [] then (table, sz)
            else evict_for (butlast table) (sz - entry_size (last table)) mx entry)
      else (table, sz))"
  by pat_completeness auto
termination by (relation "measure (\<lambda>(t, _). length t)") auto

declare evict_for.simps [simp del]

definition add_to_dynamic_table :: "decoder \<Rightarrow> bytes \<Rightarrow> bytes \<Rightarrow> decoder" where
  "add_to_dynamic_table d name value =
     (let sz = entry_size (name, value) in
      if sz > max_table_size d then d\<lparr>dynamic_table := [], dynamic_table_size := 0\<rparr>
      else (let (table, table_sz) = evict_for (dynamic_table d) (dynamic_table_size d) (max_table_size d) sz
            in d\<lparr>dynamic_table := (name, value) # table, dynamic_table_size := table_sz + sz\<rparr>))"

function evict_to :: "(bytes \<times> bytes) list \<Rightarrow> u32 \<Rightarrow> u32 \<Rightarrow> (bytes \<times> bytes) list \<times> u32" where
  "evict_to table sz new_size =
     (if sz > new_size
      then (if table = [] then (table, sz)
            else evict_to (butlast table) (sz - entry_size (last table)) new_size)
      else (table, sz))"
  by pat_completeness auto
termination by (relation "measure (\<lambda>(t, _). length t)") auto

declare evict_to.simps [simp del]

definition resize_table :: "decoder \<Rightarrow> u32 \<Rightarrow> decoder" where
  "resize_table d new_size =
     (let (table, sz) = evict_to (dynamic_table d) (dynamic_table_size d) new_size
      in d\<lparr>max_table_size := new_size, dynamic_table := table, dynamic_table_size := sz\<rparr>)"

function read_continuation :: "bytes \<Rightarrow> nat \<Rightarrow> u32 \<Rightarrow> u32 \<Rightarrow> decode_error + u32 \<times> nat" where
  "read_continuation buf p value shift =
     (if p \<ge> length buf then Inl (UnexpectedEof p)
      else (let b = buf ! p in
            and_then (ok_or (checked_shl (ucast (b AND 0x7F)) shift) IntegerOverflow) (\<lambda>contribution.
            and_then (ok_or (checked_add value contribution) IntegerOverflow) (\<lambda>value.
            if b AND 0x80 = 0 then Inr (value, p + 1)
            else and_then (ok_or (checked_add shift 7) IntegerOverflow) (\<lambda>shift.
                 read_continuation buf (p + 1) value shift)))))"
  by pat_completeness auto
termination by (relation "measure (\<lambda>(buf, p, _, _). length buf - p)") auto

declare read_continuation.simps [simp del]

definition read_integer :: "bytes \<Rightarrow> nat \<Rightarrow> nat \<Rightarrow> decode_error + u32 \<times> nat" where
  "read_integer buf pos n =
     (if pos \<ge> length buf then Inl (UnexpectedEof pos)
      else (let max_prefix = push_bit n 1 - 1;
                first = ucast (buf ! pos) AND max_prefix in
            if first < max_prefix then Inr (first, pos + 1)
            else read_continuation buf (pos + 1) max_prefix 0))"

definition huffman_result :: "huffman_error + bytes \<Rightarrow> decode_error + bytes" where
  "huffman_result r = (case r of Inl e \<Rightarrow> Inl (HuffmanFailed e) | Inr s \<Rightarrow> Inr s)"

definition read_string :: "bytes \<Rightarrow> nat \<Rightarrow> decode_error + bytes \<times> nat" where
  "read_string buf pos =
     (if pos \<ge> length buf then Inl (UnexpectedEof pos)
      else (let huffman = (buf ! pos AND 0x80 \<noteq> 0) in
            and_then (read_integer buf pos 7) (\<lambda>(len, new_pos).
            let end = new_pos + unat len in
            if end > length buf then Inl (UnexpectedEof end)
            else (let raw = take (end - new_pos) (drop new_pos buf) in
                  and_then (if huffman then huffman_result (huffman_decode raw) else Inr raw)
                    (\<lambda>bs. Inr (bs, end))))))"

text \<open>
  The body shared by the two literal branches of the decode loop: name by index or literal, then
  the value.
\<close>

definition read_literal :: "decoder \<Rightarrow> bytes \<Rightarrow> nat \<Rightarrow> nat \<Rightarrow> decode_error + (bytes \<times> bytes) \<times> nat" where
  "read_literal d block pos n =
     and_then (read_integer block pos n) (\<lambda>(idx, pos).
     and_then (if idx = 0 then read_string block pos
               else and_then (lookup_index d idx) (\<lambda>(name, _). Inr (name, pos))) (\<lambda>(name, pos).
     and_then (read_string block pos) (\<lambda>(value, pos). Inr ((name, value), pos))))"

text \<open>One turn of the loop: the header produced, if any, the new position, the new decoder.\<close>

definition decode_step ::
  "decoder \<Rightarrow> bytes \<Rightarrow> nat \<Rightarrow> decode_error + (bytes \<times> bytes) list \<times> nat \<times> decoder" where
  "decode_step d block pos =
     (let b = block ! pos in
      if b AND 0x80 \<noteq> 0 then
        and_then (read_integer block pos 7) (\<lambda>(idx, new_pos).
        and_then (lookup_index d idx) (\<lambda>h. Inr ([h], new_pos, d)))
      else if b AND 0xC0 = 0x40 then
        and_then (read_literal d block pos 6) (\<lambda>((name, value), new_pos).
        Inr ([(name, value)], new_pos, add_to_dynamic_table d name value))
      else if b AND 0xE0 = 0x20 then
        and_then (read_integer block pos 5) (\<lambda>(new_size, new_pos).
        if new_size > max_table_size d then Inl (TableSizeTooLarge new_size (max_table_size d))
        else Inr ([], new_pos, resize_table d new_size))
      else
        and_then (read_literal d block pos 4) (\<lambda>(h, new_pos). Inr ([h], new_pos, d)))"

lemma read_continuation_pos: "read_continuation buf p v s = Inr (w, q) \<Longrightarrow> p < q \<and> q \<le> length buf"
proof (induction buf p v s rule: read_continuation.induct)
  case (1 buf p v s)
  from 1(2) have p: "p < length buf" by (auto simp: read_continuation.simps [of buf p] split: if_splits)
  from 1(2) p show ?case
    using 1(1) by (fastforce simp: read_continuation.simps [of buf p] Let_def and_then_eq_Inr split: if_splits)
qed

lemma read_integer_pos: "read_integer buf pos n = Inr (v, q) \<Longrightarrow> pos < q \<and> q \<le> length buf"
  by (auto simp: read_integer_def Let_def split: if_splits dest: read_continuation_pos)

lemma read_string_pos: "read_string buf pos = Inr (s, q) \<Longrightarrow> pos < q \<and> q \<le> length buf"
  by (auto simp: read_string_def Let_def and_then_eq_Inr split: if_splits dest!: read_integer_pos)

lemma read_literal_pos: "read_literal d buf pos n = Inr (h, q) \<Longrightarrow> pos < q \<and> q \<le> length buf"
  by (fastforce simp: read_literal_def and_then_eq_Inr split: if_splits dest: read_integer_pos read_string_pos)

lemma decode_step_pos: "decode_step d block pos = Inr (hs, q, d') \<Longrightarrow> pos < q \<and> q \<le> length block"
  by (auto simp: decode_step_def Let_def and_then_eq_Inr split: if_splits
      dest: read_integer_pos read_literal_pos)

text \<open>
  The loop. The decoder is returned in every case: an error leaves the table as the fields before
  it made it.
\<close>

function decode_loop_from ::
  "decoder \<Rightarrow> bytes \<Rightarrow> nat \<Rightarrow> (bytes \<times> bytes) list \<Rightarrow> (decode_error + (bytes \<times> bytes) list) \<times> decoder" where
  "decode_loop_from d block pos out =
     (if pos < length block
      then (case decode_step d block pos of
              Inl e \<Rightarrow> (Inl e, d)
            | Inr (hs, new_pos, d') \<Rightarrow> decode_loop_from d' block new_pos (out @ hs))
      else (Inr out, d))"
  by pat_completeness auto
termination
  by (relation "measure (\<lambda>(_, block, pos, _). length block - pos)") (auto dest: decode_step_pos)

declare decode_loop_from.simps [simp del]

definition decode_headers ::
  "decoder \<Rightarrow> bytes \<Rightarrow> (decode_error + (bytes \<times> bytes) list) \<times> decoder" where
  "decode_headers d block = decode_loop_from d block 0 []"

section \<open>Integers\<close>

lemma drop_bit_7_less: "128 \<le> (r :: u32) \<Longrightarrow> unat (drop_bit 7 r) < unat r"
  by (simp only: unat_drop_bit word_le_nat_alt) simp

lemma write_continuation_append: "write_continuation out r = out @ write_continuation [] r"
proof (induction "unat r" arbitrary: out r rule: less_induct)
  case less
  show ?case
  proof (cases "r \<ge> 128")
    case True
    note less(1) [OF drop_bit_7_less [OF True]]
    from this [of "out @ [ucast (r AND 0x7F) OR 0x80]"] this [of "[] @ [ucast (r AND 0x7F) OR 0x80]"]
    show ?thesis
      using True by (simp add: write_continuation.simps [of out r] write_continuation.simps [of "[]" r])
  qed (simp add: write_continuation.simps)
qed

lemma write_continuation_rec:
  "write_continuation [] r = (if r \<ge> 128
     then (ucast (r AND 0x7F) OR 0x80) # write_continuation [] (drop_bit 7 r) else [ucast r])"
  using write_continuation.simps [of "[]" r] write_continuation_append [of "[ucast (r AND 0x7F) OR 0x80]" "drop_bit 7 r"]
  by simp

lemma masks: "(0x7F :: u32) = mask 7" "(0x7F :: u8) = mask 7"
  by (simp_all add: mask_eq_exp_minus_1)

lemma bit_0x80: "bit (0x80 :: 'a::semiring_bit_operations) n \<longleftrightarrow> possible_bit TYPE('a) 7 \<and> n = 7"
proof -
  have "(0x80 :: 'a) = 2 ^ 7" by simp
  then show ?thesis by (simp only: bit_exp_iff) auto
qed

lemma continuation_byte:
  fixes r :: u32
  shows "ucast ((ucast (r AND 0x7F) OR 0x80 :: u8) AND 0x7F) = take_bit 7 r"
    and "(ucast (r AND 0x7F) OR 0x80 :: u8) AND 0x80 \<noteq> 0"
proof -
  show "ucast ((ucast (r AND 0x7F) OR 0x80 :: u8) AND 0x7F) = take_bit 7 r"
    unfolding masks by (rule bit_word_eqI) (auto simp: bit_simps bit_0x80)
  have "bit ((ucast (r AND 0x7F) OR 0x80 :: u8) AND 0x80) 7" unfolding masks by (simp add: bit_simps bit_0x80)
  then show "(ucast (r AND 0x7F) OR 0x80 :: u8) AND 0x80 \<noteq> 0" by auto
qed

lemma final_byte:
  fixes r :: u32
  assumes "\<not> 128 \<le> r"
  shows "ucast ((ucast r :: u8) AND 0x7F) = r" "(ucast r :: u8) AND 0x80 = 0"
proof -
  from assms have "unat r < 2 ^ 7" by (simp add: word_le_nat_alt)
  then have *: "r = take_bit 7 r"
    by (simp add: word_unat_eq_iff unsigned_take_bit_eq take_bit_nat_eq_self)
  then have b: "bit r i \<Longrightarrow> i < 7" for i by (metis bit_take_bit_iff)
  show "ucast ((ucast r :: u8) AND 0x7F) = r"
    unfolding masks by (rule bit_word_eqI) (auto simp: bit_simps bit_0x80 dest: b)
  show "(ucast r :: u8) AND 0x80 = 0"
    unfolding masks by (rule bit_word_eqI) (auto simp: bit_simps bit_0x80 dest: b)
qed

lemma checked_shl_Some: "s < 32 \<Longrightarrow> checked_shl a (of_nat s) = Some (push_bit s a)"
  by (simp add: checked_shl_def word_less_nat_alt unat_of_nat take_bit_nat_eq_self)

lemma checked_add_Some:
  "unat a + unat b < 2 ^ 32 \<Longrightarrow> checked_add a b = Some (a + b) \<and> unat (a + b) = unat a + unat b"
  by (simp add: checked_add_def unat_add_no_overflow)

lemma read_write_continuation:
  "s < 32 \<Longrightarrow> unat v + unat r * 2 ^ s < 2 ^ 32 \<Longrightarrow>
   read_continuation (pre @ write_continuation [] r @ post) (length pre) v (of_nat s)
     = Inr (v + of_nat (unat r * 2 ^ s), length pre + length (write_continuation [] r))"
proof (induction "unat r" arbitrary: r v s pre rule: less_induct)
  case less
  show ?case
  proof (cases "r \<ge> 128")
    case False
    have "unat (push_bit s r) = unat r * 2 ^ s"
      using less.prems(2) by (intro unat_push_bit_less) simp
    then have add: "checked_add v (push_bit s r) = Some (v + push_bit s r)"
      and eq: "push_bit s r = of_nat (unat r * 2 ^ s)"
      using less.prems(2) by (simp_all add: checked_add_def push_bit_eq_mult)
    show ?thesis
      using False less.prems(1)
      by (simp add: write_continuation_rec [of r] read_continuation.simps [of _ "length pre"] nth_append
          final_byte checked_shl_Some add eq add [unfolded eq, simplified])
  next
    case True
    let ?t = "take_bit 7 r"
    have t: "unat ?t = unat r mod 128" by (simp only: unsigned_take_bit_eq) (simp add: take_bit_eq_mod)
    have split: "unat r = unat (drop_bit 7 r) * 128 + unat ?t"
      by (simp add: t unat_drop_bit)
    let ?d = "drop_bit 7 r"
    have total: "unat r * 2 ^ s = unat ?t * 2 ^ s + unat ?d * 2 ^ (s + 7)"
      by (subst split) (simp add: algebra_simps power_add)
    have "unat r \<ge> 128" using True by (simp add: word_le_nat_alt)
    then have "unat ?d \<ge> 1" by (simp only: unat_drop_bit) simp
    then have "2 ^ (s + 7) \<le> unat ?d * 2 ^ (s + 7)" by simp
    with less.prems(2) total have "(2 :: nat) ^ (s + 7) < 2 ^ 32" by linarith
    then have s7: "s + 7 < 32" by (simp only: power_strict_increasing_iff)
    have ps: "unat (push_bit s ?t) = unat ?t * 2 ^ s"
      using less.prems(2) total by (intro unat_push_bit_less) simp
    have add: "checked_add v (push_bit s ?t) = Some (v + push_bit s ?t)"
      "unat (v + push_bit s ?t) = unat v + unat ?t * 2 ^ s"
      using less.prems(2) total ps checked_add_Some [of v "push_bit s ?t"] by simp_all
    have sh: "checked_add (of_nat s) 7 = Some (of_nat (s + 7))"
      using s7 by (simp add: checked_add_def unat_of_nat take_bit_nat_eq_self)
    let ?b = "ucast (r AND 0x7F) OR 0x80 :: u8"
    have IH: "read_continuation ((pre @ [?b]) @ write_continuation [] ?d @ post) (length (pre @ [?b]))
        (v + push_bit s ?t) (of_nat (s + 7))
      = Inr (v + push_bit s ?t + of_nat (unat ?d * 2 ^ (s + 7)), length (pre @ [?b]) + length (write_continuation [] ?d))"
      using add(2) less.prems(2) total s7 by (intro less.hyps drop_bit_7_less True) simp_all
    have "push_bit s ?t = of_nat (unat ?t * 2 ^ s)" by (simp add: push_bit_eq_mult)
    then have "v + push_bit s ?t + of_nat (unat ?d * 2 ^ (s + 7)) = v + of_nat (unat r * 2 ^ s)"
      unfolding total by simp
    with IH True less.prems(1) show ?thesis
      by (simp add: write_continuation_rec [of r] read_continuation.simps [of _ "length pre"] nth_append
          continuation_byte checked_shl_Some add(1) sh del: of_nat_add)
  qed
qed

lemma unat_exp: "n < 32 \<Longrightarrow> unat (2 ^ n :: u32) = 2 ^ n"
  using unat_of_nat [of "2 ^ n", where 'a = 32] power_strict_increasing [of n 32 "2 :: nat"] by simp

lemma prefix_byte:
  fixes v :: u32
  assumes "n \<le> 8" "take_bit n pat = 0" "v < 2 ^ n"
  shows "ucast (pat OR ucast v :: u8) AND mask n = v"
proof -
  have "take_bit n v = v"
    using assms(1,3) by (simp add: word_unat_eq_iff unsigned_take_bit_eq take_bit_nat_eq_self word_less_nat_alt unat_exp)
  then have v: "bit v i \<Longrightarrow> i < n" for i by (metis bit_take_bit_iff)
  have p: "i < n \<Longrightarrow> \<not> bit pat i" for i using assms(2) by (metis bit_0_eq bit_take_bit_iff bot_apply bot_bool_def)
  show ?thesis
    by (rule bit_word_eqI) (use assms(1) in \<open>auto simp: bit_simps dest: v p\<close>)
qed

lemma max_prefix: "push_bit n 1 - 1 = (mask n :: u32)"
  by (simp add: mask_eq_exp_minus_1 push_bit_eq_mult)

lemma mask_lt: "n \<le> 8 \<Longrightarrow> (mask n :: u32) < 2 ^ n"
  by (simp add: mask_eq_exp_minus_1 word_less_nat_alt unat_exp unat_minus_one)

lemma write_integer_eq:
  "write_integer out v n pat bloat = (if v < mask n then out @ [pat OR ucast v]
     else (bloat_once ^^ unat bloat) (write_continuation (out @ [pat OR ucast (mask n :: u32)]) (v - mask n)))"
  by (simp only: write_integer_def max_prefix Let_def)

lemma read_integer_eq:
  "read_integer buf pos n = (if pos \<ge> length buf then Inl (UnexpectedEof pos)
     else if ucast (buf ! pos) AND mask n < (mask n :: u32) then Inr (ucast (buf ! pos) AND mask n, pos + 1)
     else read_continuation buf (pos + 1) (mask n) 0)"
  by (simp only: read_integer_def max_prefix Let_def)

text \<open>An integer written with an \<open>n\<close>-bit prefix and no bloat reads back.\<close>

lemma read_write_integer:
  assumes n: "0 < n" "n \<le> 8" and pat: "take_bit n pat = 0"
  shows "read_integer (pre @ write_integer [] v n pat 0 @ post) (length pre) n
    = Inr (v, length pre + length (write_integer [] v n pat 0))"
proof (cases "v < mask n")
  case True
  with mask_lt [OF n(2)] have "v < 2 ^ n" by order
  with True show ?thesis
    by (simp add: write_integer_eq read_integer_eq nth_append prefix_byte [OF n(2) pat])
next
  case False
  let ?r = "v - mask n"
  have "mask n \<le> v" using False by simp
  then have r: "unat (mask n :: u32) + unat ?r = unat v" by (simp add: unat_sub word_le_nat_alt)
  then have "read_continuation ((pre @ [pat OR ucast (mask n :: u32)]) @ write_continuation [] ?r @ post)
      (length (pre @ [pat OR ucast (mask n :: u32)])) (mask n) (of_nat 0)
    = Inr (mask n + of_nat (unat ?r * 2 ^ 0), length (pre @ [pat OR ucast (mask n :: u32)]) + length (write_continuation [] ?r))"
    using unsigned_less [of v, where 'a = nat] by (intro read_write_continuation) simp_all
  then show ?thesis
    using False write_continuation_append [of "[pat OR ucast (mask n :: u32)]" ?r]
    by (simp add: write_integer_eq read_integer_eq nth_append
        prefix_byte [OF n(2) pat mask_lt [OF n(2)]])
qed

section \<open>String literals\<close>

lemma bloat_append: "x \<noteq> [] \<Longrightarrow> bloat_once (out @ x) = out @ bloat_once x \<and> bloat_once x \<noteq> []"
  by (simp add: bloat_once_def butlast_append)

lemma bloat_pow_append: "x \<noteq> [] \<Longrightarrow> (bloat_once ^^ k) (out @ x) = out @ (bloat_once ^^ k) x \<and> (bloat_once ^^ k) x \<noteq> []"
  by (induction k) (simp_all add: bloat_append)

lemma write_continuation_nonempty: "write_continuation out r \<noteq> []"
  by (subst write_continuation_append) (simp add: write_continuation_rec)

lemma write_integer_append: "write_integer out v n pat bloat = out @ write_integer [] v n pat bloat"
  using bloat_pow_append [OF write_continuation_nonempty, of "unat bloat" out "[pat OR ucast (mask n :: u32)]" "v - mask n"]
  by (simp add: write_integer_eq write_continuation_append [of "out @ _"] write_continuation_append [of "[_]"])

lemma write_string_append: "write_string out s h bloat = out @ write_string [] s h bloat"
  by (simp add: write_string_def Let_def write_integer_append [of out])

lemma write_integer_nonempty: "write_integer [] v n pat 0 \<noteq> []"
  by (simp add: write_integer_eq write_continuation_nonempty)

text \<open>Whether a string is sent Huffman coded, and the bytes that are sent.\<close>

definition uses_huffman :: "bool option \<Rightarrow> bytes \<Rightarrow> bool" where
  "uses_huffman h s = (case h of Some b \<Rightarrow> b | None \<Rightarrow> huffman_encoded_len s < length s)"

definition string_payload :: "bool option \<Rightarrow> bytes \<Rightarrow> bytes" where
  "string_payload h s = (if uses_huffman h s then huffman_encode s else s)"

lemma write_string_eq:
  "write_string out s h bloat = out @ write_integer [] (of_nat (length (string_payload h s))) 7
     (if uses_huffman h s then 0x80 else 0) bloat @ string_payload h s"
  by (simp add: write_string_def uses_huffman_def string_payload_def Let_def write_integer_append [of out])

lemma hd_write_integer: "hd (write_integer [] v n pat 0) = pat OR ucast (if v < mask n then v else mask n)"
  by (simp add: write_integer_eq write_continuation_append [of "[_]"])

lemma flag_bit:
  "(0x80 OR ucast (if v < mask 7 then v else (mask 7 :: u32)) :: u8) AND 0x80 \<noteq> 0"
  "(0 OR ucast (if v < mask 7 then v else (mask 7 :: u32)) :: u8) AND 0x80 = 0"
proof -
  let ?w = "if v < mask 7 then v else (mask 7 :: u32)"
  have "bit ((0x80 OR ucast ?w :: u8) AND 0x80) 7" by (simp add: bit_simps bit_0x80)
  then show "(0x80 OR ucast ?w :: u8) AND 0x80 \<noteq> 0" by auto
  have "\<not> 128 \<le> ?w" by (auto simp: mask_eq_exp_minus_1 word_le_nat_alt word_less_nat_alt)
  then show "(0 OR ucast ?w :: u8) AND 0x80 = 0" using final_byte(2) by simp
qed

text \<open>A string literal reads back, Huffman coded or raw.\<close>

lemma read_write_string:
  assumes len: "length (string_payload h s) < 2 ^ 32"
  shows "read_string (pre @ write_string [] s h 0 @ post) (length pre)
    = Inr (s, length pre + length (write_string [] s h 0))"
proof -
  let ?pat = "if uses_huffman h s then 0x80 else 0 :: u8"
  let ?p = "string_payload h s"
  let ?i = "write_integer [] (of_nat (length ?p)) 7 ?pat 0"
  have pat: "take_bit 7 ?pat = 0" by simp
  have i: "read_integer (pre @ ?i @ ?p @ post) (length pre) 7 = Inr (of_nat (length ?p), length pre + length ?i)"
    by (rule read_write_integer [OF _ _ pat]) simp_all
  have flag: "((pre @ ?i @ ?p @ post) ! length pre) AND 0x80 \<noteq> 0 \<longleftrightarrow> uses_huffman h s"
    using write_integer_nonempty [of "of_nat (length ?p)" 7 ?pat] hd_write_integer [of "of_nat (length ?p)" 7 ?pat]
      flag_bit [of "of_nat (length ?p)"]
    by (cases ?i) (simp_all add: nth_append split: if_splits)
  have "unat (of_nat (length ?p) :: u32) = length ?p"
    using len by (simp add: unat_of_nat take_bit_nat_eq_self)
  then show ?thesis
    using i flag write_integer_nonempty [of "of_nat (length ?p)" 7 ?pat]
    by (simp add: read_string_def write_string_eq Let_def huffman_result_def huffman_decode_encode string_payload_def)
qed

interpretation string_literal: wire_item "\<lambda>s. write_string [] s h 0" read_string "\<lambda>s. length (string_payload h s) < 2 ^ 32" for h
  by unfold_locales (rule read_write_string)

interpretation prefix_integer: wire_item "\<lambda>v. write_integer [] v 7 0 0" "\<lambda>buf pos. read_integer buf pos 7" "\<lambda>v. True"
  by unfold_locales (rule read_write_integer, simp_all)

section \<open>Header blocks\<close>

text \<open>The header field a decoder sees, and the bytes one entry contributes.\<close>

definition name_index :: "h2_header \<Rightarrow> u32" where
  "name_index h = (case force_static_index h of Some i \<Rightarrow> ucast i | None \<Rightarrow> 0)"

definition sent_header :: "h2_header \<Rightarrow> bytes \<times> bytes" where
  "sent_header h = (case force_static_index h of
       Some i \<Rightarrow> fst (STATIC_TABLE ! (unat i - 1)) | None \<Rightarrow> h_name h, h_value h)"

definition index_bits :: "indexing \<Rightarrow> nat" where
  "index_bits i = (case i of With \<Rightarrow> 6 | Without \<Rightarrow> 4 | Never \<Rightarrow> 4)"

definition index_pattern :: "indexing \<Rightarrow> u8" where
  "index_pattern i = (case i of With \<Rightarrow> 0x40 | Without \<Rightarrow> 0 | Never \<Rightarrow> 0x10)"

definition header_wire :: "h2_header \<Rightarrow> bytes" where
  "header_wire h = write_integer [] (name_index h) (index_bits (h_indexing h)) (index_pattern (h_indexing h)) 0 @
     (if force_static_index h = None then write_string [] (h_name h) (huffman_name h) (length_bloat_name h) else []) @
     write_string [] (h_value h) (huffman_value h) (length_bloat_value h)"

text \<open>The checks an entry passes; the first that fails gives the error.\<close>

definition header_accepted :: "h2_header \<Rightarrow> bool" where
  "header_accepted h \<longleftrightarrow> length_bloat_name h \<le> 3 \<and> length_bloat_value h \<le> 3 \<and>
     (case force_static_index h of
        Some i \<Rightarrow> 1 \<le> i \<and> i \<le> 61
      | None \<Rightarrow> h_name h \<noteq> [] \<and> (allow_invalid_name h \<or> is_name_valid (h_name h))) \<and>
     (allow_invalid_value h \<or> is_value_valid (h_value h))"

lemma unat_ucast_u8 [simp]: "unat (ucast (i :: u8) :: u32) = unat i"
  using unsigned_less [of i, where 'a = nat] by (simp only: unsigned_ucast_eq) (simp add: take_bit_nat_eq_self)

lemma u8_ge_1: "1 \<le> (i :: u8) \<longleftrightarrow> i \<noteq> 0"
proof -
  have "0 < unat i \<longleftrightarrow> unat i \<noteq> 0" by (rule neq0_conv [symmetric])
  then show ?thesis by (simp add: word_le_nat_alt Suc_le_eq unat_eq_0)
qed

lemma ucast_u8_eq_0 [simp]: "(ucast (i :: u8) :: u32) = 0 \<longleftrightarrow> i = 0"
  using unat_ucast_u8 [of i] by (metis unat_eq_0 unsigned_0)

lemma encode_one_accepted:
  "encode_one h out = Inr w \<longleftrightarrow> header_accepted h \<and> w = out @ header_wire h"
proof (cases "force_static_index h")
  case None
  then show ?thesis
    by (auto simp: encode_one_def header_accepted_def header_wire_def name_index_def index_bits_def
        index_pattern_def Let_def write_integer_append [of out] write_string_append [of "_ @ _"]
        write_string_append [of "write_integer _ _ _ _ _"] not_less
        split: indexing.splits prod.splits)
next
  case (Some i)
  with Some show ?thesis
    by (auto simp: encode_one_def header_accepted_def header_wire_def name_index_def index_bits_def
        index_pattern_def Let_def write_integer_append [of out] write_string_append [of "_ @ _"]
        write_string_append [of "write_integer _ _ _ _ _"] not_less not_le u8_ge_1
        split: indexing.splits prod.splits)
qed

lemma encode_loop_accepted:
  "encode_loop hs out = Inr w \<longleftrightarrow> list_all header_accepted hs \<and> w = out @ concat (map header_wire hs)"
  by (induction hs arbitrary: out) (auto simp: and_then_eq_Inr encode_one_accepted)

lemma encode_headers_accepted:
  "encode_headers hs = Inr w \<longleftrightarrow> list_all header_accepted hs \<and> w = concat (map header_wire hs)"
  by (simp add: encode_headers_def encode_loop_accepted)

lemma length_STATIC_TABLE: "length STATIC_TABLE = 61"
  by (simp add: STATIC_TABLE_def)

lemma lookup_static:
  assumes "1 \<le> i" "i \<le> 61"
  shows "lookup_index d (ucast (i :: u8)) = Inr (STATIC_TABLE ! (unat i - 1))"
proof -
  have i: "1 \<le> unat i" "unat i \<le> 61" using assms by (simp_all add: word_le_nat_alt)
  have u: "unat (ucast i :: u32) = unat i" by (rule unat_ucast_u8)
  then have nz: "(ucast i :: u32) \<noteq> 0" using i(1) by (metis not_one_le_zero unsigned_0)
  with u have "unat ((ucast i :: u32) - 1) = unat i - 1" by (simp add: unat_minus_one)
  with nz u i(2) show ?thesis by (simp add: lookup_index_def length_STATIC_TABLE)
qed

text \<open>The first byte of a literal selects its branch of the decode loop.\<close>

lemma literal_byte_kinds:
  "list_all (\<lambda>x. (0x40 OR x :: u8) AND 0x80 = 0 \<and> (0x40 OR x) AND 0xC0 = 0x40) (map of_nat [0..<64])"
  "list_all (\<lambda>x. x AND 0x80 = 0 \<and> x AND 0xC0 \<noteq> 0x40 \<and> x AND 0xE0 \<noteq> 0x20 \<and>
     (0x10 OR x :: u8) AND 0x80 = 0 \<and> (0x10 OR x) AND 0xC0 \<noteq> 0x40 \<and> (0x10 OR x) AND 0xE0 \<noteq> 0x20)
     (map of_nat [0..<16])"
  by code_simp+

lemma u8_in_range: "unat (x :: u8) < n \<Longrightarrow> x \<in> set (map of_nat [0..<n])"
  unfolding set_map by (rule image_eqI [of _ _ "unat x"]) simp_all


text \<open>An entry whose lengths are sent without bloat and fit a \<open>u32\<close>.\<close>

definition plain_lengths :: "h2_header \<Rightarrow> bool" where
  "plain_lengths h \<longleftrightarrow> length_bloat_name h = 0 \<and> length_bloat_value h = 0 \<and>
     length (string_payload (huffman_name h) (h_name h)) < 2 ^ 32 \<and>
     length (string_payload (huffman_value h) (h_value h)) < 2 ^ 32"

definition index_header :: "h2_header \<Rightarrow> decoder \<Rightarrow> decoder" where
  "index_header h d = (if h_indexing h = With
     then add_to_dynamic_table d (fst (sent_header h)) (snd (sent_header h)) else d)"

lemma read_literal_header:
  assumes acc: "header_accepted h" and plain: "plain_lengths h"
  shows "read_literal d (pre @ header_wire h @ post) (length pre) (index_bits (h_indexing h))
    = Inr (sent_header h, length pre + length (header_wire h))"
proof -
  let ?n = "index_bits (h_indexing h)" and ?p = "index_pattern (h_indexing h)"
  let ?i = "write_integer [] (name_index h) ?n ?p 0"
  let ?v = "write_string [] (h_value h) (huffman_value h) 0"
  have n: "0 < ?n" "?n \<le> 8" and p: "take_bit ?n ?p = 0"
    by (cases "h_indexing h"; simp add: index_bits_def index_pattern_def)+
  show ?thesis
  proof (cases "force_static_index h")
    case (Some i)
    with acc have i: "1 \<le> i" "i \<le> 61" by (auto simp: header_accepted_def)
    from Some plain have wire: "header_wire h = ?i @ ?v" by (simp add: header_wire_def plain_lengths_def)
    have idx: "name_index h = ucast i" "name_index h \<noteq> 0"
      using Some i(1) by (simp_all add: name_index_def u8_ge_1)
    have "read_string ((pre @ ?i) @ ?v @ post) (length (pre @ ?i)) = Inr (h_value h, length (pre @ ?i) + length ?v)"
      using plain by (intro string_literal.dec_enc) (simp add: plain_lengths_def)
    with read_write_integer [OF n p, of pre "name_index h" "?v @ post"] idx lookup_static [OF i, of d] Some
    show ?thesis by (simp add: read_literal_def wire sent_header_def split_beta)
  next
    case None
    let ?s = "write_string [] (h_name h) (huffman_name h) 0"
    from None plain have wire: "header_wire h = ?i @ ?s @ ?v" by (simp add: header_wire_def plain_lengths_def)
    have idx: "name_index h = 0" using None by (simp add: name_index_def)
    have "read_string ((pre @ ?i @ ?s) @ ?v @ post) (length (pre @ ?i @ ?s))
        = Inr (h_value h, length (pre @ ?i @ ?s) + length ?v)"
      using plain by (intro string_literal.dec_enc) (simp add: plain_lengths_def)
    moreover have "read_string ((pre @ ?i) @ ?s @ ?v @ post) (length (pre @ ?i))
        = Inr (h_name h, length (pre @ ?i) + length ?s)"
      using plain by (intro string_literal.dec_enc) (simp add: plain_lengths_def)
    ultimately show ?thesis
      using read_write_integer [OF n p, of pre "name_index h" "?s @ ?v @ post"] idx None
      by (simp add: read_literal_def wire sent_header_def add.assoc)
  qed
qed

lemma header_wire_hd:
  assumes "header_accepted h"
  shows "header_wire h \<noteq> [] \<and> (\<exists>x. hd (header_wire h) = index_pattern (h_indexing h) OR x \<and>
     unat x < (if h_indexing h = With then 64 else 16))"
proof -
  let ?n = "index_bits (h_indexing h)" and ?p = "index_pattern (h_indexing h)"
  let ?w = "if name_index h < mask ?n then name_index h else (mask ?n :: u32)"
  have "unat ?w < (if h_indexing h = With then 64 else 16)"
    by (cases "h_indexing h") (auto simp: index_bits_def mask_eq_exp_minus_1 word_less_nat_alt)
  moreover from this have "unat (ucast ?w :: u8) = unat ?w"
    by (simp only: unsigned_ucast_eq) (simp add: take_bit_nat_eq_self split: if_splits)
  ultimately show ?thesis
    using hd_write_integer [of "name_index h" ?n ?p] write_integer_nonempty [of "name_index h" ?n ?p]
    by (auto simp: header_wire_def)
qed

lemma decode_step_header:
  assumes acc: "header_accepted h" and plain: "plain_lengths h"
  shows "decode_step d (pre @ header_wire h @ post) (length pre)
    = Inr ([sent_header h], length pre + length (header_wire h), index_header h d)"
proof -
  from header_wire_hd [OF acc] obtain x where
    x: "(pre @ header_wire h @ post) ! length pre = index_pattern (h_indexing h) OR x"
      "unat x < (if h_indexing h = With then 64 else 16)"
    by (auto simp: nth_append hd_conv_nth)
  note lit = read_literal_header [OF acc plain, of d pre post]
  show ?thesis
  proof (cases "h_indexing h = With")
    case True
    with x(2) literal_byte_kinds(1) u8_in_range [of x 64] have
      "(0x40 OR x) AND 0x80 = 0" "(0x40 OR x) AND 0xC0 = 0x40"
      unfolding list_all_iff by auto
    with x(1) True lit show ?thesis
      by (simp add: decode_step_def index_pattern_def index_bits_def index_header_def split_beta)
  next
    case False
    with x(2) literal_byte_kinds(2) u8_in_range [of x 16] have
      k: "x AND 0x80 = 0" "x AND 0xC0 \<noteq> 0x40" "x AND 0xE0 \<noteq> 0x20"
        "(0x10 OR x) AND 0x80 = 0" "(0x10 OR x) AND 0xC0 \<noteq> 0x40" "(0x10 OR x) AND 0xE0 \<noteq> 0x20"
      unfolding list_all_iff by auto
    show ?thesis
      using False x(1) lit k
      by (cases "h_indexing h") (simp_all add: decode_step_def index_pattern_def index_bits_def index_header_def split_beta)
  qed
qed

lemma decode_loop_headers:
  "list_all header_accepted hs \<Longrightarrow> list_all plain_lengths hs \<Longrightarrow>
   decode_loop_from d (pre @ concat (map header_wire hs)) (length pre) out
     = (Inr (out @ map sent_header hs), fold index_header hs d)"
proof (induction hs arbitrary: d pre out)
  case Nil
  then show ?case by (simp add: decode_loop_from.simps)
next
  case (Cons h hs)
  then have h: "header_accepted h" "plain_lengths h" by simp_all
  have "header_wire h \<noteq> []" using header_wire_hd [OF h(1)] by simp
  then have lt: "length pre < length (pre @ concat (map header_wire (h # hs)))" by simp
  from Cons.IH [of "index_header h d" "pre @ header_wire h" "out @ [sent_header h]"] Cons.prems
  show ?case
    using decode_step_header [OF h, of d pre "concat (map header_wire hs)"] lt
    by (simp add: decode_loop_from.simps [of d _ "length pre"])
qed

text \<open>
  C23: A header block produced by the encoder from entries without length bloat decodes, on any
  connection state, to the entries' names (the static name where one is referenced) and values in
  order, and the decoder indexes exactly the entries sent with incremental indexing.
\<close>

theorem hpack_block_roundtrip:
  assumes "encode_headers hs = Inr block" and "\<And>h. h \<in> set hs \<Longrightarrow> plain_lengths h"
  shows "decode_headers d block = (Inr (map sent_header hs), fold index_header hs d)"
  using assms decode_loop_headers [of hs d "[]" "[]"]
  by (simp add: decode_headers_def encode_headers_accepted list_all_iff)

section \<open>The dynamic table\<close>

definition entry_bytes :: "bytes \<times> bytes \<Rightarrow> nat" where
  "entry_bytes e = length (fst e) + length (snd e) + 32"

definition table_bytes :: "(bytes \<times> bytes) list \<Rightarrow> nat" where
  "table_bytes t = sum_list (map entry_bytes t)"

text \<open>The contract of the table: the longest run of newest entries within the limit.\<close>

fun fit :: "nat \<Rightarrow> (bytes \<times> bytes) list \<Rightarrow> (bytes \<times> bytes) list" where
  "fit m [] = []"
| "fit m (e # t) = (if entry_bytes e \<le> m then e # fit (m - entry_bytes e) t else [])"

definition decoder_inv :: "decoder \<Rightarrow> bool" where
  "decoder_inv d \<longleftrightarrow> unat (max_table_size d) < 2 ^ 31 \<and>
     unat (dynamic_table_size d) = table_bytes (dynamic_table d) \<and>
     table_bytes (dynamic_table d) \<le> unat (max_table_size d)"

lemma table_bytes_simps [simp]:
  "table_bytes [] = 0" "table_bytes (e # t) = entry_bytes e + table_bytes t"
  "table_bytes (t @ t') = table_bytes t + table_bytes t'"
  by (simp_all add: table_bytes_def)

lemma entry_bytes_pos [simp]: "32 \<le> entry_bytes e"
  by (simp add: entry_bytes_def)

lemma entry_size_bytes: "entry_bytes e < 2 ^ 32 \<Longrightarrow> unat (entry_size e) = entry_bytes e"
  by (simp only: entry_size_def entry_bytes_def unat_of_nat) (simp add: take_bit_nat_eq_self)

lemma fit_all: "table_bytes t \<le> m \<Longrightarrow> fit m t = t"
  by (induction t arbitrary: m) auto

lemma table_bytes_fit: "table_bytes (fit m t) \<le> m"
proof (induction t arbitrary: m)
  case (Cons e t)
  from Cons.IH [of "m - entry_bytes e"] show ?case by auto
qed simp

lemma fit_snoc: "m < table_bytes (t @ [e]) \<Longrightarrow> fit m (t @ [e]) = fit m t"
  by (induction t arbitrary: m) auto

lemma fit_last:
  assumes "t \<noteq> []" "m < table_bytes t"
  shows "fit m t = fit m (butlast t)"
  using assms fit_snoc [of m "butlast t" "last t"] by simp

lemma prefix_fit: "prefix (fit m t) t"
  by (induction t arbitrary: m) auto

lemma table_bytes_last: "t \<noteq> [] \<Longrightarrow> table_bytes t = table_bytes (butlast t) + entry_bytes (last t)"
  by (metis append_butlast_last_id table_bytes_simps add_0_right)

text \<open>One eviction step subtracts the size of the entry it drops.\<close>

lemma evict_size:
  assumes "t \<noteq> []" "unat sz = table_bytes t"
  shows "unat (sz - entry_size (last t)) = table_bytes (butlast t)"
proof -
  from assms(1) table_bytes_last have eq: "table_bytes t = table_bytes (butlast t) + entry_bytes (last t)" by blast
  then have "unat (entry_size (last t)) = entry_bytes (last t)"
    using assms(2) unsigned_less [of sz, where 'a = nat] by (intro entry_size_bytes) simp
  with eq assms(2) show ?thesis by (simp add: unat_sub word_le_nat_alt)
qed

lemma evict_for_fit:
  "\<lbrakk>unat sz = table_bytes t; table_bytes t \<le> unat mx; unat mx < 2 ^ 31; unat entry \<le> unat mx\<rbrakk> \<Longrightarrow>
   \<exists>sz'. evict_for t sz mx entry = (fit (unat mx - unat entry) t, sz') \<and>
     unat sz' = table_bytes (fit (unat mx - unat entry) t)"
proof (induction t sz mx entry rule: evict_for.induct)
  case (1 t sz mx entry)
  have add: "unat (sz + entry) = unat sz + unat entry"
    using 1(2-5) by (intro unat_add_no_overflow) simp
  show ?case
  proof (cases "sz + entry > mx")
    case False
    then have "table_bytes t \<le> unat mx - unat entry"
      using add 1(2) by (simp add: word_less_nat_alt)
    with False 1(2) show ?thesis by (subst evict_for.simps) (simp add: fit_all)
  next
    case True
    then have lt: "unat mx - unat entry < table_bytes t" and ne: "t \<noteq> []"
      using add 1(2,5) by (auto simp: word_less_nat_alt)
    have "unat (sz - entry_size (last t)) = table_bytes (butlast t)" by (rule evict_size [OF ne 1(2)])
    moreover have "table_bytes (butlast t) \<le> unat mx" using table_bytes_last [OF ne] 1(3) by simp
    ultimately obtain sz' where
      "evict_for (butlast t) (sz - entry_size (last t)) mx entry = (fit (unat mx - unat entry) (butlast t), sz')"
      "unat sz' = table_bytes (fit (unat mx - unat entry) (butlast t))"
      using 1(1) [OF True ne] 1(4,5) by blast
    then show ?thesis using True ne fit_last [OF ne lt] by (subst evict_for.simps) simp
  qed
qed

lemma evict_to_fit:
  "unat sz = table_bytes t \<Longrightarrow>
   \<exists>sz'. evict_to t sz new = (fit (unat new) t, sz') \<and> unat sz' = table_bytes (fit (unat new) t)"
proof (induction t sz new rule: evict_to.induct)
  case (1 t sz new)
  show ?case
  proof (cases "sz > new")
    case False
    with 1(2) show ?thesis by (subst evict_to.simps) (simp add: fit_all word_less_nat_alt)
  next
    case True
    then have lt: "unat new < table_bytes t" and ne: "t \<noteq> []"
      using 1(2) by (auto simp: word_less_nat_alt)
    from 1(1) [OF True ne evict_size [OF ne 1(2)]] show ?thesis
      using True ne fit_last [OF ne lt] by (subst evict_to.simps) simp
  qed
qed

lemma add_to_dynamic_table_fit:
  assumes inv: "decoder_inv d" and small: "entry_bytes (name, value) < 2 ^ 32"
  shows "dynamic_table (add_to_dynamic_table d name value)
      = fit (unat (max_table_size d)) ((name, value) # dynamic_table d)"
    and "decoder_inv (add_to_dynamic_table d name value)"
    and "max_table_size (add_to_dynamic_table d name value) = max_table_size d"
proof -
  let ?e = "(name, value)" and ?m = "unat (max_table_size d)"
  have sz: "unat (entry_size ?e) = entry_bytes ?e" by (rule entry_size_bytes [OF small])
  have "dynamic_table (add_to_dynamic_table d name value) = fit ?m (?e # dynamic_table d) \<and>
    decoder_inv (add_to_dynamic_table d name value) \<and>
    max_table_size (add_to_dynamic_table d name value) = max_table_size d"
  proof (cases "entry_size ?e > max_table_size d")
    case True
    with inv sz show ?thesis by (simp add: add_to_dynamic_table_def decoder_inv_def word_less_nat_alt)
  next
    case False
    then have le: "entry_bytes ?e \<le> ?m" using sz by (simp add: word_less_nat_alt)
    from inv evict_for_fit [of "dynamic_table_size d" "dynamic_table d" "max_table_size d" "entry_size ?e"] le sz
    obtain s where s: "evict_for (dynamic_table d) (dynamic_table_size d) (max_table_size d) (entry_size ?e)
        = (fit (?m - entry_bytes ?e) (dynamic_table d), s)"
      "unat s = table_bytes (fit (?m - entry_bytes ?e) (dynamic_table d))"
      by (auto simp: decoder_inv_def)
    have "unat s + entry_bytes ?e \<le> ?m"
      using s(2) le table_bytes_fit [of "?m - entry_bytes ?e" "dynamic_table d"] by simp
    moreover have "unat (s + entry_size ?e) = unat s + unat (entry_size ?e)"
      using calculation inv sz by (intro unat_add_no_overflow) (simp add: decoder_inv_def)
    ultimately show ?thesis
      using False s inv le sz by (simp add: add_to_dynamic_table_def Let_def decoder_inv_def)
  qed
  then show "dynamic_table (add_to_dynamic_table d name value) = fit ?m (?e # dynamic_table d)"
    "decoder_inv (add_to_dynamic_table d name value)"
    "max_table_size (add_to_dynamic_table d name value) = max_table_size d" by blast+
qed

lemma resize_table_fit:
  assumes inv: "decoder_inv d" and le: "new \<le> max_table_size d"
  shows "dynamic_table (resize_table d new) = fit (unat new) (dynamic_table d)"
    and "decoder_inv (resize_table d new)"
    and "max_table_size (resize_table d new) = new"
proof -
  from inv obtain s where
    "evict_to (dynamic_table d) (dynamic_table_size d) new = (fit (unat new) (dynamic_table d), s)"
    "unat s = table_bytes (fit (unat new) (dynamic_table d))"
    using evict_to_fit by (metis decoder_inv_def)
  with inv le table_bytes_fit [of "unat new" "dynamic_table d"]
  show "dynamic_table (resize_table d new) = fit (unat new) (dynamic_table d)"
    "decoder_inv (resize_table d new)" "max_table_size (resize_table d new) = new"
    by (simp_all add: resize_table_def decoder_inv_def word_le_nat_alt)
qed

section \<open>The connection's decoder\<close>

lemma huffman_length_lower: "5 * length s \<le> 8 * length (huffman_encode s)"
proof -
  have "5 * length s \<le> length (concat (map code_of s))"
  proof (induction s)
    case (Cons b s)
    have "5 \<le> length (code_of b)"
      using HUFFMAN_TABLE_entry [of b] by (cases "HUFFMAN_TABLE ! unat b") (simp add: length_code_of)
    with Cons show ?case by simp
  qed simp
  moreover obtain k where "8 * length (huffman_encode s) = length (concat (map code_of s)) + k"
    using huffman_encode_bits [of s] by (metis length_append length_bytes_bits)
  ultimately show ?thesis by simp
qed

lemma read_string_length: "read_string buf pos = Inr (s, q) \<Longrightarrow> 5 * length s \<le> 8 * length buf"
proof -
  assume "read_string buf pos = Inr (s, q)"
  then have "\<exists>i j. take i (drop j buf) = s \<or> huffman_decode (take i (drop j buf)) = Inr s"
    by (auto simp: read_string_def Let_def and_then_eq_Inr huffman_result_def split: if_splits sum.splits)
  then obtain i j where "take i (drop j buf) = s \<or> take i (drop j buf) = huffman_encode s"
    using huffman_decode_sound by blast
  moreover have "length (take i (drop j buf)) \<le> length buf" by simp
  ultimately have "length s \<le> length buf \<or> length (huffman_encode s) \<le> length buf" by metis
  then show ?thesis using huffman_length_lower [of s] by auto
qed

lemma static_names_short: "list_all (\<lambda>e. length (fst e) < 100) STATIC_TABLE"
  by (simp add: STATIC_TABLE_def)

lemma table_bytes_nth: "i < length t \<Longrightarrow> entry_bytes (t ! i) \<le> table_bytes t"
  by (metis (no_types, lifting) table_bytes_def elem_le_sum_list length_map nth_map)

lemma lookup_name_short:
  assumes "decoder_inv d" "lookup_index d idx = Inr (n, v)"
  shows "length n < 2 ^ 31"
proof (cases "unat idx \<le> length STATIC_TABLE")
  case True
  with assms(2) have "idx \<noteq> 0" "STATIC_TABLE ! unat (idx - 1) = (n, v)" by (auto simp: lookup_index_def split: if_splits)
  moreover from this True have "unat (idx - 1) < length STATIC_TABLE"
    using unat_minus_one [of idx] unat_eq_0 [of idx] by linarith
  ultimately have "(n, v) \<in> set STATIC_TABLE" by (metis nth_mem)
  with static_names_short show ?thesis by (auto simp: list_all_iff)
next
  case False
  with assms(2) obtain i where "i < length (dynamic_table d)" "dynamic_table d ! i = (n, v)"
    by (auto simp: lookup_index_def Let_def split: if_splits)
  with table_bytes_nth [of i "dynamic_table d"] assms(1) show ?thesis
    by (simp add: entry_bytes_def decoder_inv_def)
qed

lemma read_literal_bytes:
  assumes "decoder_inv d" "length block < 2 ^ 30" "read_literal d block pos n = Inr (e, q)"
  shows "entry_bytes e < 2 ^ 32"
proof -
  from assms(3) have "\<exists>name val p. e = (name, val) \<and> read_string block p = Inr (val, q) \<and>
      ((\<exists>p'. read_string block p' = Inr (name, p)) \<or> (\<exists>idx v. lookup_index d idx = Inr (name, v)))"
    by (auto simp: read_literal_def and_then_eq_Inr split: if_splits) blast+
  then obtain name val p where e: "e = (name, val)" "read_string block p = Inr (val, q)"
    and name: "(\<exists>p'. read_string block p' = Inr (name, p)) \<or> (\<exists>idx v. lookup_index d idx = Inr (name, v))"
    by blast
  from name have "length name < 2 ^ 31"
  proof
    assume "\<exists>p'. read_string block p' = Inr (name, p)"
    then obtain p' where "read_string block p' = Inr (name, p)" ..
    with read_string_length [OF this] assms(2) show ?thesis by simp
  qed (use lookup_name_short [OF assms(1)] in blast)
  with read_string_length [OF e(2)] assms(2) show ?thesis by (simp add: entry_bytes_def e(1))
qed

lemma decode_step_inv [wf_intros]:
  assumes inv: "decoder_inv d" and len: "length block < 2 ^ 30"
    and step: "decode_step d block pos = Inr (hs, q, d')"
  shows "decoder_inv d' \<and> max_table_size d' \<le> max_table_size d"
proof -
  consider "d' = d"
    | nm val p k where "read_literal d block p k = Inr ((nm, val), q)" "d' = add_to_dynamic_table d nm val"
    | new where "new \<le> max_table_size d" "d' = resize_table d new"
    using step by (fastforce simp: decode_step_def Let_def and_then_eq_Inr not_less split: if_splits)
  then show ?thesis
  proof cases
    case 2
    with read_literal_bytes [OF inv len 2(1)] add_to_dynamic_table_fit [OF inv, of nm val] show ?thesis by simp
  next
    case 3
    with resize_table_fit [OF inv 3(1)] show ?thesis by simp
  qed (use inv in simp)
qed

lemma decode_loop_inv:
  "decoder_inv d \<Longrightarrow> length block < 2 ^ 30 \<Longrightarrow>
   decoder_inv (snd (decode_loop_from d block pos out)) \<and>
   max_table_size (snd (decode_loop_from d block pos out)) \<le> max_table_size d"
proof (induction d block pos out rule: decode_loop_from.induct)
  case (1 d block pos out)
  show ?case
  proof (cases "pos < length block")
    case True
    show ?thesis
    proof (cases "decode_step d block pos")
      case (Inl e)
      with True 1(2) show ?thesis by (subst (1 2) decode_loop_from.simps) simp
    next
      case (Inr x)
      then obtain hs q d' where x: "decode_step d block pos = Inr (hs, q, d')" by (cases x) auto
      note d' = decode_step_inv [OF 1(2,3) x]
      from 1(1) [OF True x refl refl] d' 1(3) have
        "decoder_inv (snd (decode_loop_from d' block q (out @ hs))) \<and>
         max_table_size (snd (decode_loop_from d' block q (out @ hs))) \<le> max_table_size d'" by blast
      with True x d' show ?thesis by (subst (1 2) decode_loop_from.simps) auto
    qed
  qed (use 1(2) in \<open>simp add: decode_loop_from.simps\<close>)
qed

text \<open>
  C24: The byte count of the dynamic table is exact and within the table's limit after every header
  block, whether it was accepted or rejected half-way, and no block raises the limit. Stated for
  limits below 2^31 and blocks below 2^30 bytes, where the u32 sums cannot wrap.
\<close>

theorem decoder_invariant:
  assumes "decoder_inv d" and "length block < 2 ^ 30"
  shows "decoder_inv (snd (decode_headers d block)) \<and>
    max_table_size (snd (decode_headers d block)) \<le> max_table_size d"
  unfolding decode_headers_def using assms by (rule decode_loop_inv)

text \<open>
  C35: The table operations implement the abstract dynamic table. Adding an entry keeps the longest
  run of newest entries that fits, the new entry first, and empties the table when the entry alone
  does not fit; a size update cuts the table to the longest run that fits the new limit.
\<close>

theorem dynamic_table_refines_fit:
  assumes "decoder_inv d" and "entry_bytes (name, value) < 2 ^ 32" and "new \<le> max_table_size d"
  shows "dynamic_table (add_to_dynamic_table d name value)
      = fit (unat (max_table_size d)) ((name, value) # dynamic_table d) \<and>
    dynamic_table (resize_table d new) = fit (unat new) (dynamic_table d)"
  using add_to_dynamic_table_fit [OF assms(1,2)] resize_table_fit [OF assms(1,3)] by blast

section \<open>Length bloat\<close>


lemma bloat_pow: "(bloat_once ^^ k) [x, r] = x # replicate k 0x80 @ [r]"
proof (induction k)
  case (Suc k)
  have "x # replicate k 0x80 @ [0x80, r] = x # replicate (Suc k) 0x80 @ [r]"
    by (simp add: replicate_append_same [symmetric] del: replicate_Suc) (simp add: replicate_app_Cons_same)
  with Suc show ?case by (simp add: bloat_once_def butlast_append)
qed simp

lemma read_filler:
  "s + 7 * k < 32 \<Longrightarrow>
   read_continuation (pre @ replicate k 0x80 @ rest) (length pre) v (of_nat s)
     = read_continuation (pre @ replicate k 0x80 @ rest) (length pre + k) v (of_nat (s + 7 * k))"
proof (induction k arbitrary: s pre)
  case (Suc k)
  have sh: "checked_add (of_nat s) 7 = Some (of_nat (s + 7))"
    using Suc.prems by (simp add: checked_add_def unat_of_nat take_bit_nat_eq_self)
  have "read_continuation (pre @ replicate (Suc k) 0x80 @ rest) (length pre) v (of_nat s)
      = read_continuation ((pre @ [0x80]) @ replicate k 0x80 @ rest) (length (pre @ [0x80])) v (of_nat (s + 7))"
    using Suc.prems checked_shl_Some [of s 0] checked_add_Some [of v 0] unsigned_less [of v, where 'a = nat]
    by (simp add: read_continuation.simps [of "pre @ 0x80 # _" "length pre"] nth_append sh del: of_nat_add)
  also have "\<dots> = read_continuation ((pre @ [0x80]) @ replicate k 0x80 @ rest) (length (pre @ [0x80]) + k) v (of_nat (s + 7 + 7 * k))"
    using Suc.prems by (intro Suc.IH) simp
  finally show ?case by (simp add: algebra_simps)
qed simp

text \<open>
  What a bloated length really says. For a value whose minimal form has one continuation byte,
  \<open>b\<close> filler bytes are inserted below the terminator, so a decoder reads the excess over the prefix
  multiplied by \<open>128 ^ b\<close>: the encoding is of another number, not an overlong form of the same one,
  unless the excess is zero.
\<close>

theorem length_bloat_scales:
  assumes "0 < n" "n \<le> 7" "take_bit n pat = 0" and "b \<le> 3" and "mask n \<le> v" "v < mask n + 128"
  shows "read_integer (write_integer [] v n pat b) 0 n
    = Inr (mask n + (v - mask n) * 128 ^ unat b, 2 + unat b)"
proof -
  let ?r = "v - mask n" and ?k = "unat b"
  let ?x = "pat OR ucast (mask n :: u32)"
  have m: "unat (mask n :: u32) < 2 ^ 7"
    using assms(2) mask_lt [of n] power_increasing [of n 7 "2 :: nat"]
    by (simp add: word_less_nat_alt unat_exp)
  have k: "?k \<le> 3" using assms(4) by (simp add: word_le_nat_alt)
  have "unat (mask n + 128 :: u32) = unat (mask n :: u32) + 128"
    using m by (subst unat_add_no_overflow) simp_all
  then have r: "unat ?r < 128"
    using assms(5,6) by (simp add: unat_sub word_le_nat_alt word_less_nat_alt)
  then have cont: "write_continuation [] ?r = [ucast ?r]"
    by (simp add: write_continuation_rec word_le_nat_alt)
  have w: "write_integer [] v n pat b = ?x # replicate ?k 0x80 @ [ucast ?r]"
    using assms(5) cont write_continuation_append [of "[?x]" ?r]
    by (simp add: write_integer_eq bloat_pow not_less)
  have p2: "(2 :: nat) ^ (7 * ?k) \<le> 2 ^ 21" using k by (intro power_increasing) simp_all
  have "unat ?r * 2 ^ (7 * ?k) \<le> 127 * 2 ^ 21" using r p2 by (intro mult_le_mono) simp_all
  with m have "unat (mask n :: u32) + unat ?r * 2 ^ (7 * ?k) < 2 ^ 32" by simp
  with k have "read_continuation (([?x] @ replicate ?k 0x80) @ write_continuation [] ?r @ [])
      (length ([?x] @ replicate ?k 0x80)) (mask n) (of_nat (7 * ?k))
    = Inr (mask n + of_nat (unat ?r * 2 ^ (7 * ?k)), length ([?x] @ replicate ?k 0x80) + length (write_continuation [] ?r))"
    by (intro read_write_continuation) simp_all
  moreover have "(2 :: u32) ^ (7 * ?k) = 128 ^ ?k" by (simp add: power_mult)
  ultimately have "read_continuation ([?x] @ replicate ?k 0x80 @ [ucast ?r]) (length [?x] + ?k) (mask n) (of_nat (0 + 7 * ?k))
    = Inr (mask n + ?r * 128 ^ ?k, 2 + ?k)" by (simp add: cont)
  then have "read_continuation ([?x] @ replicate ?k 0x80 @ [ucast ?r]) (length [?x]) (mask n) (of_nat 0)
    = Inr (mask n + ?r * 128 ^ ?k, 2 + ?k)"
    using k by (subst read_filler) simp_all
  then show ?thesis
    using prefix_byte [OF _ assms(3) mask_lt] assms(2) by (simp add: w read_integer_eq)
qed

text \<open>The loop unrolled at literal positions, to evaluate short encodings.\<close>

lemmas read_continuation_at =
  read_continuation.simps [of _ "Suc 0"] read_continuation.simps [of _ 1] read_continuation.simps [of _ 2]
  read_continuation.simps [of _ 3] read_continuation.simps [of _ 4] read_continuation.simps [of _ 5]

lemmas decode_eval = decode_headers_def decode_step_def read_integer_def read_continuation_at
  numeral_2_eq_2 [symmetric] checked_add_def checked_shl_def resize_table_def evict_to.simps decoder_new_def

text \<open>An integer whose fifth continuation byte has bits above the word is accepted, the bits lost.\<close>

lemma high_bits_dropped: "read_integer [0xFF, 0x80, 0x80, 0x80, 0x80, 0x10] 0 7 = Inr (127, 6)"
  by (simp add: decode_eval)

text \<open>After a size update to 0 an update back to the announced 4096 is rejected.\<close>

lemma table_growth_rejected:
  "fst (decode_headers decoder_new [0x20, 0x3f, 0xe1, 0x1f]) = Inl (TableSizeTooLarge 4096 0)"
  by (simp add: decode_eval decode_loop_from.simps [of _ _ 0] decode_loop_from.simps [of _ _ "Suc 0"])

section \<open>The properties at concrete inputs\<close>

lemma hpack_block_roundtrip_witness:
  "\<exists>block. encode_headers [header_new (str_bytes ''a'') (str_bytes ''b'')] = Inr block \<and>
    decode_headers decoder_new block = (Inr [(str_bytes ''a'', str_bytes ''b'')],
      add_to_dynamic_table decoder_new (str_bytes ''a'') (str_bytes ''b''))"
proof -
  let ?h = "header_new (str_bytes ''a'') (str_bytes ''b'')"
  have "header_accepted ?h"
    by (simp add: header_accepted_def header_new_def is_name_valid_def is_value_valid_def
        is_lowercase_token_char_def str_bytes_def)
  then obtain block where b: "encode_headers [?h] = Inr block"
    by (simp add: encode_headers_accepted)
  have "plain_lengths ?h"
    using huffman_encoded_len_le [of "str_bytes ''a''"] huffman_encoded_len_le [of "str_bytes ''b''"]
      huffman_encoded_len_eq [of "str_bytes ''a''"] huffman_encoded_len_eq [of "str_bytes ''b''"]
    by (simp add: plain_lengths_def header_new_def string_payload_def)
  with hpack_block_roundtrip [OF b, of decoder_new] b show ?thesis
    by (simp add: sent_header_def index_header_def header_new_def)
qed

lemma decoder_new_inv: "decoder_inv decoder_new"
  by (simp add: decoder_inv_def decoder_new_def)

lemma decoder_invariant_witness:
  "decoder_inv (snd (decode_headers decoder_new [0x40, 1, 0x61, 1, 0x62, 0x80])) \<and>
   max_table_size (snd (decode_headers decoder_new [0x40, 1, 0x61, 1, 0x62, 0x80])) \<le> 4096"
  using decoder_invariant [OF decoder_new_inv, of "[0x40, 1, 0x61, 1, 0x62, 0x80]"]
  by (simp add: decoder_new_def)

lemma dynamic_table_refines_fit_witness:
  "dynamic_table (add_to_dynamic_table (with_max_table_size 40) [1] [2]) = [([1], [2])] \<and>
   dynamic_table (resize_table (with_max_table_size 40) 7) = []"
proof -
  have "decoder_inv (with_max_table_size 40)"
    by (simp add: decoder_inv_def with_max_table_size_def decoder_new_def)
  from dynamic_table_refines_fit [OF this, of "[1]" "[2]" 7] show ?thesis
    by (simp add: entry_bytes_def with_max_table_size_def decoder_new_def)
qed

lemma length_bloat_scales_witness:
  "read_integer (write_integer [] 200 7 0 1) 0 7 = Inr (9471, 3) \<and> (9471 :: u32) \<noteq> 200"
  using length_bloat_scales [of 7 0 1 200] by (simp add: mask_eq_exp_minus_1)

end
