(* ===== verification/H2_Frame.thy ===== *)
theory H2_Frame
  imports Hpack
begin

text \<open>
  HTTP/2 frame builders, \<^verbatim>\<open>src/h2/frame.rs\<close>. A builder's result is \<open>None\<close> where
  the code panics, which is the assertion of \<open>build_raw_frame\<close> on the payload length.

  The reader \<open>read_frame\<close> and the payload views are the reference: what RFC 9113 says a frame
  means. Lemmas: every builder's output reads back as the frame asked for.
\<close>

section \<open>Constants\<close>

definition PREFACE :: bytes where
  "PREFACE = str_bytes (''PRI * HTTP/2.0'' @ [CHR 0x0D, CHR 0x0A, CHR 0x0D, CHR 0x0A] @ ''SM'' @
     [CHR 0x0D, CHR 0x0A, CHR 0x0D, CHR 0x0A])"

definition FRAME_DATA :: u8 where "FRAME_DATA = 0x00"
definition FRAME_HEADERS :: u8 where "FRAME_HEADERS = 0x01"
definition FRAME_PRIORITY :: u8 where "FRAME_PRIORITY = 0x02"
definition FRAME_RST_STREAM :: u8 where "FRAME_RST_STREAM = 0x03"
definition FRAME_SETTINGS :: u8 where "FRAME_SETTINGS = 0x04"
definition FRAME_PING :: u8 where "FRAME_PING = 0x06"
definition FRAME_GOAWAY :: u8 where "FRAME_GOAWAY = 0x07"
definition FRAME_WINDOW_UPDATE :: u8 where "FRAME_WINDOW_UPDATE = 0x08"
definition FRAME_CONTINUATION :: u8 where "FRAME_CONTINUATION = 0x09"
definition FLAG_END_STREAM :: u8 where "FLAG_END_STREAM = 0x01"
definition FLAG_ACK :: u8 where "FLAG_ACK = 0x01"
definition FLAG_END_HEADERS :: u8 where "FLAG_END_HEADERS = 0x04"
definition FLAG_PADDED :: u8 where "FLAG_PADDED = 0x08"
definition FLAG_PRIORITY :: u8 where "FLAG_PRIORITY = 0x20"

lemmas flag_defs = FLAG_END_STREAM_def FLAG_ACK_def FLAG_END_HEADERS_def FLAG_PADDED_def FLAG_PRIORITY_def

section \<open>Builders\<close>

definition build_raw_frame :: "u8 \<Rightarrow> u8 \<Rightarrow> u32 \<Rightarrow> bytes \<Rightarrow> bytes option" where
  "build_raw_frame frame_type flags stream_id payload =
     (let len = length payload in
      if \<not> len < 2 ^ 24 then None
      else (let sid = stream_id AND 0x7FFFFFFF in
            Some ([of_nat (drop_bit 16 len AND 0xFF), of_nat (drop_bit 8 len AND 0xFF), of_nat (len AND 0xFF)]
              @ [frame_type, flags]
              @ [ucast (drop_bit 24 sid AND 0xFF), ucast (drop_bit 16 sid AND 0xFF),
                 ucast (drop_bit 8 sid AND 0xFF), ucast (sid AND 0xFF)]
              @ payload)))"

definition settings_payload :: "(u16 \<times> u32) list \<Rightarrow> bytes" where
  "settings_payload settings = foldl (\<lambda>payload (id, val).
     payload @ [ucast (drop_bit 8 id)] @ [ucast id] @ u32_be val) [] settings"

definition build_settings_frame :: "(u16 \<times> u32) list \<Rightarrow> bool \<Rightarrow> bytes option" where
  "build_settings_frame settings ack =
     build_raw_frame FRAME_SETTINGS (if ack then FLAG_ACK else 0) 0 (settings_payload settings)"

record headers_frame_opts =
  hf_header_block :: bytes
  hf_stream_id :: u32
  hf_end_stream :: bool
  hf_end_headers :: bool
  hf_padding :: u8
  hf_priority :: "(u32 \<times> u8 \<times> bool) option"

definition dependency_word :: "u32 \<Rightarrow> bool \<Rightarrow> u32" where
  "dependency_word dep exclusive =
     (let dep_word = dep AND 0x7FFFFFFF in if exclusive then dep_word OR 0x80000000 else dep_word)"

definition headers_payload :: "headers_frame_opts \<Rightarrow> bytes" where
  "headers_payload opts =
     (let payload = (if hf_padding opts > 0 then [hf_padding opts] else []);
          payload = (case hf_priority opts of
            Some (dep, weight, exclusive) \<Rightarrow> payload @ u32_be (dependency_word dep exclusive) @ [weight]
          | None \<Rightarrow> payload);
          payload = payload @ hf_header_block opts
      in payload @ replicate (unat (hf_padding opts)) 0)"

definition headers_flags :: "headers_frame_opts \<Rightarrow> u8" where
  "headers_flags opts =
     (let flags = 0;
          flags = (if hf_end_stream opts then flags OR FLAG_END_STREAM else flags);
          flags = (if hf_end_headers opts then flags OR FLAG_END_HEADERS else flags);
          flags = (if hf_padding opts > 0 then flags OR FLAG_PADDED else flags)
      in if hf_priority opts \<noteq> None then flags OR FLAG_PRIORITY else flags)"

definition build_headers_frame :: "headers_frame_opts \<Rightarrow> bytes option" where
  "build_headers_frame opts =
     build_raw_frame FRAME_HEADERS (headers_flags opts) (hf_stream_id opts) (headers_payload opts)"

definition build_continuation_frame :: "bytes \<Rightarrow> u32 \<Rightarrow> bool \<Rightarrow> bytes option" where
  "build_continuation_frame header_block stream_id end_headers =
     build_raw_frame FRAME_CONTINUATION (if end_headers then FLAG_END_HEADERS else 0) stream_id header_block"

definition data_payload :: "bytes \<Rightarrow> u8 \<Rightarrow> bytes" where
  "data_payload data padding =
     (let payload = (if padding > 0 then [padding] else []);
          payload = payload @ data
      in payload @ replicate (unat padding) 0)"

definition build_data_frame :: "bytes \<Rightarrow> u32 \<Rightarrow> bool \<Rightarrow> u8 \<Rightarrow> bytes option" where
  "build_data_frame data stream_id end_stream padding =
     (let flags = 0;
          flags = (if end_stream then flags OR FLAG_END_STREAM else flags);
          flags = (if padding > 0 then flags OR FLAG_PADDED else flags)
      in build_raw_frame FRAME_DATA flags stream_id (data_payload data padding))"

definition build_window_update_frame :: "u32 \<Rightarrow> u32 \<Rightarrow> bytes option" where
  "build_window_update_frame increment stream_id =
     build_raw_frame FRAME_WINDOW_UPDATE 0 stream_id (u32_be increment)"

definition build_ping_frame :: "bytes \<Rightarrow> bool \<Rightarrow> bytes option" where
  "build_ping_frame data ack = build_raw_frame FRAME_PING (if ack then FLAG_ACK else 0) 0 data"

definition build_rst_stream_frame :: "u32 \<Rightarrow> u32 \<Rightarrow> bytes option" where
  "build_rst_stream_frame stream_id error_code =
     build_raw_frame FRAME_RST_STREAM 0 stream_id (u32_be error_code)"

definition build_goaway_frame :: "u32 \<Rightarrow> u32 \<Rightarrow> bytes \<Rightarrow> bytes option" where
  "build_goaway_frame last_stream_id error_code debug_data =
     build_raw_frame FRAME_GOAWAY 0 0
       (u32_be (last_stream_id AND 0x7FFFFFFF) @ u32_be error_code @ debug_data)"

definition build_priority_frame :: "u32 \<Rightarrow> u32 \<Rightarrow> u8 \<Rightarrow> bool \<Rightarrow> bytes option" where
  "build_priority_frame stream_id dep_stream weight exclusive =
     build_raw_frame FRAME_PRIORITY 0 stream_id (u32_be (dependency_word dep_stream exclusive) @ [weight])"

section \<open>Reading frames back\<close>

record frame =
  f_type :: u8
  f_flags :: u8
  f_stream :: u32
  f_payload :: bytes

datatype frame_error = Truncated nat

definition read_frame :: "bytes \<Rightarrow> nat \<Rightarrow> frame_error + frame \<times> nat" where
  "read_frame buf pos =
     (if length buf < pos + 9 then Inl (Truncated pos)
      else (let len = unat (be_u32 (take 3 (drop pos buf))); end = pos + 9 + len in
            if length buf < end then Inl (Truncated pos)
            else Inr (\<lparr>f_type = buf ! (pos + 3), f_flags = buf ! (pos + 4),
                       f_stream = be_u32 (take 4 (drop (pos + 5) buf)) AND 0x7FFFFFFF,
                       f_payload = take len (drop (pos + 9) buf)\<rparr>, end)))"

text \<open>The bytes of a frame within the limits of the format.\<close>

definition frame_bytes :: "frame \<Rightarrow> bytes" where
  "frame_bytes f = (case build_raw_frame (f_type f) (f_flags f) (f_stream f) (f_payload f) of
     None \<Rightarrow> [] | Some bs \<Rightarrow> bs)"

definition frame_ok :: "frame \<Rightarrow> bool" where
  "frame_ok f \<longleftrightarrow> length (f_payload f) < 2 ^ 24 \<and> f_stream f AND 0x7FFFFFFF = f_stream f"

lemma build_raw_frame_eq:
  "build_raw_frame ty fl sid p = (if length p < 2 ^ 24
     then Some (frame_bytes \<lparr>f_type = ty, f_flags = fl, f_stream = sid AND 0x7FFFFFFF, f_payload = p\<rparr>)
     else None)"
proof -
  have "(sid AND 0x7FFFFFFF) AND 0x7FFFFFFF = sid AND 0x7FFFFFFF" by (simp add: and.assoc)
  then show ?thesis by (simp add: build_raw_frame_def frame_bytes_def Let_def)
qed

lemma stream_id_mask [simp]: "(sid AND 0x7FFFFFFF) AND 0x7FFFFFFF = (sid AND 0x7FFFFFFF :: u32)"
  by (simp add: and.assoc)

lemma u24_be:
  assumes "n < 2 ^ 24"
  shows "be_u32 [of_nat (drop_bit 16 n AND 0xFF), of_nat (drop_bit 8 n AND 0xFF), of_nat (n AND 0xFF)] = of_nat n"
proof (rule bit_word_eqI)
  fix i :: nat assume i: "i < LENGTH(32)"
  have hi: "bit n i \<Longrightarrow> i < 24" using assms by (metis bit_take_bit_iff take_bit_nat_eq_self)
  have ff: "(0xFF :: nat) = mask 8" by (simp add: mask_eq_exp_minus_1)
  consider "i < 8" | "8 \<le> i \<and> i < 16" | "16 \<le> i" by linarith
  then show "bit (be_u32 [of_nat (drop_bit 16 n AND 0xFF), of_nat (drop_bit 8 n AND 0xFF), of_nat (n AND 0xFF)]) i
      = bit (of_nat n :: u32) i"
    using i unfolding ff by cases (auto simp: be_u32_def bit_simps dest: hi)
qed

lemma sid_be:
  "[ucast (drop_bit 24 w AND 0xFF), ucast (drop_bit 16 w AND 0xFF), ucast (drop_bit 8 w AND 0xFF), ucast (w AND 0xFF)]
    = u32_be w"
proof -
  have "(ucast (x AND 0xFF) :: u8) = ucast x" for x :: u32
  proof (rule bit_word_eqI)
    have ff: "(0xFF :: u32) = mask 8" by (simp add: mask_eq_exp_minus_1)
    fix i :: nat assume "i < LENGTH(8)"
    then show "bit (ucast (x AND 0xFF) :: u8) i = bit (ucast x :: u8) i" unfolding ff by (simp add: bit_simps)
  qed
  then show ?thesis by (simp add: u32_be_def)
qed

lemma frame_bytes_ok:
  assumes "frame_ok f"
  shows "frame_bytes f = [of_nat (drop_bit 16 (length (f_payload f)) AND 0xFF),
      of_nat (drop_bit 8 (length (f_payload f)) AND 0xFF), of_nat (length (f_payload f) AND 0xFF)]
    @ [f_type f, f_flags f] @ u32_be (f_stream f) @ f_payload f"
proof -
  have s: "f_stream f AND 0x7FFFFFFF = f_stream f" "length (f_payload f) < 2 ^ 24"
    using assms by (simp_all add: frame_ok_def)
  show ?thesis using s(2) by (simp add: frame_bytes_def build_raw_frame_def Let_def s(1) flip: sid_be)
qed

lemma length_frame_bytes: "frame_ok f \<Longrightarrow> length (frame_bytes f) = 9 + length (f_payload f)"
  by (simp add: frame_bytes_ok)

lemma read_frame_bytes:
  assumes "frame_ok f"
  shows "read_frame (pre @ frame_bytes f @ post) (length pre) = Inr (f, length pre + length (frame_bytes f))"
proof -
  let ?p = "f_payload f"
  let ?l = "[of_nat (drop_bit 16 (length ?p) AND 0xFF), of_nat (drop_bit 8 (length ?p) AND 0xFF), of_nat (length ?p AND 0xFF)] :: bytes"
  let ?buf = "pre @ frame_bytes f @ post"
  have p: "length ?p < 2 ^ 24" "f_stream f AND 0x7FFFFFFF = f_stream f" using assms by (simp_all add: frame_ok_def)
  have buf: "?buf = pre @ ?l @ [f_type f, f_flags f] @ u32_be (f_stream f) @ ?p @ post"
    by (simp add: frame_bytes_ok [OF assms])
  have len: "unat (be_u32 (take 3 (drop (length pre) ?buf))) = length ?p"
    unfolding buf using p(1) by (simp add: u24_be unat_of_nat take_bit_nat_eq_self del: One_nat_def)
  have sid: "be_u32 (take 4 (drop (length pre + 5) ?buf)) = f_stream f"
    unfolding buf by simp
  have rest: "take (length ?p) (drop (length pre + 9) ?buf) = ?p"
    unfolding buf by simp
  have "?buf ! (length pre + 3) = f_type f" "?buf ! (length pre + 4) = f_flags f"
    unfolding buf by (simp_all add: nth_append numeral_eq_Suc)
  then show ?thesis
    using len sid rest p(2) length_frame_bytes [OF assms] by (simp add: read_frame_def Let_def)
qed

interpretation h2_frame: wire_item frame_bytes read_frame frame_ok
  by unfold_locales (rule read_frame_bytes)


section \<open>Payloads read back\<close>

definition has_flag :: "u8 \<Rightarrow> u8 \<Rightarrow> bool" where
  "has_flag fl m \<longleftrightarrow> fl AND m \<noteq> 0"

text \<open>DATA and HEADERS payloads without their padding (RFC 9113 6.1, 6.2).\<close>

definition unpad :: "u8 \<Rightarrow> bytes \<Rightarrow> bytes option" where
  "unpad fl p = (if \<not> has_flag fl FLAG_PADDED then Some p
     else (case p of [] \<Rightarrow> None
           | n # r \<Rightarrow> if unat n \<le> length r then Some (take (length r - unat n) r) else None))"

definition split_priority :: "u8 \<Rightarrow> bytes \<Rightarrow> ((u32 \<times> u8 \<times> bool) option \<times> bytes) option" where
  "split_priority fl p = (if \<not> has_flag fl FLAG_PRIORITY then Some (None, p)
     else if length p < 5 then None
     else (let w = be_u32 (take 4 p) in Some (Some (w AND 0x7FFFFFFF, p ! 4, bit w 31), drop 5 p)))"

definition headers_view :: "u8 \<Rightarrow> bytes \<Rightarrow> ((u32 \<times> u8 \<times> bool) option \<times> bytes) option" where
  "headers_view fl p = Option.bind (unpad fl p) (split_priority fl)"

fun settings_view :: "bytes \<Rightarrow> (u16 \<times> u32) list option" where
  "settings_view [] = Some []"
| "settings_view (a # b # c # d # e # f # r) =
     map_option (\<lambda>s. (push_bit 8 (ucast a) OR ucast b, be_u32 [c, d, e, f]) # s) (settings_view r)"
| "settings_view _ = None"

lemma headers_flags_view [simp]:
  "has_flag (headers_flags opts) FLAG_END_STREAM \<longleftrightarrow> hf_end_stream opts"
  "has_flag (headers_flags opts) FLAG_END_HEADERS \<longleftrightarrow> hf_end_headers opts"
  "has_flag (headers_flags opts) FLAG_PADDED \<longleftrightarrow> hf_padding opts \<noteq> 0"
  "has_flag (headers_flags opts) FLAG_PRIORITY \<longleftrightarrow> hf_priority opts \<noteq> None"
  by (auto simp: has_flag_def headers_flags_def flag_defs Let_def word_gt_0 bit.conj_disj_distrib2)

lemma unpad_padded:
  "has_flag fl FLAG_PADDED \<longleftrightarrow> n \<noteq> 0 \<Longrightarrow>
   unpad fl ((if n > 0 then [n] else []) @ body @ replicate (unat n) 0) = Some body"
  by (cases "n = 0") (auto simp: unpad_def word_gt_0)

lemma bit_top_flag: "bit (0x80000000 :: 'a::semiring_bit_operations) n \<longleftrightarrow> possible_bit TYPE('a) 31 \<and> n = 31"
proof -
  have "(0x80000000 :: 'a) = 2 ^ 31" by simp
  then show ?thesis by (simp only: bit_exp_iff) auto
qed

lemma dependency_word_view:
  "dependency_word dep ex AND 0x7FFFFFFF = dep AND 0x7FFFFFFF" "bit (dependency_word dep ex) 31 = ex"
proof -
  have m: "(0x7FFFFFFF :: u32) = mask 31" by (simp add: mask_eq_exp_minus_1)
  note b = bit_top_flag
  show "dependency_word dep ex AND 0x7FFFFFFF = dep AND 0x7FFFFFFF"
    unfolding dependency_word_def Let_def m by (rule bit_word_eqI) (auto simp: bit_simps b)
  show "bit (dependency_word dep ex) 31 = ex"
    unfolding dependency_word_def Let_def m by (auto simp: bit_simps b)
qed

lemma u32_be_append: "take 4 (u32_be w @ r) = u32_be w" "drop 4 (u32_be w @ r) = r"
  by (simp_all add: u32_be_def)

lemma headers_payload_view:
  "headers_view (headers_flags opts) (headers_payload opts)
   = Some (map_option (\<lambda>(dep, w, ex). (dep AND 0x7FFFFFFF, w, ex)) (hf_priority opts), hf_header_block opts)"
proof -
  define prio where "prio = (case hf_priority opts of
      Some (dep, w, ex) \<Rightarrow> u32_be (dependency_word dep ex) @ [w] | None \<Rightarrow> [])"
  have "headers_payload opts = (if hf_padding opts > 0 then [hf_padding opts] else []) @
      (prio @ hf_header_block opts) @ replicate (unat (hf_padding opts)) 0"
    by (simp add: headers_payload_def prio_def Let_def split: option.splits prod.splits)
  then have "unpad (headers_flags opts) (headers_payload opts) = Some (prio @ hf_header_block opts)"
    using unpad_padded [of "headers_flags opts" "hf_padding opts" "prio @ hf_header_block opts"]
    by (simp only: headers_flags_view)
  moreover have "split_priority (headers_flags opts) (prio @ hf_header_block opts) = Some (map_option
      (\<lambda>(dep, w, ex). (dep AND 0x7FFFFFFF, w, ex)) (hf_priority opts), hf_header_block opts)"
  proof (cases "hf_priority opts")
    case None
    then show ?thesis by (simp add: split_priority_def prio_def)
  next
    case (Some x)
    then obtain dep w ex where x: "hf_priority opts = Some (dep, w, ex)" by (cases x) auto
    then have "drop 5 (prio @ hf_header_block opts) = hf_header_block opts" "(prio @ hf_header_block opts) ! 4 = w"
      "length (prio @ hf_header_block opts) \<ge> 5" by (simp_all add: prio_def u32_be_def)
    with x show ?thesis
      by (simp add: split_priority_def prio_def Let_def u32_be_append dependency_word_view not_less)
  qed
  ultimately show ?thesis by (simp add: headers_view_def)
qed

lemma data_payload_view:
  "has_flag fl FLAG_PADDED \<longleftrightarrow> n \<noteq> 0 \<Longrightarrow> unpad fl (data_payload body n) = Some body"
  using unpad_padded by (simp add: data_payload_def Let_def)

lemma u16_be_join: "push_bit 8 (ucast (ucast (drop_bit 8 w) :: u8) :: u16) OR ucast (ucast w :: u8) = w"
proof (rule bit_word_eqI)
  fix i :: nat assume "i < LENGTH(16)"
  then show "bit (push_bit 8 (ucast (ucast (drop_bit 8 w) :: u8) :: u16) OR ucast (ucast w :: u8)) i = bit w i"
    by (cases "i < 8") (auto simp: bit_simps)
qed

lemma settings_payload_view: "settings_view (settings_payload s) = Some s"
proof -
  have fold: "foldl (\<lambda>payload (id, val). payload @ [ucast (drop_bit 8 id)] @ [ucast id] @ u32_be val) acc s
    = acc @ concat (map (\<lambda>(id, val). [ucast (drop_bit 8 id), ucast id] @ u32_be val) s)" for acc :: bytes and s :: "(u16 \<times> u32) list"
    by (induction s arbitrary: acc) auto
  have "settings_view (concat (map (\<lambda>(id, val). [ucast (drop_bit 8 id), ucast id] @ u32_be val) s)) = Some s"
  proof (induction s)
    case (Cons x s)
    obtain id val where x: "x = (id, val)" by fastforce
    have "be_u32 [ucast (drop_bit 24 val), ucast (drop_bit 16 val), ucast (drop_bit 8 val), ucast val] = val"
      by (simp flip: u32_be_def)
    with Cons show ?case by (simp add: x u32_be_def u16_be_join)
  qed simp
  then show ?thesis unfolding settings_payload_def fold by simp
qed

section \<open>Properties\<close>

text \<open>
  A HEADERS frame for any padding and priority reads back as asked: frame type, stream, the
  END_STREAM and END_HEADERS flags, the priority fields and exactly the header block fragment, with
  padding and pad length removed. The builder panics only on a payload of 2^24 bytes or more.
\<close>

theorem headers_frame_roundtrip:
  assumes "build_headers_frame opts = Some bs"
  shows "\<exists>f. read_frame (pre @ bs @ post) (length pre) = Inr (f, length pre + length bs) \<and>
    f_type f = FRAME_HEADERS \<and> f_stream f = hf_stream_id opts AND 0x7FFFFFFF \<and>
    has_flag (f_flags f) FLAG_END_STREAM = hf_end_stream opts \<and>
    has_flag (f_flags f) FLAG_END_HEADERS = hf_end_headers opts \<and>
    headers_view (f_flags f) (f_payload f) = Some
      (map_option (\<lambda>(dep, w, ex). (dep AND 0x7FFFFFFF, w, ex)) (hf_priority opts), hf_header_block opts)"
proof -
  define f where "f = \<lparr>f_type = FRAME_HEADERS, f_flags = headers_flags opts,
    f_stream = hf_stream_id opts AND 0x7FFFFFFF, f_payload = headers_payload opts\<rparr>"
  from assms have bs: "bs = frame_bytes f" and "frame_ok f"
    by (simp_all add: build_headers_frame_def build_raw_frame_eq f_def frame_ok_def split: if_splits)
  from h2_frame.dec_enc [OF this(2), of pre post] bs show ?thesis
    by (intro exI [of _ f]) (simp add: f_def headers_payload_view)
qed

lemma headers_frame_roundtrip_witness:
  "\<exists>bs f. build_headers_frame \<lparr>hf_header_block = [0x82], hf_stream_id = 1, hf_end_stream = True,
      hf_end_headers = True, hf_padding = 2, hf_priority = Some (3, 16, True)\<rparr> = Some bs \<and>
    read_frame bs 0 = Inr (f, length bs) \<and> headers_view (f_flags f) (f_payload f) = Some (Some (3, 16, True), [0x82])"
proof -
  let ?o = "\<lparr>hf_header_block = [0x82], hf_stream_id = 1, hf_end_stream = True,
      hf_end_headers = True, hf_padding = 2, hf_priority = Some (3, 16, True)\<rparr>"
  obtain bs where bs: "build_headers_frame ?o = Some bs"
    by (simp add: build_headers_frame_def build_raw_frame_eq headers_payload_def u32_be_def)
  from headers_frame_roundtrip [OF this, of "[]" "[]"] bs show ?thesis by auto
qed

text \<open>The SETTINGS builder loses nothing: reading the frame's payload gives the identifier and
  value pairs back in order, and an acknowledgement is marked as one.\<close>

theorem settings_frame_roundtrip:
  assumes "build_settings_frame settings ack = Some bs"
  shows "\<exists>f. read_frame (pre @ bs @ post) (length pre) = Inr (f, length pre + length bs) \<and>
    f_type f = FRAME_SETTINGS \<and> f_stream f = 0 \<and> has_flag (f_flags f) FLAG_ACK = ack \<and>
    settings_view (f_payload f) = Some settings"
proof -
  define f where "f = \<lparr>f_type = FRAME_SETTINGS, f_flags = (if ack then FLAG_ACK else 0),
    f_stream = 0, f_payload = settings_payload settings\<rparr>"
  from assms have bs: "bs = frame_bytes f" and "frame_ok f"
    by (simp_all add: build_settings_frame_def build_raw_frame_eq f_def frame_ok_def split: if_splits)
  from h2_frame.dec_enc [OF this(2), of pre post] bs show ?thesis
    by (intro exI [of _ f]) (simp add: f_def settings_payload_view has_flag_def flag_defs)
qed

lemma settings_frame_roundtrip_witness:
  "\<exists>bs f. build_settings_frame [(1, 4096), (3, 100)] False = Some bs \<and>
    read_frame bs 0 = Inr (f, length bs) \<and> settings_view (f_payload f) = Some [(1, 4096), (3, 100)]"
proof -
  obtain bs where bs: "build_settings_frame [(1, 4096), (3, 100)] False = Some bs"
    by (simp add: build_settings_frame_def build_raw_frame_eq settings_payload_def u32_be_def)
  from settings_frame_roundtrip [OF this, of "[]" "[]"] bs show ?thesis by auto
qed

end
