(* ===== verification/H2_Probe.thy ===== *)
theory H2_Probe
  imports H2_Frame
begin

text \<open>
  The probe builder, \<^verbatim>\<open>src/h2/probe.rs\<close>: preface, SETTINGS, HEADERS with an optional
  CONTINUATION, optional DATA. \<open>None\<close> is the panic of an oversized frame.

  The reference is a reader of one request from a frame sequence. Lemmas: the bytes of a probe are
  its preface and frames, and a server that reads them sees the request that was asked for.
\<close>

section \<open>The builder\<close>

record probe_opts =
  send_preface :: bool
  preface_override :: "bytes option"
  po_settings :: "(u16 \<times> u32) list option"
  po_stream_id :: u32
  po_body :: "bytes option"
  split_headers_after :: "nat option"
  pad_headers :: u8
  pad_data :: u8
  po_priority :: "(u32 \<times> u8 \<times> bool) option"
  force_no_end_stream_on_headers :: bool
  extra_frames_before_headers :: bytes
  extra_frames_after :: bytes

definition probe_opts_default :: probe_opts where
  "probe_opts_default = \<lparr>send_preface = True, preface_override = None, po_settings = Some [],
     po_stream_id = 1, po_body = None, split_headers_after = None, pad_headers = 0, pad_data = 0,
     po_priority = None, force_no_end_stream_on_headers = False,
     extra_frames_before_headers = [], extra_frames_after = []\<rparr>"

text \<open>Appending a frame to the output; a panic of its builder is a panic here.\<close>

definition emit :: "bytes option \<Rightarrow> bytes \<Rightarrow> bytes option" where
  "emit frame out = map_option (\<lambda>f. out @ f) frame"

definition probe_headers_opts :: "probe_opts \<Rightarrow> bytes \<Rightarrow> bool \<Rightarrow> bool \<Rightarrow> headers_frame_opts" where
  "probe_headers_opts opts block end_stream end_headers = \<lparr>hf_header_block = block,
     hf_stream_id = po_stream_id opts, hf_end_stream = end_stream, hf_end_headers = end_headers,
     hf_padding = pad_headers opts, hf_priority = po_priority opts\<rparr>"

definition build_probe :: "h2_header list \<Rightarrow> probe_opts \<Rightarrow> (encode_error + bytes) option" where
  "build_probe headers opts =
     (case encode_headers headers of
        Inl e \<Rightarrow> Some (Inl e)
      | Inr header_block \<Rightarrow>
         map_option Inr
         (let out = (if send_preface opts
                     then (case preface_override opts of Some p \<Rightarrow> p | None \<Rightarrow> PREFACE) else []) in
          Option.bind (case po_settings opts of
            Some settings \<Rightarrow> emit (build_settings_frame settings False) out
          | None \<Rightarrow> Some out) (\<lambda>out.
          let out = out @ extra_frames_before_headers opts;
              has_body = (po_body opts \<noteq> None);
              end_stream_on_headers =
                (if force_no_end_stream_on_headers opts then False else \<not> has_body) in
          Option.bind (case split_headers_after opts of
            Some split_after \<Rightarrow>
              (let split = min split_after (length header_block);
                   first = take split header_block; rest = drop split header_block;
                   more_coming = (rest \<noteq> []) in
               Option.bind (emit (build_headers_frame
                   (probe_headers_opts opts first end_stream_on_headers (\<not> more_coming))) out) (\<lambda>out.
               if more_coming
               then emit (build_continuation_frame rest (po_stream_id opts) True) out
               else Some out))
          | None \<Rightarrow> emit (build_headers_frame
                   (probe_headers_opts opts header_block end_stream_on_headers True)) out) (\<lambda>out.
          Option.bind (case po_body opts of
            Some body \<Rightarrow> emit (build_data_frame body (po_stream_id opts) True (pad_data opts)) out
          | None \<Rightarrow> Some out) (\<lambda>out.
          Some (out @ extra_frames_after opts))))))"

section \<open>The reference reader\<close>

text \<open>All frames of a buffer from a position on.\<close>

lemma read_frame_pos: "read_frame buf pos = Inr (f, q) \<Longrightarrow> pos < q \<and> q \<le> length buf"
  by (auto simp: read_frame_def Let_def split: if_splits)

function read_frames :: "bytes \<Rightarrow> nat \<Rightarrow> frame_error + frame list" where
  "read_frames buf pos =
     (if pos < length buf
      then (case read_frame buf pos of
              Inl e \<Rightarrow> Inl e
            | Inr (f, q) \<Rightarrow> and_then (read_frames buf q) (\<lambda>fs. Inr (f # fs)))
      else Inr [])"
  by pat_completeness auto
termination
  by (relation "measure (\<lambda>(buf, pos). length buf - pos)") (auto dest: read_frame_pos)

declare read_frames.simps [simp del]

record server_request =
  rq_stream :: u32
  rq_block :: bytes
  rq_body :: "bytes option"
  rq_ended :: bool

text \<open>
  The header block continues in CONTINUATION frames of the same stream until END_HEADERS; a DATA
  frame may follow. The request is ended by END_STREAM on its HEADERS or DATA frame.
\<close>

fun gather_block :: "u32 \<Rightarrow> bytes \<Rightarrow> bool \<Rightarrow> frame list \<Rightarrow> (bytes \<times> frame list) option" where
  "gather_block sid acc True fs = Some (acc, fs)"
| "gather_block sid acc False [] = None"
| "gather_block sid acc False (f # fs) =
     (if f_type f = FRAME_CONTINUATION \<and> f_stream f = sid
      then gather_block sid (acc @ f_payload f) (has_flag (f_flags f) FLAG_END_HEADERS) fs
      else None)"

definition request_of_headers :: "frame \<Rightarrow> frame list \<Rightarrow> server_request option" where
  "request_of_headers f fs =
     (if f_type f \<noteq> FRAME_HEADERS then None
      else Option.bind (headers_view (f_flags f) (f_payload f)) (\<lambda>(prio, frag).
           Option.bind (gather_block (f_stream f) frag (has_flag (f_flags f) FLAG_END_HEADERS) fs) (\<lambda>(block, rest).
           case rest of
             [] \<Rightarrow> Some \<lparr>rq_stream = f_stream f, rq_block = block, rq_body = None,
                     rq_ended = has_flag (f_flags f) FLAG_END_STREAM\<rparr>
           | d # _ \<Rightarrow>
               (if f_type d = FRAME_DATA \<and> f_stream d = f_stream f \<and> \<not> has_flag (f_flags f) FLAG_END_STREAM
                then map_option (\<lambda>body. \<lparr>rq_stream = f_stream f, rq_block = block, rq_body = Some body,
                     rq_ended = has_flag (f_flags d) FLAG_END_STREAM\<rparr>) (unpad (f_flags d) (f_payload d))
                else None))))"

fun read_request :: "frame list \<Rightarrow> server_request option" where
  "read_request [] = None"
| "read_request (f # fs) =
     (if f_type f = FRAME_SETTINGS then read_request fs else request_of_headers f fs)"

section \<open>The bytes of a probe\<close>

lemma read_frames_bytes:
  "list_all frame_ok fs \<Longrightarrow>
   read_frames (pre @ concat (map frame_bytes fs)) (length pre) = Inr fs"
proof (induction fs arbitrary: pre)
  case Nil
  then show ?case by (simp add: read_frames.simps)
next
  case (Cons f fs)
  have "frame_ok f" using Cons.prems by simp
  with h2_frame.dec_enc [OF this, of pre "concat (map frame_bytes fs)"] length_frame_bytes [OF this]
    Cons.IH [of "pre @ frame_bytes f"] Cons.prems
  show ?case by (simp add: read_frames.simps [of _ "length pre"])
qed

definition settings_frames :: "probe_opts \<Rightarrow> frame list" where
  "settings_frames opts = (case po_settings opts of None \<Rightarrow> []
     | Some s \<Rightarrow> [\<lparr>f_type = FRAME_SETTINGS, f_flags = 0, f_stream = 0, f_payload = settings_payload s\<rparr>])"

definition headers_frame :: "headers_frame_opts \<Rightarrow> frame" where
  "headers_frame ho = \<lparr>f_type = FRAME_HEADERS, f_flags = headers_flags ho,
     f_stream = hf_stream_id ho AND 0x7FFFFFFF, f_payload = headers_payload ho\<rparr>"

definition block_frames :: "probe_opts \<Rightarrow> bytes \<Rightarrow> frame list" where
  "block_frames opts block =
     (let es = (\<not> force_no_end_stream_on_headers opts \<and> po_body opts = None);
          n = (case split_headers_after opts of None \<Rightarrow> length block | Some k \<Rightarrow> min k (length block));
          more = (drop n block \<noteq> []) in
      headers_frame (probe_headers_opts opts (take n block) es (\<not> more)) #
      (if more then [\<lparr>f_type = FRAME_CONTINUATION, f_flags = FLAG_END_HEADERS,
         f_stream = po_stream_id opts AND 0x7FFFFFFF, f_payload = drop n block\<rparr>] else []))"

definition data_frames :: "probe_opts \<Rightarrow> frame list" where
  "data_frames opts = (case po_body opts of None \<Rightarrow> []
     | Some body \<Rightarrow> [\<lparr>f_type = FRAME_DATA,
         f_flags = FLAG_END_STREAM OR (if pad_data opts > 0 then FLAG_PADDED else 0),
         f_stream = po_stream_id opts AND 0x7FFFFFFF, f_payload = data_payload body (pad_data opts)\<rparr>])"

definition probe_preface :: "probe_opts \<Rightarrow> bytes" where
  "probe_preface opts = (if send_preface opts
     then (case preface_override opts of Some p \<Rightarrow> p | None \<Rightarrow> PREFACE) else [])"

lemma emit_raw:
  "emit (build_raw_frame ty fl sid p) out = Some out' \<longleftrightarrow>
   frame_ok \<lparr>f_type = ty, f_flags = fl, f_stream = sid AND 0x7FFFFFFF, f_payload = p\<rparr> \<and>
   out' = out @ frame_bytes \<lparr>f_type = ty, f_flags = fl, f_stream = sid AND 0x7FFFFFFF, f_payload = p\<rparr>"
  by (auto simp: emit_def build_raw_frame_eq frame_ok_def)

lemma emit_headers:
  "emit (build_headers_frame ho) out = Some out' \<longleftrightarrow>
   frame_ok (headers_frame ho) \<and> out' = out @ frame_bytes (headers_frame ho)"
  unfolding build_headers_frame_def emit_raw headers_frame_def by simp

definition emitted :: "frame list \<Rightarrow> bytes \<Rightarrow> bytes \<Rightarrow> bool" where
  "emitted fs out out' \<longleftrightarrow> list_all frame_ok fs \<and> out' = out @ concat (map frame_bytes fs)"

lemma settings_stage:
  "(case po_settings opts of Some s \<Rightarrow> emit (build_settings_frame s False) out | None \<Rightarrow> Some out) = Some out'
   \<longleftrightarrow> emitted (settings_frames opts) out out'"
  by (cases "po_settings opts") (auto simp: emitted_def settings_frames_def build_settings_frame_def emit_raw)

lemma data_stage:
  "(case po_body opts of Some body \<Rightarrow> emit (build_data_frame body (po_stream_id opts) True (pad_data opts)) out
    | None \<Rightarrow> Some out) = Some out' \<longleftrightarrow> emitted (data_frames opts) out out'"
  by (cases "po_body opts") (auto simp: emitted_def data_frames_def build_data_frame_def emit_raw Let_def)

lemma block_stage:
  "(let es = (if force_no_end_stream_on_headers opts then False else \<not> po_body opts \<noteq> None) in
    case split_headers_after opts of
      Some split_after \<Rightarrow>
        (let split = min split_after (length block); first = take split block; rest = drop split block;
             more_coming = (rest \<noteq> []) in
         Option.bind (emit (build_headers_frame (probe_headers_opts opts first es (\<not> more_coming))) out) (\<lambda>out.
         if more_coming then emit (build_continuation_frame rest (po_stream_id opts) True) out else Some out))
    | None \<Rightarrow> emit (build_headers_frame (probe_headers_opts opts block es True)) out) = Some out'
   \<longleftrightarrow> emitted (block_frames opts block) out out'"
proof (cases "split_headers_after opts")
  case None
  then show ?thesis by (auto simp: emitted_def block_frames_def emit_headers Let_def)
next
  case (Some k)
  define n where "n = min k (length block)"
  have "Option.bind (emit (build_headers_frame (probe_headers_opts opts (take n block) es (\<not> drop n block \<noteq> []))) out) (\<lambda>out.
         if drop n block \<noteq> [] then emit (build_continuation_frame (drop n block) (po_stream_id opts) True) out else Some out)
       = Some out' \<longleftrightarrow> emitted (headers_frame (probe_headers_opts opts (take n block) es (\<not> drop n block \<noteq> [])) #
      (if drop n block \<noteq> [] then [\<lparr>f_type = FRAME_CONTINUATION, f_flags = FLAG_END_HEADERS,
         f_stream = po_stream_id opts AND 0x7FFFFFFF, f_payload = drop n block\<rparr>] else [])) out out'" for es
    by (cases "drop n block = []")
      (auto simp: bind_eq_Some_conv emit_headers emitted_def build_continuation_frame_def emit_raw)
  then show ?thesis
    unfolding block_frames_def Some Let_def option.case n_def [symmetric] by (simp add: conj_comms)
qed

lemma build_probe_frames:
  assumes "build_probe hs opts = Some (Inr out)"
  shows "\<exists>block. encode_headers hs = Inr block \<and>
    list_all frame_ok (settings_frames opts @ block_frames opts block @ data_frames opts) \<and>
    out = probe_preface opts @ concat (map frame_bytes (settings_frames opts)) @
      extra_frames_before_headers opts @
      concat (map frame_bytes (block_frames opts block @ data_frames opts)) @ extra_frames_after opts"
proof -
  from assms obtain block where block: "encode_headers hs = Inr block"
    by (auto simp: build_probe_def split: sum.splits)
  from assms obtain o1 o2 o3 where
    o1: "emitted (settings_frames opts) (probe_preface opts) o1" and
    o2: "emitted (block_frames opts block) (o1 @ extra_frames_before_headers opts) o2" and
    o3: "emitted (data_frames opts) o2 o3" "out = o3 @ extra_frames_after opts"
    unfolding build_probe_def block sum.case probe_preface_def [symmetric] Let_def [of "probe_preface opts"]
    unfolding settings_stage [symmetric] block_stage [symmetric] data_stage [symmetric] Let_def
    by (auto simp: bind_eq_Some_conv)
  then show ?thesis by (auto simp: block emitted_def)
qed

section \<open>What the server reads\<close>

lemma headers_frame_view [simp]:
  "f_type (headers_frame ho) = FRAME_HEADERS" "f_stream (headers_frame ho) = hf_stream_id ho AND 0x7FFFFFFF"
  "has_flag (f_flags (headers_frame ho)) FLAG_END_STREAM = hf_end_stream ho"
  "has_flag (f_flags (headers_frame ho)) FLAG_END_HEADERS = hf_end_headers ho"
  "headers_view (f_flags (headers_frame ho)) (f_payload (headers_frame ho)) =
     Some (map_option (\<lambda>(dep, w, ex). (dep AND 0x7FFFFFFF, w, ex)) (hf_priority ho), hf_header_block ho)"
  by (simp_all add: headers_frame_def headers_payload_view)

lemma end_headers_flag [simp]: "has_flag FLAG_END_HEADERS FLAG_END_HEADERS"
  by (simp add: has_flag_def flag_defs)

lemma data_frame_view:
  "unpad (FLAG_END_STREAM OR (if n > 0 then FLAG_PADDED else 0)) (data_payload body n) = Some body"
  "has_flag (FLAG_END_STREAM OR (if n > 0 then FLAG_PADDED else 0)) FLAG_END_STREAM"
  by (rule data_payload_view) (auto simp: has_flag_def flag_defs word_gt_0)

lemma request_of_block:
  "read_request (block_frames opts block @ data_frames opts) = Some \<lparr>rq_stream = po_stream_id opts AND 0x7FFFFFFF,
     rq_block = block, rq_body = po_body opts,
     rq_ended = (po_body opts \<noteq> None \<or> \<not> force_no_end_stream_on_headers opts)\<rparr>"
  by (cases "po_body opts")
    (auto simp: block_frames_def data_frames_def request_of_headers_def probe_headers_opts_def Let_def
      data_frame_view FRAME_HEADERS_def FRAME_SETTINGS_def FRAME_CONTINUATION_def FRAME_DATA_def
      split: option.splits)

lemma read_request_probe:
  "read_request (settings_frames opts @ block_frames opts block @ data_frames opts) = Some
     \<lparr>rq_stream = po_stream_id opts AND 0x7FFFFFFF, rq_block = block, rq_body = po_body opts,
      rq_ended = (po_body opts \<noteq> None \<or> \<not> force_no_end_stream_on_headers opts)\<rparr>"
  by (simp add: settings_frames_def request_of_block split: option.splits)

lemma length_PREFACE: "length PREFACE = 24"
  by (simp add: PREFACE_def)

text \<open>
  C25: A server that reads a probe sees the request that was asked for. After the preface, the bytes
  are exactly a sequence of frames holding one request on the given stream, with the given body,
  whose header block, reassembled across any split into HEADERS and CONTINUATION and with any
  padding and priority, decodes to the given headers; the stream is ended unless the caller
  suppressed that on a request without a body.
\<close>

theorem probe_request:
  assumes "build_probe hs opts = Some (Inr out)"
    and "send_preface opts" "preface_override opts = None"
    and "extra_frames_before_headers opts = []" "extra_frames_after opts = []"
    and "\<And>h. h \<in> set hs \<Longrightarrow> plain_lengths h"
  shows "take 24 out = PREFACE \<and> (\<exists>frames rq. read_frames out 24 = Inr frames \<and>
    read_request frames = Some rq \<and> rq_stream rq = po_stream_id opts AND 0x7FFFFFFF \<and>
    rq_body rq = po_body opts \<and>
    rq_ended rq = (po_body opts \<noteq> None \<or> \<not> force_no_end_stream_on_headers opts) \<and>
    fst (decode_headers decoder_new (rq_block rq)) = Inr (map sent_header hs))"
proof -
  from build_probe_frames [OF assms(1)] obtain block where block: "encode_headers hs = Inr block"
    and ok: "list_all frame_ok (settings_frames opts @ block_frames opts block @ data_frames opts)"
    and out: "out = PREFACE @ concat (map frame_bytes (settings_frames opts @ block_frames opts block @ data_frames opts))"
    using assms(2-5) by (auto simp: probe_preface_def)
  have "fst (decode_headers decoder_new block) = Inr (map sent_header hs)"
    using block assms(6) decode_loop_headers [of hs decoder_new "[]" "[]"]
    by (simp add: decode_headers_def encode_headers_accepted list_all_iff)
  moreover have "read_frames out 24 = Inr (settings_frames opts @ block_frames opts block @ data_frames opts)"
    using read_frames_bytes [OF ok, of PREFACE] by (simp add: out length_PREFACE)
  ultimately show ?thesis
    using read_request_probe [of opts block] by (simp add: out length_PREFACE)
qed

lemma probe_request_witness:
  "\<exists>out frames rq. build_probe [(header_new [0x61] [0x62])\<lparr>huffman_name := Some False, huffman_value := Some False\<rparr>]
      (probe_opts_default\<lparr>split_headers_after := Some 1, po_body := Some [7], pad_headers := 3\<rparr>) = Some (Inr out) \<and>
    read_frames out 24 = Inr frames \<and> read_request frames = Some rq \<and> rq_stream rq = 1 \<and>
    rq_body rq = Some [7] \<and> rq_ended rq \<and>
    fst (decode_headers decoder_new (rq_block rq)) = Inr [([0x61], [0x62])]"
proof -
  let ?h = "(header_new [0x61] [0x62])\<lparr>huffman_name := Some False, huffman_value := Some False\<rparr>"
  let ?o = "probe_opts_default\<lparr>split_headers_after := Some 1, po_body := Some [7], pad_headers := 3\<rparr>"
  have "encode_headers [?h] = Inr [0x40, 1, 0x61, 1, 0x62]"
    by (simp add: encode_headers_def encode_one_def header_new_def is_name_valid_def is_value_valid_def
        is_lowercase_token_char_def write_integer_def write_string_def)
  then obtain out where out: "build_probe [?h] ?o = Some (Inr out)"
    by (simp add: build_probe_def probe_opts_default_def emit_def build_settings_frame_def build_headers_frame_def
        build_continuation_frame_def build_data_frame_def build_raw_frame_eq settings_payload_def
        headers_payload_def data_payload_def probe_headers_opts_def)
  have plain: "\<And>h. h \<in> set [?h] \<Longrightarrow> plain_lengths h"
    by (simp add: plain_lengths_def header_new_def string_payload_def uses_huffman_def)
  from probe_request [OF out _ _ _ _ plain] out show ?thesis
    by (auto simp: probe_opts_default_def sent_header_def header_new_def)
qed

end
