(* ===== verification/Std_Net.thy ===== *)
theory Std_Net
  imports Blast_Prelude
begin

text \<open>
  \<open>std::net\<close> as the sources use it: parsing \<open>Ipv4Addr\<close>, \<open>Ipv6Addr\<close> and \<open>IpAddr\<close>, after the
  recursive-descent parser of the Rust standard library (no leading zeros in a decimal octet, at
  most four hex digits in a group, one \<open>::\<close>, an IPv4 tail in the last two groups).
  Also \<open>http::Uri\<close> as the record of what its accessors return: parsing and printing of URIs are
  code of the \<open>http\<close> crate and stay parameters of the definitions that use them.
\<close>

section \<open>IP addresses\<close>

datatype ip_addr = IpV4 u32 | IpV6 "128 word"

definition to_digit :: "nat \<Rightarrow> char \<Rightarrow> nat option" where
  "to_digit radix c = (let n = (of_char c :: nat) in
     if 48 \<le> n \<and> n \<le> 57 then (if n - 48 < radix then Some (n - 48) else None)
     else if 97 \<le> n \<and> n \<le> 122 \<and> n - 87 < radix then Some (n - 87)
     else if 65 \<le> n \<and> n \<le> 90 \<and> n - 55 < radix then Some (n - 55) else None)"

fun take_digits :: "nat \<Rightarrow> nat \<Rightarrow> nat \<Rightarrow> nat \<Rightarrow> string \<Rightarrow> (nat \<times> nat \<times> string) option" where
  "take_digits radix mx acc n [] = Some (acc, n, [])"
| "take_digits radix mx acc n (c # r) =
     (case to_digit radix c of
        None \<Rightarrow> Some (acc, n, c # r)
      | Some d \<Rightarrow> if n + 1 > mx then None else take_digits radix mx (acc * radix + d) (n + 1) r)"

definition read_number :: "nat \<Rightarrow> nat \<Rightarrow> bool \<Rightarrow> nat \<Rightarrow> string \<Rightarrow> (nat \<times> string) option" where
  "read_number radix mx allow_zero limit s =
     (case take_digits radix mx 0 0 s of
        None \<Rightarrow> None
      | Some (v, n, r) \<Rightarrow>
         if n = 0 \<or> (\<not> allow_zero \<and> hd s = CHR ''0'' \<and> n > 1) \<or> v > limit then None
         else Some (v, r))"

definition read_given_char :: "char \<Rightarrow> string \<Rightarrow> string option" where
  "read_given_char c s = (case s of x # r \<Rightarrow> if x = c then Some r else None | [] \<Rightarrow> None)"

definition read_separator :: "char \<Rightarrow> nat \<Rightarrow> (string \<Rightarrow> ('a \<times> string) option) \<Rightarrow> string \<Rightarrow> ('a \<times> string) option" where
  "read_separator sep i inner s =
     (if i > 0 then Option.bind (read_given_char sep s) inner else inner s)"

definition read_octet :: "nat \<Rightarrow> string \<Rightarrow> (nat \<times> string) option" where
  "read_octet i = read_separator CHR ''.'' i (read_number 10 3 False 255)"

definition read_ipv4 :: "string \<Rightarrow> (u32 \<times> string) option" where
  "read_ipv4 s =
     Option.bind (read_octet 0 s) (\<lambda>(a, s). Option.bind (read_octet 1 s) (\<lambda>(b, s).
     Option.bind (read_octet 2 s) (\<lambda>(c, s). Option.bind (read_octet 3 s) (\<lambda>(d, s).
       Some (be_u32 [of_nat a, of_nat b, of_nat c, of_nat d], s)))))"

text \<open>\<open>read_groups\<close>: the groups read, whether they end in an IPv4 address, the rest.\<close>

function read_groups :: "nat \<Rightarrow> nat \<Rightarrow> nat list \<Rightarrow> string \<Rightarrow> nat list \<times> bool \<times> string" where
  "read_groups limit i acc s =
     (if limit \<le> i then (acc, False, s)
      else case (if i < limit - 1 then read_separator CHR '':'' i read_ipv4 s else None) of
             Some (w, r) \<Rightarrow> (acc @ [unat (drop_bit 16 w), unat (take_bit 16 w)], True, r)
           | None \<Rightarrow>
              (case read_separator CHR '':'' i (read_number 16 4 True 0xFFFF) s of
                 Some (g, r) \<Rightarrow> read_groups limit (i + 1) (acc @ [g]) r
               | None \<Rightarrow> (acc, False, s)))"
  by pat_completeness auto
termination by (relation "measure (\<lambda>(limit, i, _). limit - i)") auto

declare read_groups.simps [simp del]

definition groups_word :: "nat list \<Rightarrow> 128 word" where
  "groups_word gs = foldl (\<lambda>acc g. push_bit 16 acc OR of_nat g) 0 gs"

definition read_ipv6 :: "string \<Rightarrow> (128 word \<times> string) option" where
  "read_ipv6 s =
     (let (head, head_ipv4, r) = read_groups 8 0 [] s in
      if length head = 8 then Some (groups_word head, r)
      else if head_ipv4 then None
      else Option.bind (read_given_char CHR '':'' r) (\<lambda>r.
           Option.bind (read_given_char CHR '':'' r) (\<lambda>r.
           let (tail, _, r) = read_groups (8 - (length head + 1)) 0 [] r in
           Some (groups_word (head @ replicate (8 - length head - length tail) 0 @ tail), r))))"

definition parse_all :: "(string \<Rightarrow> ('a \<times> string) option) \<Rightarrow> string \<Rightarrow> 'a option" where
  "parse_all p s = (case p s of Some (v, r) \<Rightarrow> if r = [] then Some v else None | None \<Rightarrow> None)"

definition parse_ipv4 :: "string \<Rightarrow> u32 option" where
  "parse_ipv4 s = (if length s > 15 then None else parse_all read_ipv4 s)"

definition parse_ipv6 :: "string \<Rightarrow> (128 word) option" where
  "parse_ipv6 s = parse_all read_ipv6 s"

definition parse_ip :: "string \<Rightarrow> ip_addr option" where
  "parse_ip s = parse_all (\<lambda>s. case read_ipv4 s of
       Some (w, r) \<Rightarrow> Some (IpV4 w, r)
     | None \<Rightarrow> map_option (\<lambda>(w, r). (IpV6 w, r)) (read_ipv6 s)) s"

lemmas ip_parse_defs = parse_ip_def parse_ipv4_def parse_ipv6_def parse_all_def read_ipv4_def
  read_ipv6_def read_octet_def read_separator_def read_given_char_def read_number_def to_digit_def

text \<open>An address starts with a hexadecimal digit or a colon.\<close>

lemma take_digits_first: "to_digit radix c = None \<Longrightarrow> take_digits radix mx acc n (c # r) = Some (acc, n, c # r)"
  by simp

lemma read_number_first: "s = [] \<or> to_digit radix (hd s) = None \<Longrightarrow> read_number radix mx z limit s = None"
  by (cases s) (auto simp: read_number_def)

lemma parse_ip_first:
  assumes "to_digit 16 c = None" "c \<noteq> CHR '':''"
  shows "parse_ip (c # r) = None"
proof -
  have "to_digit 10 c = None" using assms(1) by (auto simp: to_digit_def Let_def split: if_splits)
  then have v4: "read_ipv4 (c # r) = None"
    by (simp add: read_ipv4_def read_octet_def read_separator_def read_number_first)
  then have "read_groups 8 0 [] (c # r) = ([], False, c # r)"
    using assms(1) by (simp add: read_groups.simps read_separator_def read_number_first)
  then have "read_ipv6 (c # r) = None" using assms(2) by (simp add: read_ipv6_def read_given_char_def)
  with v4 show ?thesis by (simp add: parse_ip_def parse_all_def)
qed

lemma foldl_replicate_0: "foldl (\<lambda>acc g. push_bit 16 acc OR of_nat g) w (replicate n 0) = push_bit (16 * n) (w :: 128 word)"
  by (induction n arbitrary: w) (simp_all add: push_bit_push_bit add.commute)

lemmas ip_eval = ip_parse_defs read_groups.simps be_u32_def groups_word_def foldl_replicate_0

lemma parse_ip_v4_examples:
  "parse_ip ''127.0.0.1'' = Some (IpV4 0x7F000001)" "parse_ip ''01.2.3.4'' = None"
  "parse_ip ''1.2.3'' = None" "parse_ip ''example.com'' = None"
  by (simp_all add: ip_eval)

lemma parse_ip_v6_examples:
  "parse_ip ''::1'' = Some (IpV6 1)" "parse_ip ''1:2:3:4:5:6:7:8:9'' = None"
  "parse_ip ''2001:db8::ff00:42:8329'' = Some (IpV6 0x20010db8000000000000ff0000428329)"
  "parse_ip ''::ffff:1.2.3.4'' = Some (IpV6 0xffff01020304)"
  by (simp_all add: ip_eval)

section \<open>URIs\<close>

record uri =
  u_scheme :: "string option"
  u_authority :: "string option"
  u_host :: "string option"
  u_port :: "u16 option"
  u_path :: string
  u_query :: "string option"

end
