(* ===== verification/Cookies.thy ===== *)
theory Cookies
  imports Std_Net "HOL-Library.Signed_Division" "HOL-Library.Multiset"
begin

text \<open>
  Request-scoped cookies, \<^verbatim>\<open>src/cookies.rs\<close>: parsing of \<open>Set-Cookie\<close> and of HTTP
  dates, the store of one redirect chain with its ceilings, and the \<open>Cookie\<close> header for a hop.

  \<open>psl\<close> is \<open>psl::domain_str\<close>, the registrable domain of a name by the Public Suffix List, and
  \<open>now\<close> is \<open>now_unix\<close>, the clock. A slice on a non-character boundary is \<open>Panic\<close>.

  Lemmas: the ceilings, uniqueness and caller-ownership invariant of a chain; what a stored cookie
  is scoped to and where it is sent; dates agree with the proleptic Gregorian calendar.
\<close>

section \<open>Hosts and paths\<close>

definition canonical_host :: "string \<Rightarrow> string" where
  "canonical_host host =
     to_ascii_lowercase (trim_end_matches (\<lambda>c. c = CHR ''.'') (strip_brackets host))"

definition is_public_suffix :: "(string \<Rightarrow> string option) \<Rightarrow> string \<Rightarrow> bool" where
  "is_public_suffix psl domain \<longleftrightarrow> psl domain = None"

definition registrable :: "(string \<Rightarrow> string option) \<Rightarrow> string \<Rightarrow> string option" where
  "registrable psl host = psl host"

definition ends_with :: "string \<Rightarrow> string \<Rightarrow> bool" where
  "ends_with s t \<longleftrightarrow> length t \<le> length s \<and> drop (length s - length t) s = t"

definition domain_matches :: "string \<Rightarrow> string \<Rightarrow> bool" where
  "domain_matches host domain =
     (if host = domain then True
      else if parse_ip host \<noteq> None then False
      else length host > length domain \<and> ends_with host domain \<and>
           host ! (length host - length domain - 1) = CHR ''.'')"

definition path_matches :: "string \<Rightarrow> string \<Rightarrow> bool" where
  "path_matches request_path cookie_path =
     (if request_path = cookie_path then True
      else if \<not> prefix cookie_path request_path then False
      else (cookie_path \<noteq> [] \<and> last cookie_path = CHR ''/'') \<or>
           request_path ! length cookie_path = CHR ''/'')"

definition rfind :: "char \<Rightarrow> string \<Rightarrow> nat option" where
  "rfind c s = map_option (\<lambda>(a, b). length a) (rsplit_once c s)"

definition default_path :: "string \<Rightarrow> string" where
  "default_path request_path =
     (if \<not> prefix ''/'' request_path then ''/''
      else case rfind CHR ''/'' request_path of
             None \<Rightarrow> ''/'' | Some 0 \<Rightarrow> ''/'' | Some i \<Rightarrow> take i request_path)"

section \<open>Dates\<close>

definition days_from_civil :: "int \<Rightarrow> int \<Rightarrow> int \<Rightarrow> int" where
  "days_from_civil y m d =
     (let y = (if m \<le> 2 then y - 1 else y);
          era = (if y \<ge> 0 then y else y - 399) sdiv 400;
          yoe = y - era * 400;
          mp = (if m > 2 then m - 3 else m + 9);
          doy = (153 * mp + 2) sdiv 5 + d - 1;
          doe = yoe * 365 + yoe sdiv 4 - yoe sdiv 100 + doy
      in era * 146097 + doe - 719468)"

definition MONTHS :: "string list" where
  "MONTHS = [''jan'', ''feb'', ''mar'', ''apr'', ''may'', ''jun'', ''jul'', ''aug'', ''sep'',
     ''oct'', ''nov'', ''dec'']"

fun position :: "('a \<Rightarrow> bool) \<Rightarrow> 'a list \<Rightarrow> nat option" where
  "position P [] = None"
| "position P (x # xs) = (if P x then Some 0 else map_option Suc (position P xs))"

record date_fields =
  df_day :: "int option"
  df_month :: "int option"
  df_year :: "int option"
  df_time :: "(int \<times> int \<times> int) option"

text \<open>\<open>&token[..3]\<close> panics when byte 3 is inside a UTF-8 sequence.\<close>

definition char_boundary :: "nat \<Rightarrow> string \<Rightarrow> bool" where
  "char_boundary i s \<longleftrightarrow> i = 0 \<or> i = length s \<or>
     (i < length s \<and> \<not> (128 \<le> (of_char (s ! i) :: nat) \<and> (of_char (s ! i) :: nat) < 192))"

definition date_number :: "date_fields \<Rightarrow> string \<Rightarrow> date_fields" where
  "date_number f token =
     (case parse_i64 token of
        None \<Rightarrow> f
      | Some n \<Rightarrow>
         (if df_day f = None \<and> length token \<le> 2 \<and> 1 \<le> n \<and> n \<le> 31 then f\<lparr>df_day := Some n\<rparr>
          else if df_year f = None
          then f\<lparr>df_year := Some (if length token \<le> 2 then (if n < 70 then 2000 + n else 1900 + n) else n)\<rparr>
          else f))"

definition date_time :: "string \<Rightarrow> (int \<times> int \<times> int) option" where
  "date_time token =
     (case split_on CHR '':'' token of
        h # m # rest \<Rightarrow>
          Option.bind (parse_i64 h) (\<lambda>h. Option.bind (parse_i64 m) (\<lambda>m.
          Some (h, m, case rest of s # _ \<Rightarrow> (case parse_i64 s of Some v \<Rightarrow> v | None \<Rightarrow> 0) | [] \<Rightarrow> 0)))
      | _ \<Rightarrow> None)"

text \<open>One token; \<open>Done None\<close> is the early return of \<open>None\<close>.\<close>

definition date_token :: "date_fields \<Rightarrow> string \<Rightarrow> date_fields option outcome" where
  "date_token f token =
     (if CHR '':'' \<in> set token \<and> df_time f = None
      then Done (map_option (\<lambda>t. f\<lparr>df_time := Some t\<rparr>) (date_time token))
      else if df_month f = None \<and> length token \<ge> 3 then
        (if \<not> char_boundary 3 token then Panic
         else (case position (\<lambda>m. m = to_ascii_lowercase (take 3 token)) MONTHS of
                 Some i \<Rightarrow> Done (Some (f\<lparr>df_month := Some (int i + 1)\<rparr>))
               | None \<Rightarrow> Done (Some (date_number f token))))
      else Done (Some (date_number f token)))"

fun date_tokens :: "date_fields \<Rightarrow> string list \<Rightarrow> date_fields option outcome" where
  "date_tokens f [] = Done (Some f)"
| "date_tokens f (t # ts) = on_done (date_token f t) (\<lambda>r.
     case r of None \<Rightarrow> Done None | Some f \<Rightarrow> date_tokens f ts)"

definition parse_http_date :: "string \<Rightarrow> int option outcome" where
  "parse_http_date s =
     (let normalized = map (\<lambda>c. if c = CHR ''-'' \<or> c = CHR '','' then CHR '' '' else c) s in
      on_done (date_tokens \<lparr>df_day = None, df_month = None, df_year = None, df_time = None\<rparr>
          (split_whitespace normalized)) (\<lambda>r.
      Done (Option.bind r (\<lambda>f.
        Option.bind (df_day f) (\<lambda>day. Option.bind (df_month f) (\<lambda>month. Option.bind (df_year f) (\<lambda>year.
        let (h, m, sec) = (case df_time f of Some t \<Rightarrow> t | None \<Rightarrow> (0, 0, 0)) in
        if \<not> (0 \<le> h \<and> h \<le> 23) \<or> \<not> (0 \<le> m \<and> m \<le> 59) \<or> \<not> (0 \<le> sec \<and> sec \<le> 60) then None
        else if year < 1601 then None
        else (let year = min year 9999 in
              Some (days_from_civil year month day * 86400 + h * 3600 + m * 60 + sec))))))))) "

section \<open>Parsing \<open>Set-Cookie\<close>\<close>

record cookie =
  c_name :: string
  c_value :: string
  c_domain :: string
  c_host_only :: bool
  c_path :: string
  c_secure :: bool

record cookie_attrs =
  ca_domain :: "string option"
  ca_path :: "string option"
  ca_secure :: bool
  ca_max_age :: "int option"
  ca_expires :: "int option"

definition cookie_attr :: "cookie_attrs \<Rightarrow> string \<Rightarrow> cookie_attrs outcome" where
  "cookie_attr a attr =
     (let attr = trim attr;
          (key, aval) = (case split_once CHR ''='' attr of
             Some (k, v) \<Rightarrow> (trim k, trim v) | None \<Rightarrow> (attr, '''')) in
      if eq_ignore_ascii_case key ''domain'' then
        (let d = canonical_host (trim_start_matches (\<lambda>c. c = CHR ''.'') aval) in
         Done (if d \<noteq> [] then a\<lparr>ca_domain := Some d\<rparr> else a))
      else if eq_ignore_ascii_case key ''path'' then
        Done (if prefix ''/'' aval then a\<lparr>ca_path := Some aval\<rparr> else a)
      else if eq_ignore_ascii_case key ''secure'' then Done (a\<lparr>ca_secure := True\<rparr>)
      else if eq_ignore_ascii_case key ''max-age'' then Done (a\<lparr>ca_max_age := parse_i64 aval\<rparr>)
      else if eq_ignore_ascii_case key ''expires'' then
        on_done (parse_http_date aval) (\<lambda>e. Done (a\<lparr>ca_expires := e\<rparr>))
      else Done a)"

fun cookie_attr_loop :: "cookie_attrs \<Rightarrow> string list \<Rightarrow> cookie_attrs outcome" where
  "cookie_attr_loop a [] = Done a"
| "cookie_attr_loop a (p # ps) = on_done (cookie_attr a p) (\<lambda>a. cookie_attr_loop a ps)"

text \<open>The scope of the cookie: its domain and whether it is host-only; \<open>None\<close> refuses it.\<close>

definition cookie_scope ::
  "(string \<Rightarrow> string option) \<Rightarrow> string \<Rightarrow> string option \<Rightarrow> (string \<times> bool) option" where
  "cookie_scope psl request_host dmn =
     (case dmn of
        None \<Rightarrow> Some (request_host, True)
      | Some d \<Rightarrow>
         (if \<not> domain_matches request_host d then None
          else if parse_ip request_host \<noteq> None then Some (request_host, True)
          else if is_public_suffix psl d then
            (if d = request_host then Some (request_host, True) else None)
          else if registrable psl request_host \<noteq> registrable psl d then None
          else Some (d, False)))"

definition cookie_expired :: "int \<Rightarrow> int option \<Rightarrow> int option \<Rightarrow> bool" where
  "cookie_expired now max_age expires =
     (case max_age of Some secs \<Rightarrow> secs \<le> 0
      | None \<Rightarrow> (case expires of Some t \<Rightarrow> t \<le> now | None \<Rightarrow> False))"

definition parse_set_cookie ::
  "(string \<Rightarrow> string option) \<Rightarrow> int \<Rightarrow> string \<Rightarrow> string \<Rightarrow> string \<Rightarrow> (cookie \<times> bool) option outcome" where
  "parse_set_cookie psl now v request_host request_path =
     (case split_on CHR '';'' v of
        [] \<Rightarrow> Done None
      | pair # parts \<Rightarrow>
         (case split_once CHR ''='' (trim pair) of
            None \<Rightarrow> Done None
          | Some (name, val) \<Rightarrow>
             (let name = trim name in
              if name = [] then Done None
              else on_done (cookie_attr_loop \<lparr>ca_domain = None, ca_path = None, ca_secure = False,
                     ca_max_age = None, ca_expires = None\<rparr> parts) (\<lambda>a.
                   Done (map_option (\<lambda>(dmn, host_only).
                     (\<lparr>c_name = name, c_value = trim val, c_domain = dmn, c_host_only = host_only,
                       c_path = (case ca_path a of Some p \<Rightarrow> p | None \<Rightarrow> default_path request_path),
                       c_secure = ca_secure a\<rparr>,
                      cookie_expired now (ca_max_age a) (ca_expires a)))
                     (cookie_scope psl request_host (ca_domain a)))))))"

section \<open>The cookies of a chain\<close>

definition MAX_COOKIE_BYTES :: nat where "MAX_COOKIE_BYTES = 4096"
definition MAX_COOKIES :: nat where "MAX_COOKIES = 50"
definition MAX_CHAIN_BYTES :: nat where "MAX_CHAIN_BYTES = 8192"

lemmas cookie_limits = MAX_COOKIE_BYTES_def MAX_COOKIES_def MAX_CHAIN_BYTES_def

definition cookie_size :: "string \<Rightarrow> string \<Rightarrow> nat" where
  "cookie_size name val = length name + length val + 3"

record rejected =
  caller_owned :: "string list"
  over_limit :: "string list"

definition note_name :: "string list \<Rightarrow> string \<Rightarrow> string list" where
  "note_name l name = (if name \<in> set l then l else l @ [name])"

record chain_cookies =
  cookies :: "cookie list"
  caller_names :: "string list"

definition chain_new :: chain_cookies where
  "chain_new = \<lparr>cookies = [], caller_names = []\<rparr>"

definition with_caller_cookies :: "string list \<Rightarrow> chain_cookies" where
  "with_caller_cookies names = \<lparr>cookies = [], caller_names = names\<rparr>"

definition chain_is_empty :: "chain_cookies \<Rightarrow> bool" where
  "chain_is_empty ch \<longleftrightarrow> cookies ch = []"

definition chain_bytes :: "cookie list \<Rightarrow> nat" where
  "chain_bytes cs = sum_list (map (\<lambda>c. cookie_size (c_name c) (c_value c)) cs)"

definition remove_nth :: "nat \<Rightarrow> 'a list \<Rightarrow> 'a list" where
  "remove_nth i xs = take i xs @ drop (Suc i) xs"

definition same_cookie :: "cookie \<Rightarrow> cookie \<Rightarrow> bool" where
  "same_cookie c c' \<longleftrightarrow> c_name c' = c_name c \<and> c_domain c' = c_domain c \<and> c_path c' = c_path c"

text \<open>The loop body of \<open>store\<close> after a cookie was parsed.\<close>

definition store_cookie :: "chain_cookies \<Rightarrow> rejected \<Rightarrow> cookie \<Rightarrow> bool \<Rightarrow> chain_cookies \<times> rejected" where
  "store_cookie ch rej c expired =
     (if c_name c \<in> set (caller_names ch)
      then (ch, rej\<lparr>caller_owned := note_name (caller_owned rej) (c_name c)\<rparr>)
      else if cookie_size (c_name c) (c_value c) > MAX_COOKIE_BYTES
      then (ch, rej\<lparr>over_limit := note_name (over_limit rej) (c_name c)\<rparr>)
      else (let replacing = position (same_cookie c) (cookies ch) in
        if expired then
          (case replacing of Some i \<Rightarrow> (ch\<lparr>cookies := remove_nth i (cookies ch)\<rparr>, rej)
           | None \<Rightarrow> (ch, rej))
        else (let freed = (case replacing of Some i \<Rightarrow>
                    cookie_size (c_name (cookies ch ! i)) (c_value (cookies ch ! i)) | None \<Rightarrow> 0);
                  held = length (cookies ch) - (if replacing \<noteq> None then 1 else 0) in
          if held \<ge> MAX_COOKIES \<or>
             chain_bytes (cookies ch) - freed + cookie_size (c_name c) (c_value c) > MAX_CHAIN_BYTES
          then (ch, rej\<lparr>over_limit := note_name (over_limit rej) (c_name c)\<rparr>)
          else (let cs = (case replacing of Some i \<Rightarrow> remove_nth i (cookies ch) | None \<Rightarrow> cookies ch)
                in (ch\<lparr>cookies := cs @ [c]\<rparr>, rej)))))"

fun store_loop ::
  "(string \<Rightarrow> string option) \<Rightarrow> int \<Rightarrow> string \<Rightarrow> string \<Rightarrow> chain_cookies \<Rightarrow> rejected \<Rightarrow> header_list
    \<Rightarrow> (chain_cookies \<times> rejected) outcome" where
  "store_loop psl now host request_path ch rej [] = Done (ch, rej)"
| "store_loop psl now host request_path ch rej ((name, v) # hs) =
     (if \<not> eq_ignore_ascii_case name ''set-cookie'' then store_loop psl now host request_path ch rej hs
      else on_done (parse_set_cookie psl now v host request_path) (\<lambda>r.
        case r of
          None \<Rightarrow> store_loop psl now host request_path ch rej hs
        | Some (c, expired) \<Rightarrow>
           (let (ch', rej') = store_cookie ch rej c expired
            in store_loop psl now host request_path ch' rej' hs)))"

definition chain_store ::
  "(string \<Rightarrow> string option) \<Rightarrow> int \<Rightarrow> chain_cookies \<Rightarrow> header_list \<Rightarrow> uri \<Rightarrow> (chain_cookies \<times> rejected) outcome" where
  "chain_store psl now ch headers u =
     (let rej = \<lparr>caller_owned = [], over_limit = []\<rparr> in
      case u_host u of
        None \<Rightarrow> Done (ch, rej)
      | Some host \<Rightarrow> store_loop psl now (canonical_host host) (u_path u) ch rej headers)"

definition cookie_applies :: "string \<Rightarrow> string \<Rightarrow> bool \<Rightarrow> cookie \<Rightarrow> bool" where
  "cookie_applies host path secure_transport c =
     (if c_secure c \<and> \<not> secure_transport then False
      else if (if c_host_only c then host \<noteq> c_domain c else \<not> domain_matches host (c_domain c)) then False
      else path_matches path (c_path c))"

definition header_for :: "chain_cookies \<Rightarrow> uri \<Rightarrow> string option" where
  "header_for ch u =
     Option.bind (u_host u) (\<lambda>h.
     let host = canonical_host h;
         matched = filter (cookie_applies host (u_path u) (u_scheme u = Some ''https'')) (cookies ch) in
     if matched = [] then None
     else Some (join ''; '' (map (\<lambda>c. c_name c @ ''='' @ c_value c)
            (sort_key (\<lambda>c. - int (length (c_path c))) matched))))"

fun caller_pairs :: "string list \<Rightarrow> string list \<Rightarrow> string list" where
  "caller_pairs names [] = names"
| "caller_pairs names (pair # ps) =
     (case split_once CHR ''='' pair of
        None \<Rightarrow> caller_pairs names ps
      | Some (n, _) \<Rightarrow>
         (let n = trim n in
          caller_pairs (if n \<noteq> [] \<and> n \<notin> set names then names @ [n] else names) ps))"

definition caller_cookie_names :: "header_list \<Rightarrow> string list" where
  "caller_cookie_names headers = foldl (\<lambda>names (name, v).
     if eq_ignore_ascii_case name ''cookie'' then caller_pairs names (split_on CHR '';'' v)
     else names) [] headers"

section \<open>The calendar\<close>

definition leap :: "int \<Rightarrow> bool" where
  "leap y \<longleftrightarrow> y mod 4 = 0 \<and> (y mod 100 \<noteq> 0 \<or> y mod 400 = 0)"

definition days_in_month :: "int \<Rightarrow> int \<Rightarrow> int" where
  "days_in_month y m = (if m = 2 then (if leap y then 29 else 28)
     else if m \<in> {4, 6, 9, 11} then 30 else 31)"

text \<open>Days before March 1 of year \<open>y\<close>, counted from March 1 of year 0.\<close>

definition year_days :: "int \<Rightarrow> int" where
  "year_days y = 365 * y + y div 4 - y div 100 + y div 400"

lemma sdiv_nonneg: "0 \<le> x \<Longrightarrow> 0 < n \<Longrightarrow> x sdiv n = x div (n :: int)"
  by (cases "x = 0") (simp_all add: signed_divide_int_def)

lemma era_days:
  assumes "0 \<le> y"
  shows "y div 400 * 146097 + (y - y div 400 * 400) * 365 + (y - y div 400 * 400) div 4 - (y - y div 400 * 400) div 100
    = year_days y"
proof -
  define e r where "e = y div 400" and "r = y - e * 400"
  have y: "y = 400 * e + r" by (simp add: r_def)
  have "y div 4 = 100 * e + r div 4" "y div 100 = 4 * e + r div 100" unfolding y by simp_all
  moreover have "y div 400 = e" by (simp add: e_def)
  ultimately show ?thesis by (simp add: year_days_def flip: e_def r_def) (simp add: y)
qed

lemma days_from_civil_eq:
  assumes "1 \<le> y" "1 \<le> m"
  shows "days_from_civil y m d = year_days (if m \<le> 2 then y - 1 else y)
    + (153 * (if m > 2 then m - 3 else m + 9) + 2) div 5 + d - 719469"
proof -
  define y' mp where "y' = (if m \<le> 2 then y - 1 else y)" and "mp = (if m > 2 then m - 3 else m + 9)"
  have nn: "0 \<le> y'" "0 \<le> mp" using assms by (auto simp: y'_def mp_def)
  have "0 \<le> y' - y' div 400 * 400" by (metis minus_div_mult_eq_mod pos_mod_sign zero_less_numeral)
  then show ?thesis
    using nn era_days [OF nn(1)]
    by (simp add: days_from_civil_def Let_def sdiv_nonneg flip: y'_def mp_def)
qed

lemma year_days_step: "year_days y - year_days (y - 1) = (if leap y then 366 else 365)"
proof -
  have q: "y div n - (y - 1) div n = (if y mod n = 0 then 1 else 0)" if "1 < n" for n
  proof (cases "y mod n = 0")
    case True
    then have "y - 1 = n * (y div n - 1) + (n - 1)" using mult_div_mod_eq [of n y] by (simp add: algebra_simps)
    then have "(y - 1) div n = y div n - 1" by (rule int_div_pos_eq) (use that in simp_all)
    with True show ?thesis by simp
  next
    case False
    have "0 \<le> y mod n" "y mod n < n" using that by simp_all
    with False have "(y - 1) div n = y div n"
      by (intro int_div_pos_eq [of "y - 1" n "y div n" "y mod n - 1"]) (simp_all add: algebra_simps)
    with False show ?thesis by simp
  qed
  have "year_days y - year_days (y - 1) = 365 + (y div 4 - (y - 1) div 4)
      - (y div 100 - (y - 1) div 100) + (y div 400 - (y - 1) div 400)"
    unfolding year_days_def by (simp only: algebra_simps)
  moreover have "y div 4 - (y - 1) div 4 = (if y mod 4 = 0 then 1 else 0)"
    "y div 100 - (y - 1) div 100 = (if y mod 100 = 0 then 1 else 0)"
    "y div 400 - (y - 1) div 400 = (if y mod 400 = 0 then 1 else 0)" by (rule q, simp)+
  ultimately have "year_days y - year_days (y - 1) = 365 +
      (if y mod 4 = 0 then 1 else 0) - (if y mod 100 = 0 then 1 else 0) + (if y mod 400 = 0 then 1 else 0)"
    by (simp only:)
  moreover have "y mod 400 = 0 \<Longrightarrow> y mod 100 = 0" "y mod 100 = 0 \<Longrightarrow> y mod 4 = 0"
    by (simp_all flip: dvd_eq_mod_eq_0) (auto elim: dvd_trans [rotated])
  ultimately show ?thesis
    unfolding leap_def by (cases "y mod 400 = 0"; cases "y mod 100 = 0"; cases "y mod 4 = 0") (simp_all only: simp_thms if_True if_False, simp_all)
qed

lemma next_month:
  assumes "1 \<le> y" "m \<in> {1..11}"
  shows "days_from_civil y (m + 1) 1 = days_from_civil y m 1 + days_in_month y m"
proof -
  from assms(2) have "m \<in> {1,2,3,4,5,6,7,8,9,10,11}" by simp arith
  with assms(1) year_days_step [of y] show ?thesis
    by (elim insertE emptyE) (simp_all add: days_from_civil_eq days_in_month_def split: if_splits)
qed

lemma next_year:
  assumes "1 \<le> y"
  shows "days_from_civil (y + 1) 1 1 = days_from_civil y 12 1 + days_in_month y 12"
  using assms by (simp add: days_from_civil_eq days_in_month_def)

text \<open>
  C39: The closed formula of \<open>days_from_civil\<close>, with its eras, shifted years and fractions, counts the days of
  the proleptic Gregorian calendar from the Unix epoch: the epoch is day 0, the next day of a month
  is one more, and the first of the next month is the length of the month later, leap years and century
  rules included. For the years from 1 on this leaves no other value possible; cookie dates lie
  between 1601 and 9999.
\<close>

theorem days_from_civil_calendar:
  assumes "1 \<le> y" and "m \<in> {1..12}"
  shows "days_from_civil 1970 1 1 = 0 \<and>
    days_from_civil y m (d + 1) = days_from_civil y m d + 1 \<and>
    (if m = 12 then days_from_civil (y + 1) 1 1 else days_from_civil y (m + 1) 1)
      = days_from_civil y m 1 + days_in_month y m"
proof -
  have "days_from_civil 1970 1 1 = 0" by (simp add: days_from_civil_eq year_days_def)
  moreover have "days_from_civil y m (d + 1) = days_from_civil y m d + 1"
    using assms by (simp add: days_from_civil_eq)
  ultimately show ?thesis using next_month [of y m] next_year [of y] assms by auto
qed

lemma days_from_civil_calendar_witness:
  "days_from_civil 2024 3 1 = days_from_civil 2024 2 1 + 29 \<and>
   days_from_civil 1900 3 1 = days_from_civil 1900 2 1 + 28"
  using days_from_civil_calendar [of 2024 2 1] days_from_civil_calendar [of 1900 2 1]
  by (simp add: days_in_month_def leap_def)

lemma year_days_mono: "a \<le> b \<Longrightarrow> year_days a \<le> year_days b"
proof (induction b rule: int_ge_induct [of a])
  case (step i)
  then show ?case using year_days_step [of "i + 1"] by (simp split: if_splits)
qed auto

lemma days_from_civil_bounds:
  assumes "1601 \<le> y" "y \<le> 9999" "1 \<le> m" "m \<le> 12" "1 \<le> d" "d \<le> 31"
  shows "-134774 \<le> days_from_civil y m d \<and> days_from_civil y m d \<le> 2932896"
proof (cases "m \<le> 2")
  case True
  with assms have m: "m = 1 \<or> m = 2" by auto
  have "year_days 1600 = 584388" "year_days 9998 = 3651694" by (simp_all add: year_days_def)
  with year_days_mono [of 1600 "y - 1"] year_days_mono [of "y - 1" 9998] m assms
  show ?thesis by (auto simp: days_from_civil_eq)
next
  case False
  with assms have m: "m \<in> {3,4,5,6,7,8,9,10,11,12}" by simp arith
  have "year_days 1601 = 584753" "year_days 9999 = 3652059" by (simp_all add: year_days_def)
  with year_days_mono [of 1601 y] year_days_mono [of y 9999] assms m
  show ?thesis by (elim insertE emptyE) (simp_all add: days_from_civil_eq)
qed

section \<open>Dates in headers\<close>

lemma position_Some:
  "position P xs = Some i \<Longrightarrow> i < length xs \<and> P (xs ! i) \<and> (\<forall>j < i. \<not> P (xs ! j))"
  by (induction xs arbitrary: i) (auto split: if_splits simp: nth_Cons split: nat.splits)

lemma position_None: "position P xs = None \<longleftrightarrow> (\<forall>x \<in> set xs. \<not> P x)"
  by (induction xs) auto

definition fields_ok :: "date_fields \<Rightarrow> bool" where
  "fields_ok f \<longleftrightarrow> (\<forall>d. df_day f = Some d \<longrightarrow> 1 \<le> d \<and> d \<le> 31) \<and>
     (\<forall>m. df_month f = Some m \<longrightarrow> 1 \<le> m \<and> m \<le> 12)"

lemma length_MONTHS: "length MONTHS = 12"
  by (simp add: MONTHS_def)

lemma date_number_ok: "fields_ok f \<Longrightarrow> fields_ok (date_number f token)"
  by (auto simp: fields_ok_def date_number_def split: option.splits)

lemma date_token_ok: "fields_ok f \<Longrightarrow> date_token f token = Done (Some f') \<Longrightarrow> fields_ok f'"
  using date_number_ok [of f token]
  by (auto simp: date_token_def fields_ok_def length_MONTHS split: if_splits option.splits dest!: position_Some)

lemma date_tokens_ok: "fields_ok f \<Longrightarrow> date_tokens f ts = Done (Some f') \<Longrightarrow> fields_ok f'"
  by (induction f ts rule: date_tokens.induct) (auto simp: on_done_eq_Done split: option.splits dest: date_token_ok)

text \<open>
  A date parsed from a header is an instant between the first day of 1601 and the last of
  9999: out-of-range times and years below 1601 are refused, larger years are clamped, and so no
  product in the computation leaves the i64 range.
\<close>

theorem parse_http_date_bounds:
  assumes "parse_http_date s = Done (Some t)"
  shows "-11644473600 \<le> t \<and> t \<le> 253402300800"
proof -
  let ?f0 = "\<lparr>df_day = None, df_month = None, df_year = None, df_time = None\<rparr>"
  let ?ts = "split_whitespace (map (\<lambda>c. if c = CHR ''-'' \<or> c = CHR '','' then CHR '' '' else c) s)"
  from assms obtain r where r: "date_tokens ?f0 ?ts = Done r"
    by (auto simp: parse_http_date_def on_done_eq_Done simp del: date_tokens.simps)
  with assms have "r \<noteq> None" by (cases r) (simp_all add: parse_http_date_def)
  with r obtain f where f1: "date_tokens ?f0 ?ts = Done (Some f)" by blast
  from assms f1 obtain day month year where f: "df_day f = Some day" "df_month f = Some month" "df_year f = Some year"
    by (auto simp: parse_http_date_def bind_eq_Some_conv)
  obtain h m sec where tm: "(case df_time f of Some t \<Rightarrow> t | None \<Rightarrow> (0, 0, 0)) = (h, m, sec)"
    by (metis prod_cases3)
  from assms have t: "t = days_from_civil (min year 9999) month day * 86400 + h * 3600 + m * 60 + sec"
    and r: "0 \<le> h" "h \<le> 23" "0 \<le> m" "m \<le> 59" "0 \<le> sec" "sec \<le> 60" "1601 \<le> year"
    by (auto simp: parse_http_date_def f1 f tm Let_def split: if_splits)
  have "fields_ok f" using date_tokens_ok [OF _ f1] by (simp add: fields_ok_def)
  with f(1,2) have "1 \<le> day" "day \<le> 31" "1 \<le> month" "month \<le> 12" by (simp_all add: fields_ok_def)
  with r(7) have "-134774 \<le> days_from_civil (min year 9999) month day"
    "days_from_civil (min year 9999) month day \<le> 2932896"
    using days_from_civil_bounds [of "min year 9999" month day] by simp_all
  with r t show ?thesis by simp
qed

lemma parse_http_date_bounds_witness:
  "parse_http_date ''Sun, 06 Nov 1994 08:49:37 GMT'' = Done (Some 784111777) \<and>
   -11644473600 \<le> (784111777 :: int) \<and> (784111777 :: int) \<le> 253402300800"
proof -
  have "parse_http_date ''Sun, 06 Nov 1994 08:49:37 GMT'' = Done (Some 784111777)" by code_simp
  with parse_http_date_bounds [OF this] show ?thesis by simp
qed

subsection \<open>Panics\<close>

definition ascii_str :: "string \<Rightarrow> bool" where
  "ascii_str s \<longleftrightarrow> list_all ascii s"

lemma ascii_str_subset: "ascii_str s \<Longrightarrow> set t \<subseteq> set s \<Longrightarrow> ascii_str t"
  by (auto simp: ascii_str_def list_all_iff)

lemma char_boundary_ascii: "ascii_str s \<Longrightarrow> i \<le> length s \<Longrightarrow> char_boundary i s"
proof (cases "i < length s")
  case True
  assume "ascii_str s"
  with True have "ascii (s ! i)" by (simp add: ascii_str_def list_all_length)
  with True show ?thesis by (simp add: char_boundary_def ascii_def)
qed (simp add: char_boundary_def)

lemma date_tokens_no_panic: "\<forall>t \<in> set ts. ascii_str t \<Longrightarrow> date_tokens f ts \<noteq> Panic"
proof (induction f ts rule: date_tokens.induct)
  case (2 f t ts)
  then have "char_boundary 3 t" if "3 \<le> length t" using that by (simp add: char_boundary_ascii)
  then have "date_token f t \<noteq> Panic" by (auto simp: date_token_def split: option.splits)
  with 2 show ?case by (cases "date_token f t") (auto split: option.splits)
qed simp

lemma ascii_str_map: "ascii_str s \<Longrightarrow> (\<And>c. ascii c \<Longrightarrow> ascii (g c)) \<Longrightarrow> ascii_str (map g s)"
  by (auto simp: ascii_str_def list_all_iff)

lemma parse_http_date_no_panic: "ascii_str s \<Longrightarrow> parse_http_date s \<noteq> Panic"
proof -
  let ?n = "map (\<lambda>c. if c = CHR ''-'' \<or> c = CHR '','' then CHR '' '' else c) s"
  assume "ascii_str s"
  then have "ascii_str ?n" by (rule ascii_str_map) (auto simp: ascii_def)
  then have "\<forall>t \<in> set (split_whitespace ?n). ascii_str t"
    using split_whitespace_set ascii_str_subset by blast
  from date_tokens_no_panic [OF this] show ?thesis
    by (cases "date_tokens \<lparr>df_day = None, df_month = None, df_year = None, df_time = None\<rparr> (split_whitespace ?n)")
      (simp_all add: parse_http_date_def)
qed

lemma cookie_attr_no_panic:
  assumes "ascii_str attr"
  shows "cookie_attr a attr \<noteq> Panic"
proof -
  have "ascii_str v" if "split_once CHR ''='' (trim attr) = Some (k, v')" "v = trim v'" for k v v'
    using assms that set_trim [of attr] set_trim [of v']
    by (auto simp: split_once_Some intro: ascii_str_subset)
  then have "parse_http_date (trim v) \<noteq> Panic" if "split_once CHR ''='' (trim attr) = Some (k, v)" for k v
    using that parse_http_date_no_panic by blast
  moreover have "parse_http_date '''' \<noteq> Panic" by (rule parse_http_date_no_panic) (simp add: ascii_str_def)
  ultimately show ?thesis
    by (auto simp: cookie_attr_def Let_def on_done_def split: option.splits outcome.splits)
qed

lemma cookie_attr_loop_no_panic: "\<forall>p \<in> set ps. ascii_str p \<Longrightarrow> cookie_attr_loop a ps \<noteq> Panic"
proof (induction a ps rule: cookie_attr_loop.induct)
  case (2 a p ps)
  then show ?case using cookie_attr_no_panic [of p a] by (cases "cookie_attr a p") auto
qed simp

lemma parse_set_cookie_no_panic:
  assumes "ascii_str v"
  shows "parse_set_cookie psl now v host path \<noteq> Panic"
proof -
  have "\<forall>p \<in> set (split_on CHR '';'' v). ascii_str p"
    using assms split_on_set ascii_str_subset by blast
  then have "cookie_attr_loop a ps \<noteq> Panic" if "split_on CHR '';'' v = p # ps" for a p ps
    using that cookie_attr_loop_no_panic [of ps a] by auto
  then show ?thesis
    by (auto simp: parse_set_cookie_def Let_def on_done_def split: list.splits option.splits outcome.splits)
qed

lemma store_loop_no_panic:
  "\<forall>(n, v) \<in> set hs. ascii_str v \<Longrightarrow> store_loop psl now host path ch rej hs \<noteq> Panic"
proof (induction hs arbitrary: ch rej)
  case (Cons h hs)
  obtain n v where h: "h = (n, v)" by fastforce
  with Cons.prems parse_set_cookie_no_panic [of v psl now host path] show ?case
    by (cases "parse_set_cookie psl now v host path") (auto simp: Cons.IH split: option.splits prod.splits)
qed simp

section \<open>The invariant of a chain\<close>

definition cookie_key :: "cookie \<Rightarrow> string \<times> string \<times> string" where
  "cookie_key c = (c_name c, c_domain c, c_path c)"

definition chain_inv :: "chain_cookies \<Rightarrow> bool" where
  "chain_inv ch \<longleftrightarrow> length (cookies ch) \<le> MAX_COOKIES \<and> chain_bytes (cookies ch) \<le> MAX_CHAIN_BYTES \<and>
     (\<forall>c \<in> set (cookies ch). cookie_size (c_name c) (c_value c) \<le> MAX_COOKIE_BYTES \<and>
        c_name c \<notin> set (caller_names ch)) \<and> distinct (map cookie_key (cookies ch))"

lemma same_cookie_key: "same_cookie c c' \<longleftrightarrow> cookie_key c' = cookie_key c"
  by (simp add: same_cookie_def cookie_key_def)

lemma chain_bytes_simps [simp]:
  "chain_bytes [] = 0" "chain_bytes (c # cs) = cookie_size (c_name c) (c_value c) + chain_bytes cs"
  "chain_bytes (cs @ cs') = chain_bytes cs + chain_bytes cs'"
  by (simp_all add: chain_bytes_def)

text \<open>With distinct keys, removing the first match is filtering out every match.\<close>

lemma remove_match:
  assumes "distinct (map cookie_key cs)" "position (same_cookie c) cs = Some i"
  shows "remove_nth i cs = filter (\<lambda>c'. cookie_key c' \<noteq> cookie_key c) cs"
    and "chain_bytes cs = chain_bytes (remove_nth i cs) + cookie_size (c_name (cs ! i)) (c_value (cs ! i))"
    and "length cs = Suc (length (remove_nth i cs))"
proof -
  from position_Some [OF assms(2)] have i: "i < length cs" "cookie_key (cs ! i) = cookie_key c"
    by (simp_all add: same_cookie_key)
  then have cs: "cs = take i cs @ cs ! i # drop (Suc i) cs" by (simp add: id_take_nth_drop)
  have "distinct (map cookie_key (take i cs @ cs ! i # drop (Suc i) cs))" using assms(1) cs by simp
  then have "\<forall>x \<in> set (take i cs). cookie_key x \<noteq> cookie_key (cs ! i)"
    "\<forall>x \<in> set (drop (Suc i) cs). cookie_key x \<noteq> cookie_key (cs ! i)"
    by (simp_all add: rev_image_eqI) (metis imageI)+
  then have "filter (\<lambda>c'. cookie_key c' \<noteq> cookie_key (cs ! i)) (take i cs @ cs ! i # drop (Suc i) cs)
      = take i cs @ drop (Suc i) cs"
    by (simp add: filter_id_conv [THEN iffD2])
  with cs i(2) show "remove_nth i cs = filter (\<lambda>c'. cookie_key c' \<noteq> cookie_key c) cs"
    by (simp add: remove_nth_def)
  have "chain_bytes (take i cs @ cs ! i # drop (Suc i) cs) = chain_bytes (remove_nth i cs) + cookie_size (c_name (cs ! i)) (c_value (cs ! i))"
    by (simp add: remove_nth_def)
  then show "chain_bytes cs = chain_bytes (remove_nth i cs) + cookie_size (c_name (cs ! i)) (c_value (cs ! i))"
    using cs by simp
  show "length cs = Suc (length (remove_nth i cs))" using i(1) by (simp add: remove_nth_def)
qed

lemma no_match: "position (same_cookie c) cs = None \<Longrightarrow> filter (\<lambda>c'. cookie_key c' \<noteq> cookie_key c) cs = cs"
  by (simp add: position_None same_cookie_key filter_id_conv)

text \<open>What storing one cookie does, with the cookies of the chain as a set of keyed values.\<close>

definition store_spec :: "chain_cookies \<Rightarrow> cookie \<Rightarrow> bool \<Rightarrow> cookie list" where
  "store_spec ch c expired =
     (let others = filter (\<lambda>c'. cookie_key c' \<noteq> cookie_key c) (cookies ch);
          sz = cookie_size (c_name c) (c_value c) in
      if c_name c \<in> set (caller_names ch) \<or> sz > MAX_COOKIE_BYTES then cookies ch
      else if expired then others
      else if length others \<ge> MAX_COOKIES \<or> chain_bytes others + sz > MAX_CHAIN_BYTES then cookies ch
      else others @ [c])"

lemma store_cookie_spec:
  assumes "chain_inv ch"
  shows "fst (store_cookie ch rej c expired) = ch\<lparr>cookies := store_spec ch c expired\<rparr>"
proof -
  have d: "distinct (map cookie_key (cookies ch))" using assms by (simp add: chain_inv_def)
  show ?thesis
  proof (cases "position (same_cookie c) (cookies ch)")
    case None
    then show ?thesis by (auto simp: store_cookie_def store_spec_def no_match Let_def)
  next
    case (Some i)
    note m = remove_match [OF d Some]
    from m(2,3) have "chain_bytes (cookies ch) - cookie_size (c_name (cookies ch ! i)) (c_value (cookies ch ! i))
        = chain_bytes (remove_nth i (cookies ch))" "length (cookies ch) - 1 = length (remove_nth i (cookies ch))"
      by simp_all
    with Some m(1) show ?thesis by (simp add: store_cookie_def store_spec_def Let_def)
  qed
qed

lemma chain_bytes_filter: "chain_bytes (filter P cs) \<le> chain_bytes cs"
  by (induction cs) auto

lemma distinct_map_filter_key: "distinct (map g cs) \<Longrightarrow> distinct (map g (filter P cs))"
  by (induction cs) auto

lemma store_cookie_inv [wf_intros]:
  assumes inv: "chain_inv ch"
  shows "chain_inv (fst (store_cookie ch rej c expired))"
proof -
  let ?o = "filter (\<lambda>c'. cookie_key c' \<noteq> cookie_key c) (cookies ch)"
  have "distinct (map cookie_key ?o)" "cookie_key c \<notin> set (map cookie_key ?o)"
    using inv by (auto simp: chain_inv_def intro: distinct_map_filter_key)
  moreover have "length ?o \<le> MAX_COOKIES" "chain_bytes ?o \<le> MAX_CHAIN_BYTES"
    using inv length_filter_le [of "\<lambda>c'. cookie_key c' \<noteq> cookie_key c" "cookies ch"]
      chain_bytes_filter [of "\<lambda>c'. cookie_key c' \<noteq> cookie_key c" "cookies ch"]
    unfolding chain_inv_def by linarith+
  ultimately show ?thesis
    using inv unfolding store_cookie_spec [OF inv]
    by (auto simp: chain_inv_def store_spec_def Let_def)
qed

lemma store_cookie_names [simp]: "caller_names (fst (store_cookie ch rej c e)) = caller_names ch"
  by (auto simp: store_cookie_def Let_def split: option.splits)

lemma store_loop_inv:
  "chain_inv ch \<Longrightarrow> store_loop psl now host path ch rej hs = Done (ch', rej') \<Longrightarrow>
   chain_inv ch' \<and> caller_names ch' = caller_names ch"
proof (induction hs arbitrary: ch rej)
  case (Cons h hs)
  obtain n v where h: "h = (n, v)" by fastforce
  show ?case
  proof (cases "eq_ignore_ascii_case n ''set-cookie''")
    case False
    with Cons h show ?thesis by simp
  next
    case True
    with Cons.prems(2) h obtain r where r: "parse_set_cookie psl now v host path = Done r"
      by (auto simp: on_done_eq_Done)
    show ?thesis
    proof (cases r)
      case None
      with Cons True h r show ?thesis by simp
    next
      case (Some x)
      then obtain c e where x: "r = Some (c, e)" by (cases x) auto
      obtain ch1 rej1 where st: "store_cookie ch rej c e = (ch1, rej1)" by fastforce
      with store_cookie_inv [OF Cons.prems(1), of rej c e] store_cookie_names [of ch rej c e]
      have "chain_inv ch1" "caller_names ch1 = caller_names ch" by simp_all
      with Cons.IH [of ch1 rej1] Cons.prems(2) True h r x st show ?thesis by simp
    qed
  qed
qed simp

text \<open>
  C21: The ceilings and ownership of a chain's cookies are an invariant of \<open>store\<close>, whatever the
  response headers: at most 50 cookies and 8192 bytes in all, at most 4096 bytes each, no two with
  the same name, domain and path, and none under a name the caller set.
\<close>

theorem chain_store_invariant:
  assumes "chain_inv ch" and "chain_store psl now ch headers u = Done (ch', rej)"
  shows "chain_inv ch' \<and> caller_names ch' = caller_names ch"
  using assms store_loop_inv by (auto simp: chain_store_def Let_def split: option.splits)

text \<open>
  A target cannot crash the client with a cookie: on header values that are ASCII, which is
  what the HTTP library hands out as text, \<open>store\<close> never panics.
\<close>

theorem chain_store_no_panic:
  assumes "\<And>name v. (name, v) \<in> set headers \<Longrightarrow> ascii_str v"
  shows "chain_store psl now ch headers u \<noteq> Panic"
proof -
  have "\<forall>(name, v) \<in> set headers. ascii_str v" using assms by blast
  from store_loop_no_panic [OF this] show ?thesis by (simp add: chain_store_def Let_def split: option.splits)
qed

text \<open>A slice inside a UTF-8 sequence: an \<open>Expires\<close> that is not ASCII can panic.\<close>

lemma parse_http_date_panics: "parse_http_date [CHR ''a'', CHR ''b'', CHR 0xC3, CHR 0xA9] = Panic"
  by code_simp

lemma chain_new_inv: "chain_inv chain_new" "chain_inv (with_caller_cookies ns)"
  by (simp_all add: chain_inv_def chain_new_def with_caller_cookies_def)

definition example_uri :: uri where
  "example_uri = \<lparr>u_scheme = Some ''https'', u_authority = Some ''a.example.com'',
     u_host = Some ''a.example.com'', u_port = None, u_path = ''/login'', u_query = None\<rparr>"

definition example_chain :: chain_cookies where
  "example_chain = \<lparr>cookies = [\<lparr>c_name = ''sid'', c_value = ''1'', c_domain = ''a.example.com'',
     c_host_only = True, c_path = ''/'', c_secure = False\<rparr>], caller_names = []\<rparr>"

lemma store_example:
  "chain_store (\<lambda>_. None) 0 chain_new [(''Set-Cookie'', ''sid=1'')] example_uri =
   Done (example_chain, \<lparr>caller_owned = [], over_limit = []\<rparr>)"
  by code_simp

lemma chain_store_invariant_witness: "chain_inv example_chain \<and> caller_names example_chain = []"
  using chain_store_invariant [OF chain_new_inv(1) store_example] by (simp add: chain_new_def)

lemma chain_store_no_panic_witness:
  "chain_store (\<lambda>_. None) 0 chain_new [(''Set-Cookie'', ''sid=1; Expires=never'')] example_uri \<noteq> Panic"
  by (rule chain_store_no_panic) (auto simp: ascii_str_def ascii_def)

text \<open>
  C36: Storing a cookie acts on the chain as on a map from name, domain and path to a value: a
  cookie the caller owns, or one that is oversized, changes nothing; an expired one deletes its
  entry; one that fits replaces its entry, now last; one that does not fit changes nothing, so a
  refused replacement keeps the incumbent.
\<close>

theorem store_cookie_refines_map:
  assumes "chain_inv ch"
  shows "cookies (fst (store_cookie ch rej c expired)) =
    (let others = filter (\<lambda>c'. cookie_key c' \<noteq> cookie_key c) (cookies ch);
         sz = cookie_size (c_name c) (c_value c) in
     if c_name c \<in> set (caller_names ch) \<or> sz > MAX_COOKIE_BYTES then cookies ch
     else if expired then others
     else if length others \<ge> MAX_COOKIES \<or> chain_bytes others + sz > MAX_CHAIN_BYTES then cookies ch
     else others @ [c])"
  unfolding store_cookie_spec [OF assms] store_spec_def by simp

lemma store_cookie_refines_map_witness:
  "cookies (fst (store_cookie example_chain \<lparr>caller_owned = [], over_limit = []\<rparr>
     (hd (cookies example_chain)) True)) = []"
  using store_cookie_refines_map [of example_chain _ "hd (cookies example_chain)" True]
  by (simp add: example_chain_def chain_inv_def cookie_size_def cookie_limits)

section \<open>What a hop sends\<close>

lemma length_join: "length (join sep ps) = sum_list (map length ps) + (length ps - 1) * length sep"
  by (induction sep ps rule: join.induct) auto

lemma chain_bytes_mset: "mset cs = mset cs' \<Longrightarrow> chain_bytes cs = chain_bytes cs'"
  by (simp add: chain_bytes_def flip: sum_mset_sum_list)

lemma header_length:
  "length (join ''; '' (map (\<lambda>c. c_name c @ ''='' @ c_value c) cs)) \<le> chain_bytes cs"
proof -
  have "sum_list (map (\<lambda>c. length (c_name c) + (length (c_value c) + 1)) cs) + 2 * length cs = chain_bytes cs"
    by (induction cs) (auto simp: cookie_size_def)
  then show ?thesis by (simp add: length_join comp_def)
qed

lemma header_forE:
  assumes "header_for ch u = Some h"
  obtains host cs where "u_host u = Some host"
    "h = join ''; '' (map (\<lambda>c. c_name c @ ''='' @ c_value c) cs)" "cs \<noteq> []"
    "cs = sort_key (\<lambda>c. - int (length (c_path c)))
      (filter (cookie_applies (canonical_host host) (u_path u) (u_scheme u = Some ''https'')) (cookies ch))"
proof -
  from assms obtain host where host: "u_host u = Some host"
    by (auto simp: header_for_def bind_eq_Some_conv)
  let ?m = "filter (cookie_applies (canonical_host host) (u_path u) (u_scheme u = Some ''https'')) (cookies ch)"
  from assms host have "?m \<noteq> []" "h = join ''; '' (map (\<lambda>c. c_name c @ ''='' @ c_value c)
      (sort_key (\<lambda>c. - int (length (c_path c))) ?m))"
    by (auto simp: header_for_def Let_def split: if_splits)
  moreover from this(1) have "sort_key (\<lambda>c. - int (length (c_path c))) ?m \<noteq> []"
    by (metis length_0_conv length_sort)
  ultimately show thesis using that host by blast
qed

text \<open>
  C22: The \<open>Cookie\<close> header of a hop is the non-empty list of exactly the stored cookies that apply
  to it, each as a name and value pair, longer paths first and otherwise in the order they were
  set; and it never exceeds the chain's byte ceiling.
\<close>

theorem header_for_sound:
  assumes "chain_inv ch" and "header_for ch u = Some h"
  shows "\<exists>host cs. u_host u = Some host \<and> h = join ''; '' (map (\<lambda>c. c_name c @ ''='' @ c_value c) cs) \<and>
    cs \<noteq> [] \<and>
    mset cs = mset (filter (cookie_applies (canonical_host host) (u_path u) (u_scheme u = Some ''https'')) (cookies ch)) \<and>
    sorted_wrt (\<lambda>a b. length (c_path a) \<ge> length (c_path b)) cs \<and>
    (\<forall>n. filter (\<lambda>c. length (c_path c) = n) cs = filter (\<lambda>c. length (c_path c) = n)
       (filter (cookie_applies (canonical_host host) (u_path u) (u_scheme u = Some ''https'')) (cookies ch))) \<and>
    length h \<le> MAX_CHAIN_BYTES"
proof -
  from assms(2) obtain host cs where h: "u_host u = Some host"
    "h = join ''; '' (map (\<lambda>c. c_name c @ ''='' @ c_value c) cs)" "cs \<noteq> []"
    and cs: "cs = sort_key (\<lambda>c. - int (length (c_path c)))
      (filter (cookie_applies (canonical_host host) (u_path u) (u_scheme u = Some ''https'')) (cookies ch))"
    by (rule header_forE)
  let ?k = "\<lambda>c. - int (length (c_path c))"
  let ?m = "filter (cookie_applies (canonical_host host) (u_path u) (u_scheme u = Some ''https'')) (cookies ch)"
  have "sorted (map ?k cs)" unfolding cs by (rule sorted_sort_key)
  then have sorted: "sorted_wrt (\<lambda>a b. length (c_path a) \<ge> length (c_path b)) cs"
    by (simp add: sorted_wrt_map)
  have "filter (\<lambda>c. length (c_path c) = n) cs = filter (\<lambda>c. length (c_path c) = n) ?m" for n
    using sort_key_stable [of ?k "- int n" ?m] by (simp add: cs)
  moreover have "mset cs = mset ?m" by (simp add: cs)
  moreover have "chain_bytes cs \<le> MAX_CHAIN_BYTES"
    using chain_bytes_mset [OF \<open>mset cs = mset ?m\<close>] chain_bytes_filter assms(1)
    by (metis chain_inv_def le_trans)
  ultimately show ?thesis using h sorted header_length [of cs] by (intro exI [of _ host] exI [of _ cs]) auto
qed

lemma header_for_sound_witness:
  "header_for example_chain example_uri = Some ''sid=1'' \<and> length ''sid=1'' \<le> MAX_CHAIN_BYTES"
proof -
  have "header_for example_chain example_uri = Some ''sid=1''" by code_simp
  moreover have "chain_inv example_chain"
    by (simp add: example_chain_def chain_inv_def cookie_size_def cookie_limits)
  ultimately show ?thesis using header_for_sound [of example_chain example_uri] by blast
qed

section \<open>Scope\<close>

text \<open>A cookie a response from \<open>host\<close> may set.\<close>

definition cookie_scoped :: "(string \<Rightarrow> string option) \<Rightarrow> string \<Rightarrow> cookie \<Rightarrow> bool" where
  "cookie_scoped psl host c \<longleftrightarrow> (c_host_only c \<and> c_domain c = host) \<or>
     (\<not> c_host_only c \<and> domain_matches host (c_domain c) \<and> parse_ip host = None \<and>
      psl (c_domain c) \<noteq> None \<and> psl host = psl (c_domain c))"

lemma cookie_scope_cases:
  "cookie_scope psl host d = Some (dmn, ho) \<Longrightarrow> (ho \<and> dmn = host) \<or>
     (\<not> ho \<and> domain_matches host dmn \<and> parse_ip host = None \<and> psl dmn \<noteq> None \<and> psl host = psl dmn)"
  by (auto simp: cookie_scope_def is_public_suffix_def registrable_def split: option.splits if_splits)

lemma parse_set_cookie_scoped:
  "parse_set_cookie psl now v host path = Done (Some (c, e)) \<Longrightarrow> cookie_scoped psl host c"
proof -
  assume "parse_set_cookie psl now v host path = Done (Some (c, e))"
  then obtain d where "cookie_scope psl host d = Some (c_domain c, c_host_only c)"
    by (auto simp: parse_set_cookie_def Let_def on_done_eq_Done split: list.splits option.splits if_splits)
  then show ?thesis by (auto simp: cookie_scoped_def dest: cookie_scope_cases)
qed

lemma store_cookie_subset:
  "c' \<in> set (cookies (fst (store_cookie ch rej c e))) \<Longrightarrow> c' \<in> set (cookies ch) \<or> (c' = c \<and> \<not> e)"
  by (auto simp: store_cookie_def Let_def remove_nth_def split: option.splits if_splits
      dest: in_set_takeD in_set_dropD)

text \<open>Where a cookie of a jar comes from: it was there, or one of the \<open>Set-Cookie\<close> lines parses to it.\<close>

definition set_by_headers :: "(string \<Rightarrow> string option) \<Rightarrow> string \<Rightarrow> string \<Rightarrow> header_list \<Rightarrow> cookie \<Rightarrow> bool" where
  "set_by_headers psl host path hs c \<longleftrightarrow> (\<exists>name v now. (name, v) \<in> set hs \<and> eq_ignore_ascii_case name ''set-cookie'' \<and>
     parse_set_cookie psl now v host path = Done (Some (c, False)))"

lemma set_by_headers_mono: "set_by_headers psl host path hs c \<Longrightarrow> set_by_headers psl host path (h # hs) c"
  by (auto simp: set_by_headers_def)

lemma set_by_headers_scoped: "set_by_headers psl host path hs c \<Longrightarrow> cookie_scoped psl host c"
  by (auto simp: set_by_headers_def dest: parse_set_cookie_scoped)

lemma store_loop_sources:
  "store_loop psl now host path ch rej hs = Done (ch', rej') \<Longrightarrow> c \<in> set (cookies ch') \<Longrightarrow>
   c \<in> set (cookies ch) \<or> set_by_headers psl host path hs c"
proof (induction hs arbitrary: ch rej)
  case (Cons h hs)
  obtain n v where h: "h = (n, v)" by fastforce
  show ?case
  proof (cases "eq_ignore_ascii_case n ''set-cookie''")
    case False
    with Cons h show ?thesis using set_by_headers_mono by simp blast
  next
    case True
    with Cons.prems(1) h obtain r where r: "parse_set_cookie psl now v host path = Done r"
      by (auto simp: on_done_eq_Done)
    show ?thesis
    proof (cases r)
      case None
      with Cons True h r show ?thesis using set_by_headers_mono by simp blast
    next
      case (Some x)
      then obtain c1 e where x: "r = Some (c1, e)" by (cases x) auto
      obtain ch1 rej1 where st: "store_cookie ch rej c1 e = (ch1, rej1)" by fastforce
      with Cons.prems True h r x have "store_loop psl now host path ch1 rej1 hs = Done (ch', rej')" by simp
      from Cons.IH [OF this Cons.prems(2)] consider "c \<in> set (cookies ch1)" | "set_by_headers psl host path hs c" by blast
      then show ?thesis
      proof cases
        case 1
        with st store_cookie_subset [of c ch rej c1 e] have "c \<in> set (cookies ch) \<or> c = c1 \<and> \<not> e" by simp
        with r x h True show ?thesis unfolding set_by_headers_def by fastforce
      qed (simp add: set_by_headers_mono)
    qed
  qed
qed simp

lemma store_loop_scoped:
  "store_loop psl now host path ch rej hs = Done (ch', rej') \<Longrightarrow> c \<in> set (cookies ch') \<Longrightarrow>
   c \<in> set (cookies ch) \<or> cookie_scoped psl host c"
  using store_loop_sources set_by_headers_scoped by blast

text \<open>
  Where a cookie set from one host may go: to the same host, or it was set with a domain that is not a
  public suffix, that covers both hosts and lies in the setter's own registrable domain, the setter
  not being an address. A host-only cookie never leaves its host.
\<close>

definition cookie_reaches :: "(string \<Rightarrow> string option) \<Rightarrow> string \<Rightarrow> string \<Rightarrow> cookie \<Rightarrow> bool" where
  "cookie_reaches psl from to c \<longleftrightarrow> to = from \<or>
     (\<not> c_host_only c \<and> domain_matches to (c_domain c) \<and> domain_matches from (c_domain c) \<and>
      parse_ip from = None \<and> psl (c_domain c) \<noteq> None \<and> psl from = psl (c_domain c))"

lemma cookie_applies_reaches:
  "cookie_scoped psl from c \<Longrightarrow> cookie_applies to path https c \<Longrightarrow>
   (c_secure c \<longrightarrow> https) \<and> path_matches path (c_path c) \<and> cookie_reaches psl from to c"
  by (auto simp: cookie_applies_def cookie_scoped_def cookie_reaches_def split: if_splits)

text \<open>
  Only the setter's registrable domain is compared. With a list in which both \<open>amazonaws.com\<close> names
  and names under \<open>s3.amazonaws.com\<close> can be registered, a cookie set from the first reaches the
  second.
\<close>

definition example_psl :: "string \<Rightarrow> string option" where
  "example_psl d = (if d = ''s3.amazonaws.com'' \<or> d = ''com'' then None
     else if d = ''victim.s3.amazonaws.com'' then Some ''victim.s3.amazonaws.com''
     else if d = ''www.amazonaws.com'' \<or> d = ''amazonaws.com'' then Some ''amazonaws.com'' else None)"

lemma widen_across_registrable:
  "cookie_scope example_psl ''www.amazonaws.com'' (Some ''amazonaws.com'') = Some (''amazonaws.com'', False) \<and>
   domain_matches ''victim.s3.amazonaws.com'' ''amazonaws.com'' \<and>
   example_psl ''victim.s3.amazonaws.com'' \<noteq> example_psl ''www.amazonaws.com''"
  by (simp add: cookie_scope_def domain_matches_def ends_with_def parse_ip_first to_digit_def
      is_public_suffix_def registrable_def example_psl_def)

text \<open>
  Path scope follows RFC 6265 5.1.4: a cookie path covers a request path exactly when they are
  equal or the request path continues it at a slash, and a cookie set without a path covers the path
  it was set from.
\<close>

theorem path_scope:
  "(path_matches rp cp \<longleftrightarrow> rp = cp \<or> (\<exists>r. rp = cp @ r \<and> r \<noteq> [] \<and> ((cp \<noteq> [] \<and> last cp = CHR ''/'') \<or> hd r = CHR ''/''))) \<and>
   (prefix ''/'' rp \<longrightarrow> path_matches rp (default_path rp))"
proof
  show "path_matches rp cp \<longleftrightarrow> rp = cp \<or> (\<exists>r. rp = cp @ r \<and> r \<noteq> [] \<and> ((cp \<noteq> [] \<and> last cp = CHR ''/'') \<or> hd r = CHR ''/''))"
    by (auto simp: path_matches_def prefix_def nth_append hd_conv_nth)
  show "prefix ''/'' rp \<longrightarrow> path_matches rp (default_path rp)"
  proof
    assume p: "prefix ''/'' rp"
    show "path_matches rp (default_path rp)"
    proof (cases "rsplit_once CHR ''/'' rp")
      case None
      with p show ?thesis by (auto simp: default_path_def rfind_def path_matches_def)
    next
      case (Some ab)
      obtain a b where ab: "ab = (a, b)" by fastforce
      with Some have rp: "rp = a @ CHR ''/'' # b" by (simp add: rsplit_once_Some)
      show ?thesis
      proof (cases "a = []")
        case True
        with p Some ab show ?thesis by (auto simp: default_path_def rfind_def path_matches_def)
      next
        case False
        then have "default_path rp = a"
          using p Some ab by (cases "length a") (auto simp: default_path_def rfind_def rp)
        then show ?thesis by (simp add: path_matches_def rp)
      qed
    qed
  qed
qed

lemma path_scope_witness: "path_matches ''/a/b'' (default_path ''/a/b'') \<and> \<not> path_matches ''/ab'' ''/a''"
  using path_scope [of "''/a/b''" "''/a''"] path_scope [of "''/ab''" "''/a''"] by auto

text \<open>Every name in a \<open>Cookie\<close> header of the caller is owned by the caller: it is in the list
  the chain is created with, whatever its position and the spaces around it.\<close>

theorem caller_cookie_names_complete:
  assumes "(hn, hv) \<in> set headers" "eq_ignore_ascii_case hn ''cookie''"
    and "pair \<in> set (split_on CHR '';'' hv)" "split_once CHR ''='' pair = Some (n, v)" "trim n \<noteq> []"
  shows "trim n \<in> set (caller_cookie_names headers)"
proof -
  have keep: "set names \<subseteq> set (caller_pairs names ps)" for names ps
  proof (induction ps arbitrary: names)
    case (Cons p ps)
    from Cons.IH [of names] Cons.IH [of "names @ [trim (fst (the (split_once CHR ''='' p)))]"] show ?case
      by (auto simp: Let_def split: option.splits)
  qed simp
  have pairs: "pair \<in> set ps \<Longrightarrow> trim n \<in> set (caller_pairs names ps)" for names ps
  proof (induction ps arbitrary: names)
    case (Cons p ps)
    show ?case
    proof (cases "p = pair")
      case True
      with assms(4,5) keep [of names ps] keep [of "names @ [trim n]" ps] show ?thesis
        by (auto simp: Let_def)
    next
      case False
      with Cons show ?thesis by (auto simp: Let_def split: option.splits)
    qed
  qed simp
  let ?f = "\<lambda>names (name, v). if eq_ignore_ascii_case name ''cookie''
     then caller_pairs names (split_on CHR '';'' v) else names"
  have mono: "x \<in> set names \<Longrightarrow> x \<in> set (foldl ?f names hs)" for x names hs
    using keep by (induction hs arbitrary: names) (auto split: prod.splits)
  have "(hn, hv) \<in> set hs \<Longrightarrow> trim n \<in> set (foldl ?f names hs)" for names hs
  proof (induction hs arbitrary: names)
    case (Cons h hs)
    then show ?case
      using mono pairs [OF assms(3)] assms(2) by (cases "h = (hn, hv)") auto
  qed simp
  with assms(1) show ?thesis by (simp add: caller_cookie_names_def)
qed

lemma caller_cookie_names_complete_witness: "''sid'' \<in> set (caller_cookie_names [(''COOKIE'', ''a=1; sid = 2'')])"
proof -
  have "trim '' sid '' = ''sid''" by code_simp
  moreover have "'' sid = 2'' \<in> set (split_on CHR '';'' ''a=1; sid = 2'')" by simp
  moreover have "eq_ignore_ascii_case ''COOKIE'' ''cookie''" by code_simp
  ultimately show ?thesis
    using caller_cookie_names_complete [of "''COOKIE''" "''a=1; sid = 2''" "[(''COOKIE'', ''a=1; sid = 2'')]" "'' sid = 2''" "'' sid ''"]
    by simp
qed

end
