(* ===== verification/Request_Config.thy ===== *)
theory Request_Config
  imports Std_Net
begin

unbundle bit_operations_syntax

text \<open>
  Request configuration and errors: \<^verbatim>\<open>src/config.rs\<close> and the error types and retry
  classification of \<^verbatim>\<open>src/client/mod.rs\<close>. Durations are milliseconds (\<open>u64\<close>).

  Lemmas: the accessors' defaults; a CIDR block is the set of addresses sharing the prefix; sfx
  patterns match exactly the domain and its subdomains; the no-proxy scan is the disjunction of its
  patterns.
\<close>

section \<open>Errors\<close>

datatype error_kind = Connection | Timeout | Tls | InvalidUrl | TooManyRedirects | Status u16 | OtherKind

definition is_retryable :: "error_kind \<Rightarrow> bool" where
  "is_retryable k = (case k of Connection \<Rightarrow> True | Status s \<Rightarrow> s = 429 | _ \<Rightarrow> False)"

record client_error =
  ce_message :: string
  ce_kind :: error_kind

definition err_connection :: "string \<Rightarrow> client_error" where
  "err_connection m = \<lparr>ce_message = m, ce_kind = Connection\<rparr>"
definition err_timeout :: "string \<Rightarrow> client_error" where
  "err_timeout m = \<lparr>ce_message = m, ce_kind = Timeout\<rparr>"
definition err_tls :: "string \<Rightarrow> client_error" where
  "err_tls m = \<lparr>ce_message = m, ce_kind = Tls\<rparr>"
definition err_invalid_url :: "string \<Rightarrow> client_error" where
  "err_invalid_url m = \<lparr>ce_message = m, ce_kind = InvalidUrl\<rparr>"
definition err_too_many_redirects :: "string \<Rightarrow> client_error" where
  "err_too_many_redirects m = \<lparr>ce_message = m, ce_kind = TooManyRedirects\<rparr>"
definition err_status :: "u16 \<Rightarrow> string \<Rightarrow> client_error" where
  "err_status s m = \<lparr>ce_message = m, ce_kind = Status s\<rparr>"
definition err_other :: "string \<Rightarrow> client_error" where
  "err_other m = \<lparr>ce_message = m, ce_kind = OtherKind\<rparr>"

lemma err_kinds [simp]:
  "ce_kind (err_connection m) = Connection" "ce_kind (err_timeout m) = Timeout" "ce_kind (err_tls m) = Tls"
  "ce_kind (err_invalid_url m) = InvalidUrl" "ce_kind (err_too_many_redirects m) = TooManyRedirects"
  "ce_kind (err_status s m) = Status s" "ce_kind (err_other m) = OtherKind"
  by (simp_all add: err_connection_def err_timeout_def err_tls_def err_invalid_url_def
      err_too_many_redirects_def err_status_def err_other_def)

section \<open>The request\<close>

record request_config =
  rc_url :: string
  rc_method :: "string option"
  rc_headers :: "header_list option"
  rc_body :: "bytes option"
  rc_timeout_seconds :: "u64 option"
  rc_max_body_size :: "nat option"
  rc_follow_redirects :: "bool option"
  rc_max_redirects :: "u32 option"
  rc_redirect_cookies :: "bool option"
  rc_verify_certs :: "bool option"
  rc_proxy :: "string option"
  rc_no_proxy :: "string list"
  rc_cipher_string :: "string option"
  rc_min_tls_version :: "string option"
  rc_max_tls_version :: "string option"
  rc_retries :: "u32 option"
  rc_retry_wait_min_ms :: "u64 option"
  rc_retry_wait_max_ms :: "u64 option"
  rc_raw_path :: "bool option"
  rc_request_target :: "string option"
  rc_resolve_ip :: "string option"
  rc_alpn_protocols :: "string list option"
  rc_verbosity :: u8

definition config_new :: "string \<Rightarrow> request_config" where
  "config_new url = \<lparr>rc_url = url, rc_method = None, rc_headers = None, rc_body = None,
     rc_timeout_seconds = None, rc_max_body_size = None, rc_follow_redirects = None,
     rc_max_redirects = None, rc_redirect_cookies = None, rc_verify_certs = None, rc_proxy = None,
     rc_no_proxy = [], rc_cipher_string = None, rc_min_tls_version = None, rc_max_tls_version = None,
     rc_retries = None, rc_retry_wait_min_ms = None, rc_retry_wait_max_ms = None, rc_raw_path = None,
     rc_request_target = None, rc_resolve_ip = None, rc_alpn_protocols = None, rc_verbosity = 0\<rparr>"

definition unwrap_or :: "'a option \<Rightarrow> 'a \<Rightarrow> 'a" where
  "unwrap_or x d = (case x of Some v \<Rightarrow> v | None \<Rightarrow> d)"

definition config_method :: "request_config \<Rightarrow> string" where
  "config_method c = unwrap_or (rc_method c) ''GET''"
definition config_timeout :: "request_config \<Rightarrow> u64" where
  "config_timeout c = unwrap_or (rc_timeout_seconds c) 10"
definition max_body :: "request_config \<Rightarrow> nat" where
  "max_body c = unwrap_or (rc_max_body_size c) (10 * 1024 * 1024)"
definition should_follow_redirects :: "request_config \<Rightarrow> bool" where
  "should_follow_redirects c = unwrap_or (rc_follow_redirects c) False"
definition redirect_limit :: "request_config \<Rightarrow> u32" where
  "redirect_limit c = unwrap_or (rc_max_redirects c) 10"
definition should_forward_redirect_cookies :: "request_config \<Rightarrow> bool" where
  "should_forward_redirect_cookies c = unwrap_or (rc_redirect_cookies c) True"
definition should_verify_certs :: "request_config \<Rightarrow> bool" where
  "should_verify_certs c = unwrap_or (rc_verify_certs c) False"
definition max_retries :: "request_config \<Rightarrow> u32" where
  "max_retries c = unwrap_or (rc_retries c) 1"
definition retry_wait_min :: "request_config \<Rightarrow> u64" where
  "retry_wait_min c = unwrap_or (rc_retry_wait_min_ms c) 1000"
definition retry_wait_max :: "request_config \<Rightarrow> u64" where
  "retry_wait_max c = unwrap_or (rc_retry_wait_max_ms c) 30000"

definition validate_proxy :: "request_config \<Rightarrow> string + unit" where
  "validate_proxy c =
     (let proxy_set = (case rc_proxy c of Some p \<Rightarrow> trim p \<noteq> [] | None \<Rightarrow> False) in
      if rc_no_proxy c \<noteq> [] \<and> \<not> proxy_set
      then Inl ''no_proxy is set but no proxy is configured; no_proxy only has an effect when a proxy is also set''
      else Inr ())"

section \<open>Hosts that bypass the proxy\<close>

definition host_matches_suffix :: "string \<Rightarrow> string \<Rightarrow> bool" where
  "host_matches_suffix host sfx =
     (if length host = length sfx then eq_ignore_ascii_case host sfx
      else if length host < length sfx then False
      else (let start = length host - length sfx in
            if start \<ge> 1 \<and> host ! (start - 1) = CHR ''.''
            then eq_ignore_ascii_case (drop start host) sfx else False))"

definition ip_in_cidr :: "ip_addr \<Rightarrow> ip_addr \<Rightarrow> u8 \<Rightarrow> bool" where
  "ip_in_cidr ip net prefix_len =
     (case (ip, net) of
        (IpV4 ip, IpV4 net) \<Rightarrow>
          (if prefix_len > 32 then False
           else if prefix_len = 0 then True
           else (let mask = push_bit (unat (32 - prefix_len)) (-1) in ip AND mask = net AND mask))
      | (IpV6 ip, IpV6 net) \<Rightarrow>
          (if prefix_len > 128 then False
           else if prefix_len = 0 then True
           else (let mask = push_bit (unat (128 - prefix_len)) (-1) in ip AND mask = net AND mask))
      | _ \<Rightarrow> False)"

definition trim_matches :: "(char \<Rightarrow> bool) \<Rightarrow> string \<Rightarrow> string" where
  "trim_matches P s = trim_end_matches P (trim_start_matches P s)"

fun bypass_loop :: "string \<Rightarrow> ip_addr option \<Rightarrow> string list \<Rightarrow> bool" where
  "bypass_loop host host_ip [] = False"
| "bypass_loop host host_ip (pattern # patterns) =
     (let pattern = trim pattern in
      if pattern = [] then bypass_loop host host_ip patterns
      else if pattern = ''*'' then True
      else case split_once CHR ''/'' pattern of
        Some (net, pfx) \<Rightarrow>
          (case (host_ip, parse_ip (trim net), parse_uint 255 (trim pfx)) of
             (Some ip, Some net_ip, Some prefix_len) \<Rightarrow>
               (if ip_in_cidr ip net_ip (of_nat prefix_len) then True else bypass_loop host host_ip patterns)
           | _ \<Rightarrow> bypass_loop host host_ip patterns)
      | None \<Rightarrow>
         (case parse_ip pattern of
            Some pattern_ip \<Rightarrow>
              (if Some pattern_ip = host_ip then True else bypass_loop host host_ip patterns)
          | None \<Rightarrow>
             (if host_ip \<noteq> None then bypass_loop host host_ip patterns
              else (let sfx = trim_matches (\<lambda>c. c = CHR ''.'') (trim_start_matches (\<lambda>c. c = CHR ''*'') pattern) in
                    if sfx \<noteq> [] \<and> host_matches_suffix host sfx then True
                    else bypass_loop host host_ip patterns))))"

definition host_bypasses_proxy :: "string \<Rightarrow> string list \<Rightarrow> bool" where
  "host_bypasses_proxy host patterns =
     (if host = [] then False
      else (let host = strip_brackets host;
                host_ip = parse_ip host;
                host = trim_end_matches (\<lambda>c. c = CHR ''.'') host
            in bypass_loop host host_ip patterns))"

definition effective_proxy :: "request_config \<Rightarrow> string \<Rightarrow> string option" where
  "effective_proxy c target_host =
     Option.bind (rc_proxy c) (\<lambda>proxy.
     if host_bypasses_proxy target_host (rc_no_proxy c) then None else Some proxy)"

section \<open>What the patterns mean\<close>

text \<open>One pattern, on its own.\<close>

definition pattern_matches :: "string \<Rightarrow> ip_addr option \<Rightarrow> string \<Rightarrow> bool" where
  "pattern_matches host host_ip p \<longleftrightarrow>
     p = ''*'' \<or>
     (\<exists>net pfx ip nip n. split_once CHR ''/'' p = Some (net, pfx) \<and> host_ip = Some ip \<and>
        parse_ip (trim net) = Some nip \<and> parse_uint 255 (trim pfx) = Some n \<and> ip_in_cidr ip nip (of_nat n)) \<or>
     (p \<noteq> [] \<and> CHR ''/'' \<notin> set p \<and> (case parse_ip p of
        Some pip \<Rightarrow> host_ip = Some pip
      | None \<Rightarrow> host_ip = None \<and>
         (let sfx = trim_matches (\<lambda>c. c = CHR ''.'') (trim_start_matches (\<lambda>c. c = CHR ''*'') p)
          in sfx \<noteq> [] \<and> host_matches_suffix host sfx)))"

lemma bypass_loop_step:
  "bypass_loop host ip (p # ps) \<longleftrightarrow> pattern_matches host ip (trim p) \<or> bypass_loop host ip ps"
proof (cases "split_once CHR ''/'' (trim p)")
  case None
  then have "CHR ''/'' \<notin> set (trim p)" by (simp add: split_once_None)
  with None show ?thesis
    by (auto simp: pattern_matches_def Let_def split: option.splits)
next
  case (Some x)
  obtain net pfx where x: "x = (net, pfx)" by fastforce
  with Some have "CHR ''/'' \<in> set (trim p)" by (auto simp: split_once_Some)
  moreover from this have "trim p \<noteq> ''*''" "trim p \<noteq> []" by auto
  ultimately have "CHR ''/'' \<in> set (trim p)" "trim p \<noteq> ''*''" "trim p \<noteq> []" by blast+
  with Some x show ?thesis
    by (auto simp: pattern_matches_def Let_def split: option.splits)
qed

lemma bypass_loop_any: "bypass_loop host ip ps \<longleftrightarrow> (\<exists>p \<in> set ps. pattern_matches host ip (trim p))"
  by (induction ps) (simp_all only: bypass_loop_step, simp_all)

lemma host_matches_suffix_iff:
  "host_matches_suffix host sfx \<longleftrightarrow> to_ascii_lowercase host = to_ascii_lowercase sfx \<or>
     (\<exists>sub. to_ascii_lowercase host = sub @ CHR ''.'' # to_ascii_lowercase sfx)"
  (is "?l \<longleftrightarrow> ?e \<or> ?s")
proof -
  have dot: "to_lower c = CHR ''.'' \<longleftrightarrow> c = CHR ''.''" for c
  proof -
    have "to_lower c = CHR ''.'' \<Longrightarrow> c = CHR ''.''"
    proof (rule ccontr)
      assume a: "to_lower c = CHR ''.''" "c \<noteq> CHR ''.''"
      then have n: "65 \<le> (of_char c :: nat)" "(of_char c :: nat) \<le> 90" "char_of ((of_char c :: nat) + 32) = CHR ''.''"
        by (auto simp: to_lower_def Let_def split: if_splits)
      then have "of_char (char_of ((of_char c :: nat) + 32)) = (46 :: nat)" by simp
      with n(1,2) show False by simp
    qed
    then show ?thesis by (auto simp: to_lower_def)
  qed
  let ?h = "to_ascii_lowercase host" and ?t = "to_ascii_lowercase sfx"
  have len: "length ?h = length host" "length ?t = length sfx" by simp_all
  show ?thesis
  proof (cases "length host \<le> length sfx")
    case True
    then have "\<not> ?s" by (metis add_le_imp_le_right add.commute len leD length_Cons length_append less_add_Suc1 not_less_eq_eq trans_le_add2)
    with True show ?thesis
      by (auto simp: host_matches_suffix_def eq_ignore_ascii_case_def dest: arg_cong [of _ _ length])
  next
    case False
    then obtain k where k: "length host = Suc k + length sfx"
      by (metis add.commute add_Suc le_add_diff_inverse2 less_imp_Suc_add not_le)
    then have "?h \<noteq> ?t" by (auto dest: arg_cong [of _ _ length])
    moreover have "?l \<longleftrightarrow> host ! k = CHR ''.'' \<and> drop (Suc k) ?h = ?t"
      using k by (simp add: host_matches_suffix_def eq_ignore_ascii_case_def to_ascii_lowercase_def drop_map)
    moreover have "host ! k = CHR ''.'' \<longleftrightarrow> ?h ! k = CHR ''.''"
      using k dot by (simp add: to_ascii_lowercase_def)
    moreover have "?h ! k = CHR ''.'' \<and> drop (Suc k) ?h = ?t \<longleftrightarrow> ?s"
    proof
      assume a: "?h ! k = CHR ''.'' \<and> drop (Suc k) ?h = ?t"
      have "?h = take k ?h @ ?h ! k # drop (Suc k) ?h"
        using k by (intro id_take_nth_drop) simp
      with a show ?s by metis
    next
      assume ?s
      then obtain sub where sub: "?h = sub @ CHR ''.'' # ?t" by blast
      then have "length ?h = length (sub @ CHR ''.'' # ?t)" by simp
      with k len have "length sub = k" by simp
      with sub show "?h ! k = CHR ''.'' \<and> drop (Suc k) ?h = ?t" by (auto simp: nth_append)
    qed
    ultimately show ?thesis by blast
  qed
qed

text \<open>The mask comparison is a comparison of the leading bits.\<close>

lemma mask_prefix:
  fixes a b :: "'a::len word"
  shows "a AND push_bit k (-1) = b AND push_bit k (-1) \<longleftrightarrow> drop_bit k a = drop_bit k b"
proof
  assume eq: "a AND push_bit k (-1) = b AND push_bit k (-1)"
  show "drop_bit k a = drop_bit k b"
  proof (rule bit_word_eqI)
    fix n assume "n < LENGTH('a)"
    from arg_cong [OF eq, of "\<lambda>w. bit w (k + n)"] show "bit (drop_bit k a) n = bit (drop_bit k b) n"
      by (auto simp: bit_simps dest: bit_imp_le_length)
  qed
next
  assume eq: "drop_bit k a = drop_bit k b"
  show "a AND push_bit k (-1) = b AND push_bit k (-1)"
  proof (rule bit_word_eqI)
    fix n assume "n < LENGTH('a)"
    from arg_cong [OF eq, of "\<lambda>w. bit w (n - k)"]
    show "bit (a AND push_bit k (-1)) n = bit (b AND push_bit k (-1)) n"
      by (auto simp: bit_simps)
  qed
qed

text \<open>Addresses of one family that agree on their first \<open>n\<close> bits.\<close>

definition cidr_covers :: "ip_addr \<Rightarrow> ip_addr \<Rightarrow> nat \<Rightarrow> bool" where
  "cidr_covers ip net n = (case (ip, net) of
       (IpV4 a, IpV4 b) \<Rightarrow> n \<le> 32 \<and> drop_bit (32 - n) a = drop_bit (32 - n) b
     | (IpV6 a, IpV6 b) \<Rightarrow> n \<le> 128 \<and> drop_bit (128 - n) a = drop_bit (128 - n) b
     | _ \<Rightarrow> False)"

lemma drop_all_bits: "drop_bit LENGTH('a) (w :: 'a::len word) = 0"
  by (rule bit_word_eqI) (auto simp: bit_simps dest: bit_imp_le_length)

lemma u8_of_nat: "n \<le> 255 \<Longrightarrow> unat (of_nat n :: u8) = n"
  by (simp add: unat_of_nat take_bit_nat_eq_self)

lemma u8_sub: "n \<le> m \<Longrightarrow> m \<le> 255 \<Longrightarrow> unat (of_nat m - of_nat n :: u8) = m - n"
  by (simp add: unat_sub word_le_nat_alt u8_of_nat)

lemma ip_in_cidr_iff:
  assumes "n \<le> 255"
  shows "ip_in_cidr ip net (of_nat n) \<longleftrightarrow> cidr_covers ip net n"
proof -
  have gt: "of_nat n > (32 :: u8) \<longleftrightarrow> n > 32" "of_nat n > (128 :: u8) \<longleftrightarrow> n > 128"
    using assms by (simp_all add: word_less_nat_alt u8_of_nat)
  have z: "(of_nat n :: u8) = 0 \<longleftrightarrow> n = 0"
    using u8_of_nat [OF assms] by (metis unat_eq_0 of_nat_0)
  have sub: "n \<le> 32 \<Longrightarrow> unat (32 - of_nat n :: u8) = 32 - n" "n \<le> 128 \<Longrightarrow> unat (128 - of_nat n :: u8) = 128 - n"
    using u8_sub [of n 32] u8_sub [of n 128] by simp_all
  show ?thesis
  proof (cases ip; cases net)
    fix a b assume "ip = IpV4 a" "net = IpV4 b"
    then show ?thesis
      using gt(1) z sub(1) drop_all_bits [of a] drop_all_bits [of b]
      by (auto simp: ip_in_cidr_def cidr_covers_def mask_prefix [simplified] Let_def not_less)
  next
    fix a b assume "ip = IpV6 a" "net = IpV6 b"
    then show ?thesis
      using gt(2) z sub(2) drop_all_bits [of a] drop_all_bits [of b]
      by (auto simp: ip_in_cidr_def cidr_covers_def mask_prefix [simplified] Let_def not_less)
  qed (simp_all add: ip_in_cidr_def cidr_covers_def)
qed

text \<open>
  The NO_PROXY rules: everything, a block of addresses, one address, or a domain with its
  subdomains, ignoring case, a leading \<open>*\<close> and surrounding dots.
\<close>

definition no_proxy_covers :: "string \<Rightarrow> ip_addr option \<Rightarrow> string \<Rightarrow> bool" where
  "no_proxy_covers host ip p \<longleftrightarrow> p = ''*'' \<or>
     (\<exists>net pfx a b n. p = net @ CHR ''/'' # pfx \<and> CHR ''/'' \<notin> set net \<and> ip = Some a \<and>
        parse_ip (trim net) = Some b \<and> parse_uint 255 (trim pfx) = Some n \<and> cidr_covers a b n) \<or>
     (p \<noteq> [] \<and> CHR ''/'' \<notin> set p \<and> parse_ip p \<noteq> None \<and> ip = parse_ip p) \<or>
     (p \<noteq> [] \<and> CHR ''/'' \<notin> set p \<and> parse_ip p = None \<and> ip = None \<and>
        (let d = trim_matches (\<lambda>c. c = CHR ''.'') (trim_start_matches (\<lambda>c. c = CHR ''*'') p) in
         d \<noteq> [] \<and> (to_ascii_lowercase host = to_ascii_lowercase d \<or>
           (\<exists>sub. to_ascii_lowercase host = sub @ CHR ''.'' # to_ascii_lowercase d))))"

lemma pattern_matches_covers: "pattern_matches host ip p \<longleftrightarrow> no_proxy_covers host ip p"
proof -
  have cidr: "(\<exists>net pfx a b n. split_once CHR ''/'' p = Some (net, pfx) \<and> ip = Some a \<and>
        parse_ip (trim net) = Some b \<and> parse_uint 255 (trim pfx) = Some n \<and> ip_in_cidr a b (of_nat n)) \<longleftrightarrow>
      (\<exists>net pfx a b n. p = net @ CHR ''/'' # pfx \<and> CHR ''/'' \<notin> set net \<and> ip = Some a \<and>
        parse_ip (trim net) = Some b \<and> parse_uint 255 (trim pfx) = Some n \<and> cidr_covers a b n)"
    by (simp add: split_once_Some) (metis ip_in_cidr_iff parse_uint_le)
  show ?thesis
    unfolding pattern_matches_def no_proxy_covers_def cidr host_matches_suffix_iff Let_def
    by (cases "parse_ip p") auto
qed

section \<open>Properties\<close>

text \<open>
  C37: A request bypasses the proxy exactly when some \<open>no_proxy\<close> entry covers its host by the
  NO_PROXY rules, independently of the order of the entries: \<open>*\<close>, a CIDR block that shares its
  prefix bits with the host's address, the same address, or a domain that is the host or a parent of
  it. Brackets around an IPv6 host and trailing dots of a host are ignored; malformed entries cover
  nothing.
\<close>

theorem host_bypasses_proxy_iff:
  "host_bypasses_proxy host patterns \<longleftrightarrow> host \<noteq> [] \<and> (\<exists>p \<in> set patterns.
     no_proxy_covers (trim_end_matches (\<lambda>c. c = CHR ''.'') (strip_brackets host))
       (parse_ip (strip_brackets host)) (trim p))"
  by (simp add: host_bypasses_proxy_def bypass_loop_any pattern_matches_covers Let_def)

text \<open>No status in the 500 range is retried by the transport, only 429 and connection errors.\<close>

lemma is_retryable_iff: "is_retryable k \<longleftrightarrow> k = Connection \<or> k = Status 429"
  by (cases k) (auto simp: is_retryable_def)

lemma server_errors_not_retried: "500 \<le> s \<Longrightarrow> s \<le> 599 \<Longrightarrow> \<not> is_retryable (Status s)"
  by (auto simp: is_retryable_iff)

lemma effective_proxy_None: "rc_proxy c = None \<Longrightarrow> effective_proxy c h = None"
  by (simp add: effective_proxy_def)

end
