(* ===== verification/Proxy.thy ===== *)
theory Proxy
  imports Request_Config
begin

unbundle bit_operations_syntax

text \<open>
  Proxy handling, \<^verbatim>\<open>src/client/proxy.rs\<close>: proxy URLs, the HTTP CONNECT exchange and the
  SOCKS5 handshake over an open socket. A socket is what the peer will send, one element per
  delivery, and what was written. Where the code formats a message for a \<open>ClientError\<close> of the
  connection kind, the model has a constructor with the same arguments.

  Lemmas: proxy URLs read back; the outcome of both exchanges depends on the bytes of the peer and
  not on how they are cut into deliveries; SOCKS5 leaves the socket at the first tunneled byte.
\<close>

section \<open>Proxy URLs\<close>

datatype proxy_scheme = ProxyHttp | ProxySocks5

record proxy_config =
  px_scheme :: proxy_scheme
  px_host :: string
  px_port :: u16
  px_username :: "string option"
  px_password :: "string option"

text \<open>\<open>split_once("://")\<close>.\<close>

fun split_scheme :: "string \<Rightarrow> (string \<times> string) option" where
  "split_scheme (a # b # c # r) =
     (if a = CHR '':'' \<and> b = CHR ''/'' \<and> c = CHR ''/'' then Some ([], r)
      else map_option (\<lambda>(s, t). (a # s, t)) (split_scheme (b # c # r)))"
| "split_scheme _ = None"

definition proxy_scheme_of :: "string \<Rightarrow> proxy_scheme option" where
  "proxy_scheme_of s =
     (if s = ''http'' then Some ProxyHttp
      else if s = ''socks5'' \<or> s = ''socks5h'' then Some ProxySocks5 else None)"

definition parse_proxy_url :: "string \<Rightarrow> client_error + proxy_config" where
  "parse_proxy_url proxy_url =
     and_then (ok_or (split_scheme proxy_url)
       (err_other (''invalid proxy URL (missing '' @ [CHR 0x27] @ ''://'' @ [CHR 0x27] @ ''): '' @ proxy_url)))
       (\<lambda>(scheme_str, rest).
     and_then (ok_or (proxy_scheme_of (to_ascii_lowercase scheme_str))
       (err_other (''unsupported proxy scheme '' @ [CHR 0x27] @ to_ascii_lowercase scheme_str @ [CHR 0x27] @
          ''; use http:// or socks5://''))) (\<lambda>scheme.
     let (userinfo, hostport_rest) = (case split_once CHR ''@'' rest of
           Some (u, h) \<Rightarrow> (Some u, h) | None \<Rightarrow> (None, rest));
         hostport = hd (split_on CHR ''/'' hostport_rest);
         (username, password) = (case userinfo of
           Some u \<Rightarrow> (case split_once CHR '':'' u of
               Some (user, pass) \<Rightarrow> (Some user, Some pass) | None \<Rightarrow> (Some u, None))
         | None \<Rightarrow> (None, None)) in
     and_then (case rsplit_once CHR '':'' hostport of
           Some (h, p) \<Rightarrow>
             and_then (ok_or (parse_uint 65535 p)
               (err_other (''invalid proxy port '' @ [CHR 0x27] @ p @ [CHR 0x27] @ '' in '' @ proxy_url)))
             (\<lambda>port. Inr (h, of_nat port))
         | None \<Rightarrow> Inr (hostport, case scheme of ProxyHttp \<Rightarrow> 8080 | ProxySocks5 \<Rightarrow> 1080)) (\<lambda>(host, port).
     if host = [] then Inl (err_other (''invalid proxy URL (empty host): '' @ proxy_url))
     else Inr \<lparr>px_scheme = scheme, px_host = host, px_port = port,
                px_username = username, px_password = password\<rparr>)))"

section \<open>Sockets\<close>

datatype delivery = Bytes bytes | ReadErr string

record tcp =
  t_in :: "delivery list"
  t_out :: bytes
  t_write_err :: "string option"

definition tcp_write_all :: "tcp \<Rightarrow> bytes \<Rightarrow> (string + unit) \<times> tcp" where
  "tcp_write_all t bs = (case t_write_err t of
     Some e \<Rightarrow> (Inl e, t) | None \<Rightarrow> (Inr (), t\<lparr>t_out := t_out t @ bs\<rparr>))"

text \<open>\<open>read\<close> into a buffer of \<open>n > 0\<close> bytes; an exhausted script is the end of the stream.\<close>

definition tcp_read :: "delivery list \<Rightarrow> nat \<Rightarrow> (string + bytes) \<times> delivery list" where
  "tcp_read ds n = (case ds of
       [] \<Rightarrow> (Inr [], [])
     | ReadErr e # r \<Rightarrow> (Inl e, r)
     | Bytes b # r \<Rightarrow> if length b \<le> n then (Inr b, r) else (Inr (take n b), Bytes (drop n b) # r))"

fun read_exact :: "bytes \<Rightarrow> nat \<Rightarrow> delivery list \<Rightarrow> (string + bytes) \<times> delivery list" where
  "read_exact acc n [] = (if n = 0 then (Inr acc, []) else (Inl ''early eof'', []))"
| "read_exact acc n (ReadErr e # r) = (if n = 0 then (Inr acc, ReadErr e # r) else (Inl e, r))"
| "read_exact acc n (Bytes b # r) =
     (if n = 0 then (Inr acc, Bytes b # r)
      else if b = [] then (Inl ''early eof'', r)
      else if length b \<le> n then read_exact (acc @ b) (n - length b) r
      else (Inr (acc @ take n b), Bytes (drop n b) # r))"

definition tcp_read_exact :: "tcp \<Rightarrow> nat \<Rightarrow> (string + bytes) \<times> tcp" where
  "tcp_read_exact t n = (case read_exact [] n (t_in t) of (r, ds) \<Rightarrow> (r, t\<lparr>t_in := ds\<rparr>))"

text \<open>Sequencing on the socket: an error ends the exchange with the socket as it is.\<close>

definition step :: "('e \<Rightarrow> 'f) \<Rightarrow> ('e + 'a) \<times> tcp \<Rightarrow> ('a \<Rightarrow> tcp \<Rightarrow> ('f + 'b) \<times> tcp) \<Rightarrow> ('f + 'b) \<times> tcp" where
  "step wrap r k = (case r of (Inl e, t) \<Rightarrow> (Inl (wrap e), t) | (Inr x, t) \<Rightarrow> k x t)"

lemma step_simps [simp]: "step w (Inl e, t) k = (Inl (w e), t)" "step w (Inr x, t) k = k x t"
  by (simp_all add: step_def)

section \<open>HTTP CONNECT\<close>

datatype connect_error = ConnectWrite string | ConnectTooLong | ConnectRead string | ConnectClosed
  | ConnectMalformed bytes | ConnectBadStatus bytes | ConnectRejected string u16 bytes

definition crlf :: bytes where "crlf = [0x0D, 0x0A]"

fun find_crlf_crlf :: "bytes \<Rightarrow> nat option" where
  "find_crlf_crlf (a # b # c # d # r) =
     (if [a, b, c, d] = crlf @ crlf then Some 0 else map_option Suc (find_crlf_crlf (b # c # d # r)))"
| "find_crlf_crlf _ = None"

definition connect_request :: "string \<Rightarrow> u16 \<Rightarrow> bytes" where
  "connect_request host port = str_bytes (''CONNECT '' @ host @ '':'' @ show_nat (unat port) @ '' HTTP/1.1'') @ crlf @
     str_bytes (''Host: '' @ host @ '':'' @ show_nat (unat port)) @ crlf @ crlf"

function connect_read :: "bytes \<Rightarrow> delivery list \<Rightarrow> (connect_error + bytes) \<times> delivery list" where
  "connect_read got ds =
     (if length got \<ge> 8192 then (Inl ConnectTooLong, ds)
      else case tcp_read ds (8192 - length got) of
        (Inl e, ds) \<Rightarrow> (Inl (ConnectRead e), ds)
      | (Inr b, ds) \<Rightarrow>
         (if b = [] then (Inl ConnectClosed, ds)
          else (let got = got @ b in
                if find_crlf_crlf got \<noteq> None then (Inr got, ds) else connect_read got ds)))"
  by pat_completeness auto
termination
  by (relation "measure (\<lambda>(got, _). 8192 - length got)")
     (simp_all, metis diff_less_mono2 length_greater_0_conv less_add_same_cancel1 not_le)

declare connect_read.simps [simp del]

text \<open>The status line, its fields at the first two spaces, the status code.\<close>

definition status_line :: "bytes \<Rightarrow> bytes" where
  "status_line response = takeWhile (\<lambda>b. b \<noteq> 0x0D \<and> b \<noteq> 0x0A) response"

definition splitn3 :: "bytes \<Rightarrow> bytes list" where
  "splitn3 l = (let a = takeWhile (\<lambda>b. b \<noteq> 0x20) l; r = drop (length a) l in
     if r = [] then [a]
     else (let r = tl r; b = takeWhile (\<lambda>b. b \<noteq> 0x20) r; r = drop (length b) r in
           if r = [] then [a, b] else [a, b, tl r]))"

definition connect_status :: "string \<Rightarrow> u16 \<Rightarrow> bytes \<Rightarrow> connect_error + unit" where
  "connect_status host port response =
     (let line = status_line response; parts = splitn3 line in
      if length parts < 2 then Inl (ConnectMalformed line)
      else case parse_uint 65535 (bytes_str (parts ! 1)) of
        None \<Rightarrow> Inl (ConnectBadStatus (parts ! 1))
      | Some code \<Rightarrow> if code \<noteq> 200 then Inl (ConnectRejected host port line) else Inr ())"

definition perform_http_connect :: "tcp \<Rightarrow> string \<Rightarrow> u16 \<Rightarrow> (connect_error + unit) \<times> tcp" where
  "perform_http_connect t host port =
     step ConnectWrite (tcp_write_all t (connect_request host port)) (\<lambda>_ t.
     step id (case connect_read [] (t_in t) of (r, ds) \<Rightarrow> (r, t\<lparr>t_in := ds\<rparr>)) (\<lambda>response t.
     (connect_status host port response, t)))"

section \<open>SOCKS5\<close>

datatype socks_error = SocksWrite string string | SocksRead string string | SocksVersion u8
  | SocksNoCredentials | SocksCredentialsTooLong | SocksAuthRejected u8 | SocksNoMethod
  | SocksUnexpectedMethod u8 | SocksHostTooLong | SocksConnectVersion u8
  | SocksConnectFailed string u16 string | SocksBadAtyp u8

definition socks5_error_text :: "u8 \<Rightarrow> string" where
  "socks5_error_text code =
     (if code = 1 then ''general SOCKS server failure''
      else if code = 2 then ''connection not allowed by ruleset''
      else if code = 3 then ''network unreachable''
      else if code = 4 then ''host unreachable''
      else if code = 5 then ''connection refused''
      else if code = 6 then ''TTL expired''
      else if code = 7 then ''command not supported''
      else if code = 8 then ''address type not supported''
      else ''unknown SOCKS5 error'')"

definition socks_offered :: "string option \<Rightarrow> string option \<Rightarrow> bytes" where
  "socks_offered username password = (if username \<noteq> None \<and> password \<noteq> None then [0x00, 0x02] else [0x00])"

definition socks_greeting :: "string option \<Rightarrow> string option \<Rightarrow> bytes" where
  "socks_greeting username password =
     (let offered = socks_offered username password in [0x05, of_nat (length offered)] @ offered)"

definition socks_auth :: "string \<Rightarrow> string \<Rightarrow> bytes" where
  "socks_auth u p = [0x01, of_nat (length u)] @ str_bytes u @ [of_nat (length p)] @ str_bytes p"

definition socks_authenticate :: "tcp \<Rightarrow> string option \<Rightarrow> string option \<Rightarrow> (socks_error + unit) \<times> tcp" where
  "socks_authenticate t username password =
     (case username of None \<Rightarrow> (Inl SocksNoCredentials, t) | Some u \<Rightarrow>
     (case password of None \<Rightarrow> (Inl SocksNoCredentials, t) | Some p \<Rightarrow>
      if length u > 255 \<or> length p > 255 then (Inl SocksCredentialsTooLong, t)
      else step (SocksWrite ''auth'') (tcp_write_all t (socks_auth u p)) (\<lambda>_ t.
           step (SocksRead ''auth'') (tcp_read_exact t 2) (\<lambda>reply t.
           if reply ! 1 \<noteq> 0x00 then (Inl (SocksAuthRejected (reply ! 1)), t) else (Inr (), t)))))"

definition ip6_octets :: "128 word \<Rightarrow> bytes" where
  "ip6_octets w = map (\<lambda>i. ucast (drop_bit (8 * (15 - i)) w)) [0..<16]"

definition socks_address :: "string \<Rightarrow> socks_error + bytes" where
  "socks_address host =
     (case parse_ipv4 host of
        Some ip \<Rightarrow> Inr (0x01 # u32_be ip)
      | None \<Rightarrow> (case parse_ipv6 host of
          Some ip \<Rightarrow> Inr (0x04 # ip6_octets ip)
        | None \<Rightarrow> if length host > 255 then Inl SocksHostTooLong
                  else Inr (0x03 # of_nat (length host) # str_bytes host)))"

text \<open>The CONNECT request and its reply, drained up to the first tunneled byte.\<close>

definition socks_bound_len :: "tcp \<Rightarrow> u8 \<Rightarrow> (socks_error + nat) \<times> tcp" where
  "socks_bound_len t atyp =
     (if atyp = 0x01 then (Inr 4, t)
      else if atyp = 0x04 then (Inr 16, t)
      else if atyp = 0x03 then step (SocksRead ''reply'') (tcp_read_exact t 1) (\<lambda>l t. (Inr (unat (l ! 0)), t))
      else (Inl (SocksBadAtyp atyp), t))"

definition socks_connect :: "tcp \<Rightarrow> string \<Rightarrow> u16 \<Rightarrow> (socks_error + unit) \<times> tcp" where
  "socks_connect t host port =
     step id (socks_address host, t) (\<lambda>addr t.
     step (SocksWrite ''connect'') (tcp_write_all t ([0x05, 0x01, 0x00] @ addr @ u16_be port)) (\<lambda>_ t.
     step (SocksRead ''connect'') (tcp_read_exact t 4) (\<lambda>hdr t.
     if hdr ! 0 \<noteq> 0x05 then (Inl (SocksConnectVersion (hdr ! 0)), t)
     else if hdr ! 1 \<noteq> 0x00 then (Inl (SocksConnectFailed host port (socks5_error_text (hdr ! 1))), t)
     else step id (socks_bound_len t (hdr ! 3)) (\<lambda>addr_len t.
     step (SocksRead ''drain'') (tcp_read_exact t (addr_len + 2)) (\<lambda>_ t. (Inr (), t))))))"

definition perform_socks5 ::
  "tcp \<Rightarrow> string \<Rightarrow> u16 \<Rightarrow> string option \<Rightarrow> string option \<Rightarrow> (socks_error + unit) \<times> tcp" where
  "perform_socks5 t host port username password =
     step (SocksWrite ''greeting'') (tcp_write_all t (socks_greeting username password)) (\<lambda>_ t.
     step (SocksRead ''greeting'') (tcp_read_exact t 2) (\<lambda>chosen t.
     if chosen ! 0 \<noteq> 0x05 then (Inl (SocksVersion (chosen ! 0)), t)
     else step id (if chosen ! 1 = 0x00 then (Inr (), t)
        else if chosen ! 1 = 0x02 then socks_authenticate t username password
        else if chosen ! 1 = 0xFF then (Inl SocksNoMethod, t)
        else (Inl (SocksUnexpectedMethod (chosen ! 1)), t)) (\<lambda>_ t. socks_connect t host port)))"

section \<open>What a peer sends\<close>

text \<open>
  A socket whose writes succeed and whose peer sends exactly the bytes \<open>s\<close> before it closes, cut
  into deliveries in any way.
\<close>

definition sends :: "bytes \<Rightarrow> tcp \<Rightarrow> bool" where
  "sends s t \<longleftrightarrow> t_write_err t = None \<and>
     (\<exists>cs. t_in t = map Bytes cs \<and> [] \<notin> set cs \<and> concat cs = s)"

lemma read_exact_enough:
  "[] \<notin> set cs \<Longrightarrow> n \<le> length (concat cs) \<Longrightarrow>
     \<exists>cs'. read_exact acc n (map Bytes cs) = (Inr (acc @ take n (concat cs)), map Bytes cs') \<and>
       [] \<notin> set cs' \<and> concat cs' = drop n (concat cs)"
proof (induction cs arbitrary: acc n)
  case (Cons c cs)
  consider "n = 0" | "0 < n" "length c \<le> n" | "n < length c" "0 < n" by linarith
  then show ?case
  proof cases
    case 1
    then show ?thesis using Cons.prems by (intro exI [of _ "c # cs"]) auto
  next
    case 2
    then have "n - length c \<le> length (concat cs)" using Cons.prems by simp
    with Cons.IH [of "n - length c" "acc @ c"] Cons.prems 2 show ?thesis by auto
  next
    case 3
    then show ?thesis using Cons.prems by (intro exI [of _ "drop n c # cs"]) auto
  qed
qed (intro exI [of _ "[]"], simp)

lemma read_exact_short:
  "[] \<notin> set cs \<Longrightarrow> length (concat cs) < n \<Longrightarrow> read_exact acc n (map Bytes cs) = (Inl ''early eof'', [])"
  by (induction cs arbitrary: acc n) (auto simp: less_diff_conv add.commute)

lemma tcp_read_exact_sends:
  assumes "sends (b @ s) t"
  shows "\<exists>t'. tcp_read_exact t (length b) = (Inr b, t') \<and> sends s t' \<and> t_out t' = t_out t"
proof -
  from assms obtain cs where cs: "t_in t = map Bytes cs" "[] \<notin> set cs" "concat cs = b @ s" "t_write_err t = None"
    by (auto simp: sends_def)
  from read_exact_enough [OF cs(2), of "length b" "[]"] obtain cs' where
    "read_exact [] (length b) (map Bytes cs) = (Inr b, map Bytes cs')" "[] \<notin> set cs'" "concat cs' = s"
    by (auto simp: cs(3))
  then show ?thesis using cs by (auto simp: tcp_read_exact_def sends_def)
qed

lemma tcp_read_exact_Inr:
  assumes "sends s t" "tcp_read_exact t n = (Inr b, t')"
  shows "\<exists>s'. s = b @ s' \<and> length b = n \<and> sends s' t' \<and> t_out t' = t_out t"
proof (cases "n \<le> length s")
  case True
  have "sends (take n s @ drop n s) t" using assms by simp
  from tcp_read_exact_sends [OF this] True assms(2) show ?thesis
    by (intro exI [of _ "drop n s"]) auto
next
  case False
  with assms read_exact_short [of _ n "[]"] show ?thesis by (auto simp: sends_def tcp_read_exact_def)
qed

lemma tcp_write_all_sends:
  "sends s t \<Longrightarrow> tcp_write_all t bs = (Inr (), t\<lparr>t_out := t_out t @ bs\<rparr>) \<and> sends s (t\<lparr>t_out := t_out t @ bs\<rparr>)"
  by (simp add: sends_def tcp_write_all_def)

lemma step_Inr: "step w r k = (Inr y, t') \<longleftrightarrow> (\<exists>x t. r = (Inr x, t) \<and> k x t = (Inr y, t'))"
  by (cases r; cases "fst r") (auto simp: step_def)

section \<open>SOCKS5: the accepted dialogues\<close>

text \<open>
  \<open>socks_dialogue u p host port q w\<close>: \<open>q\<close> is what a proxy answers and \<open>w\<close> what the client writes
  in a successful handshake. RFC 1928: method selection, the RFC 1929 exchange when method 2 was
  chosen, the reply with its bound address of any of the three types and its port.
\<close>

inductive bound_address :: "bytes \<Rightarrow> bool" where
  bound_v4: "length a = 4 \<Longrightarrow> bound_address (0x01 # a)"
| bound_v6: "length a = 16 \<Longrightarrow> bound_address (0x04 # a)"
| bound_name: "length a = unat n \<Longrightarrow> bound_address (0x03 # n # a)"

inductive socks_dialogue :: "string option \<Rightarrow> string option \<Rightarrow> string \<Rightarrow> u16 \<Rightarrow> bytes \<Rightarrow> bytes \<Rightarrow> bool" where
  no_auth: "socks_address host = Inr addr \<Longrightarrow> bound_address bnd \<Longrightarrow> length bport = 2 \<Longrightarrow>
    socks_dialogue u p host port ([0x05, 0x00] @ [0x05, 0x00, rsv] @ bnd @ bport)
      (socks_greeting u p @ [0x05, 0x01, 0x00] @ addr @ u16_be port)"
| password_auth: "length name \<le> 255 \<Longrightarrow> length pass \<le> 255 \<Longrightarrow> socks_address host = Inr addr \<Longrightarrow>
    bound_address bnd \<Longrightarrow> length bport = 2 \<Longrightarrow>
    socks_dialogue (Some name) (Some pass) host port
      ([0x05, 0x02] @ [ver, 0x00] @ [0x05, 0x00, rsv] @ bnd @ bport)
      (socks_greeting (Some name) (Some pass) @ socks_auth name pass @ [0x05, 0x01, 0x00] @ addr @ u16_be port)"

lemma len4: "length h = 4 \<Longrightarrow> h = [h ! 0, h ! 1, h ! 2, h ! 3]"
  by (auto simp: numeral_eq_Suc length_Suc_conv)

lemma len2: "length h = 2 \<Longrightarrow> h = [h ! 0, h ! 1]"
  by (auto simp: numeral_eq_Suc length_Suc_conv)

lemma len1: "length h = 1 \<Longrightarrow> h = [h ! 0]"
  by (auto simp: numeral_eq_Suc length_Suc_conv)

lemma socks_drain:
  assumes "sends s t" "tcp_read_exact t (n + 2) = (Inr b, t')"
  shows "\<exists>a bport s'. s = a @ bport @ s' \<and> length a = n \<and> length bport = 2 \<and> sends s' t' \<and> t_out t' = t_out t"
proof -
  from tcp_read_exact_Inr [OF assms] obtain s' where "s = b @ s'" "length b = n + 2" "sends s' t'" "t_out t' = t_out t"
    by blast
  then show ?thesis
    by (intro exI [of _ "take n b"] exI [of _ "drop n b"] exI [of _ s']) simp
qed


lemma socks_bound_len_Inr:
  "socks_bound_len t atyp = (Inr n, t1) \<longleftrightarrow>
     atyp = 0x01 \<and> n = 4 \<and> t1 = t \<or> atyp = 0x04 \<and> n = 16 \<and> t1 = t \<or>
     atyp = 0x03 \<and> (\<exists>l. tcp_read_exact t 1 = (Inr l, t1) \<and> n = unat (l ! 0))"
  by (cases "atyp = 0x01"; cases "atyp = 0x04"; cases "atyp = 0x03")
     (auto simp: socks_bound_len_def step_Inr)

lemma socks_bound_sound:
  assumes s: "sends s t" and n: "socks_bound_len t atyp = (Inr n, t1)"
    and b: "tcp_read_exact t1 (n + 2) = (Inr b, t')"
  shows "\<exists>bnd bport rest. atyp # s = bnd @ bport @ rest \<and> bound_address bnd \<and> length bport = 2 \<and>
    sends rest t' \<and> t_out t' = t_out t"
proof -
  consider "atyp = 0x01" "n = 4" "t1 = t" | "atyp = 0x04" "n = 16" "t1 = t"
    | l where "atyp = 0x03" "tcp_read_exact t 1 = (Inr l, t1)" "n = unat (l ! 0)"
    using n unfolding socks_bound_len_Inr by blast
  then show ?thesis
  proof cases
    case 1
    have "tcp_read_exact t (4 + 2) = (Inr b, t')" using b 1 by simp
    from socks_drain [OF s this] obtain a bport rest where "s = a @ bport @ rest" "length a = 4"
      "length bport = 2" "sends rest t'" "t_out t' = t_out t" by blast
    with 1 show ?thesis
      by (intro exI [of _ "0x01 # a"] exI [of _ bport] exI [of _ rest]) (simp add: bound_v4)
  next
    case 2
    have "tcp_read_exact t (16 + 2) = (Inr b, t')" using b 2 by simp
    from socks_drain [OF s this] obtain a bport rest where "s = a @ bport @ rest" "length a = 16"
      "length bport = 2" "sends rest t'" "t_out t' = t_out t" by blast
    with 2 show ?thesis
      by (intro exI [of _ "0x04 # a"] exI [of _ bport] exI [of _ rest]) (simp add: bound_v6)
  next
    case 3
    from tcp_read_exact_Inr [OF s 3(2)] obtain s1 where s1: "s = l @ s1" "length l = 1" "sends s1 t1"
      "t_out t1 = t_out t" by blast
    from socks_drain [OF s1(3) b] obtain a bport rest where a: "s1 = a @ bport @ rest" "length a = n"
      "length bport = 2" "sends rest t'" "t_out t' = t_out t1" by blast
    obtain k where "l = [k]" using s1(2) by (auto simp: length_Suc_conv)
    with 3 s1 a show ?thesis
      by (intro exI [of _ "0x03 # k # a"] exI [of _ bport] exI [of _ rest]) (simp add: bound_name)
  qed
qed

lemma tcp_read_exact_next:
  assumes "sends (b @ s) t" "length b = n"
  obtains t' where "tcp_read_exact t n = (Inr b, t')" "sends s t'" "t_out t' = t_out t"
  using tcp_read_exact_sends [OF assms(1)] assms(2) by auto

lemma socks_bound_complete:
  assumes "sends (as @ bport @ rest) t" "bound_address (atyp # as)" "length bport = 2"
  shows "\<exists>n t1 b t'. socks_bound_len t atyp = (Inr n, t1) \<and> tcp_read_exact t1 (n + 2) = (Inr b, t')"
  using assms(2)
proof cases
  case bound_v4
  with assms obtain t' where "tcp_read_exact t (4 + 2) = (Inr (as @ bport), t')"
    using tcp_read_exact_next [of "as @ bport" rest t "4 + 2"] by auto
  with bound_v4 show ?thesis by (auto simp: socks_bound_len_def)
next
  case bound_v6
  with assms obtain t' where "tcp_read_exact t (16 + 2) = (Inr (as @ bport), t')"
    using tcp_read_exact_next [of "as @ bport" rest t "16 + 2"] by auto
  with bound_v6 show ?thesis by (auto simp: socks_bound_len_def)
next
  case (bound_name a k)
  with assms obtain t1 where t1: "tcp_read_exact t 1 = (Inr [k], t1)" "sends ((a @ bport) @ rest) t1"
    using tcp_read_exact_next [of "[k]" "(a @ bport) @ rest" t 1] by auto
  with bound_name assms(3) obtain t' where "tcp_read_exact t1 (unat k + 2) = (Inr (a @ bport), t')"
    using tcp_read_exact_next [of "a @ bport" rest t1 "unat k + 2"] by auto
  with bound_name t1 show ?thesis by (auto simp: socks_bound_len_def)
qed

lemma socks_connect_sound:
  assumes "sends s t" "socks_connect t host port = (Inr (), t')"
  shows "\<exists>addr rsv bnd bport rest. s = [0x05, 0x00, rsv] @ bnd @ bport @ rest \<and> bound_address bnd \<and>
    length bport = 2 \<and> socks_address host = Inr addr \<and> sends rest t' \<and>
    t_out t' = t_out t @ [0x05, 0x01, 0x00] @ addr @ u16_be port"
proof -
  from assms(2) obtain addr where addr: "socks_address host = Inr addr"
    by (auto simp: socks_connect_def step_Inr)
  define w where "w = [0x05, 0x01, 0x00] @ addr @ u16_be port"
  define tw where "tw = t\<lparr>t_out := t_out t @ w\<rparr>"
  have tw: "tcp_write_all t w = (Inr (), tw)" "sends s tw" "t_out tw = t_out t @ w"
    using tcp_write_all_sends [OF assms(1)] by (simp_all add: tw_def)
  from assms(2) obtain hdr n b t1 t2 where hdr: "tcp_read_exact tw 4 = (Inr hdr, t1)"
      "hdr ! 0 = 0x05" "hdr ! 1 = 0x00"
    and n: "socks_bound_len t1 (hdr ! 3) = (Inr n, t2)" and b: "tcp_read_exact t2 (n + 2) = (Inr b, t')"
    unfolding socks_connect_def by (auto simp: step_Inr addr tw(1) [unfolded w_def, simplified] simp del: add_2_eq_Suc' split: if_splits)
  from tcp_read_exact_Inr [OF tw(2) hdr(1)] obtain s1 where s1: "s = hdr @ s1" "length hdr = 4"
    "sends s1 t1" "t_out t1 = t_out tw" by blast
  from socks_bound_sound [OF s1(3) n b] obtain bnd bport rest where
    br: "hdr ! 3 # s1 = bnd @ bport @ rest" "bound_address bnd" "length bport = 2" "sends rest t'" "t_out t' = t_out t1"
    by blast
  have "hdr @ s1 = [hdr ! 0, hdr ! 1, hdr ! 2] @ hdr ! 3 # s1" by (subst len4 [OF s1(2)]) simp
  then have "s = [0x05, 0x00, hdr ! 2] @ bnd @ bport @ rest" using hdr s1(1) br(1) by simp
  moreover have "t_out t' = t_out t @ w" using br s1 tw by simp
  ultimately show ?thesis using br addr unfolding w_def by blast
qed

lemma socks_connect_complete:
  assumes s: "sends ([0x05, 0x00, rsv] @ bnd @ bport @ rest) t" and bnd: "bound_address bnd"
    and "length bport = 2" "socks_address host = Inr addr"
  shows "\<exists>t'. socks_connect t host port = (Inr (), t')"
proof -
  define w where "w = [0x05, 0x01, 0x00] @ addr @ u16_be port"
  define tw where "tw = t\<lparr>t_out := t_out t @ w\<rparr>"
  have tw: "tcp_write_all t w = (Inr (), tw)" "sends ([0x05, 0x00, rsv] @ bnd @ bport @ rest) tw"
    using tcp_write_all_sends [OF s] by (simp_all add: tw_def)
  obtain atyp as where atyp: "bnd = atyp # as" using bnd by cases auto
  from tw(2) have "sends ([0x05, 0x00, rsv, atyp] @ as @ bport @ rest) tw" by (simp add: atyp)
  from tcp_read_exact_next [OF this, of 4] obtain t1 where
    t1: "tcp_read_exact tw 4 = (Inr [0x05, 0x00, rsv, atyp], t1)" "sends (as @ bport @ rest) t1" by auto
  from socks_bound_complete [OF t1(2) bnd [unfolded atyp] assms(3)] obtain n t2 b t' where
    "socks_bound_len t1 atyp = (Inr n, t2)" "tcp_read_exact t2 (n + 2) = (Inr b, t')" by blast
  with t1 tw assms(4) show ?thesis unfolding socks_connect_def w_def by simp
qed

lemma socks_authenticate_sound:
  assumes "sends s t" "socks_authenticate t u p = (Inr (), t')"
  shows "\<exists>name pass ver rest. u = Some name \<and> p = Some pass \<and> length name \<le> 255 \<and> length pass \<le> 255 \<and>
    s = [ver, 0x00] @ rest \<and> sends rest t' \<and> t_out t' = t_out t @ socks_auth name pass"
proof -
  from assms(2) obtain name pass where np: "u = Some name" "p = Some pass"
    by (auto simp: socks_authenticate_def split: option.splits)
  define tw where "tw = t\<lparr>t_out := t_out t @ socks_auth name pass\<rparr>"
  have tw: "tcp_write_all t (socks_auth name pass) = (Inr (), tw)" "sends s tw"
    "t_out tw = t_out t @ socks_auth name pass"
    using tcp_write_all_sends [OF assms(1)] by (simp_all add: tw_def)
  from assms(2) obtain reply where r: "tcp_read_exact tw 2 = (Inr reply, t')" "reply ! 1 = 0x00"
    "length name \<le> 255" "length pass \<le> 255"
    by (auto simp: socks_authenticate_def np tw(1) step_Inr split: if_splits)
  from tcp_read_exact_Inr [OF tw(2) r(1)] obtain rest where s: "s = reply @ rest" "length reply = 2"
    "sends rest t'" "t_out t' = t_out tw" by blast
  have "reply = [reply ! 0, 0x00]" using len2 [OF s(2)] r(2) by simp
  then have "s = [reply ! 0, 0x00] @ rest" using s(1) by (metis append.assoc)
  moreover have "t_out t' = t_out t @ socks_auth name pass" using s tw by simp
  ultimately show ?thesis using np r(3,4) s(3)
    by (intro exI [of _ name] exI [of _ pass] exI [of _ "reply ! 0"] exI [of _ rest] conjI)
qed

lemma socks_authenticate_complete:
  assumes "sends ([ver, 0x00] @ rest) t" "length name \<le> 255" "length pass \<le> 255"
  shows "\<exists>t'. socks_authenticate t (Some name) (Some pass) = (Inr (), t') \<and> sends rest t'"
proof -
  define tw where "tw = t\<lparr>t_out := t_out t @ socks_auth name pass\<rparr>"
  have tw: "tcp_write_all t (socks_auth name pass) = (Inr (), tw)" "sends ([ver, 0x00] @ rest) tw"
    using tcp_write_all_sends [OF assms(1)] by (simp_all add: tw_def)
  from tcp_read_exact_next [OF tw(2), of 2] obtain t' where
    "tcp_read_exact tw 2 = (Inr [ver, 0x00], t')" "sends rest t'" by auto
  with tw(1) assms(2,3) show ?thesis by (simp add: socks_authenticate_def)
qed

lemma perform_socks5_sound:
  assumes "sends s t" "perform_socks5 t host port u p = (Inr (), t')"
  shows "\<exists>q w rest. s = q @ rest \<and> socks_dialogue u p host port q w \<and> sends rest t' \<and> t_out t' = t_out t @ w"
proof -
  define tw where "tw = t\<lparr>t_out := t_out t @ socks_greeting u p\<rparr>"
  have tw: "tcp_write_all t (socks_greeting u p) = (Inr (), tw)" "sends s tw" "t_out tw = t_out t @ socks_greeting u p"
    using tcp_write_all_sends [OF assms(1)] by (simp_all add: tw_def)
  from assms(2) obtain ch t1 t2 where ch: "tcp_read_exact tw 2 = (Inr ch, t1)" "ch ! 0 = 0x05"
    "ch ! 1 = 0x00 \<and> t2 = t1 \<or> ch ! 1 = 0x02 \<and> socks_authenticate t1 u p = (Inr (), t2)"
    and con: "socks_connect t2 host port = (Inr (), t')"
    unfolding perform_socks5_def by (auto simp: step_Inr tw(1) split: if_splits)
  from tcp_read_exact_Inr [OF tw(2) ch(1)] obtain s1 where s1: "s = ch @ s1" "length ch = 2" "sends s1 t1"
    "t_out t1 = t_out tw" by blast
  have s: "s = [0x05, ch ! 1] @ s1" using len2 [OF s1(2)] ch(2) s1(1) by (metis append.assoc)
  from ch(3) show ?thesis
  proof
    assume a: "ch ! 1 = 0x00 \<and> t2 = t1"
    then have "sends s1 t2" using s1 by simp
    from socks_connect_sound [OF this con] obtain addr rsv bnd bport rest where
      c: "s1 = [0x05, 0x00, rsv] @ bnd @ bport @ rest" "bound_address bnd" "length bport = 2"
      "socks_address host = Inr addr" "sends rest t'" "t_out t' = t_out t2 @ [0x05, 0x01, 0x00] @ addr @ u16_be port"
      by blast
    have "s = ([0x05, 0x00] @ [0x05, 0x00, rsv] @ bnd @ bport) @ rest" using a s c by simp
    moreover have "t_out t' = t_out t @ (socks_greeting u p @ [0x05, 0x01, 0x00] @ addr @ u16_be port)"
      using a c s1 tw by simp
    moreover note no_auth [OF c(4,2,3)] c(5)
    ultimately show ?thesis by blast
  next
    assume a: "ch ! 1 = 0x02 \<and> socks_authenticate t1 u p = (Inr (), t2)"
    from socks_authenticate_sound [OF s1(3) conjunct2 [OF a]] obtain name pass ver s2 where
      au: "u = Some name" "p = Some pass" "length name \<le> 255" "length pass \<le> 255" "s1 = [ver, 0x00] @ s2"
      "sends s2 t2" "t_out t2 = t_out t1 @ socks_auth name pass" by blast
    from socks_connect_sound [OF au(6) con] obtain addr rsv bnd bport rest where
      c: "s2 = [0x05, 0x00, rsv] @ bnd @ bport @ rest" "bound_address bnd" "length bport = 2"
      "socks_address host = Inr addr" "sends rest t'" "t_out t' = t_out t2 @ [0x05, 0x01, 0x00] @ addr @ u16_be port"
      by blast
    have "s = ([0x05, 0x02] @ [ver, 0x00] @ [0x05, 0x00, rsv] @ bnd @ bport) @ rest"
      using a s au c by simp
    moreover have "t_out t' = t_out t @ (socks_greeting (Some name) (Some pass) @ socks_auth name pass @
      [0x05, 0x01, 0x00] @ addr @ u16_be port)" using au c s1 tw by simp
    moreover note password_auth [OF au(3,4) c(4,2,3)] c(5) au(1,2)
    ultimately show ?thesis by blast
  qed
qed

lemma perform_socks5_complete:
  assumes "sends (q @ rest) t" "socks_dialogue u p host port q w"
  shows "\<exists>t'. perform_socks5 t host port u p = (Inr (), t')"
proof -
  define tw where "tw = t\<lparr>t_out := t_out t @ socks_greeting u p\<rparr>"
  have tw: "tcp_write_all t (socks_greeting u p) = (Inr (), tw)" "sends (q @ rest) tw"
    using tcp_write_all_sends [OF assms(1)] by (simp_all add: tw_def)
  from assms(2) show ?thesis
  proof cases
    case (no_auth addr bnd bport rsv)
    have "sends ([0x05, 0x00] @ [0x05, 0x00, rsv] @ bnd @ bport @ rest) tw" using tw(2) no_auth by simp
    from tcp_read_exact_next [OF this, of 2] obtain t1 where
      t1: "tcp_read_exact tw 2 = (Inr [0x05, 0x00], t1)" "sends ([0x05, 0x00, rsv] @ bnd @ bport @ rest) t1" by auto
    from socks_connect_complete [OF t1(2)] no_auth obtain t' where "socks_connect t1 host port = (Inr (), t')" by blast
    with t1(1) tw(1) show ?thesis by (simp add: perform_socks5_def)
  next
    case (password_auth name pass addr bnd bport ver rsv)
    have "sends ([0x05, 0x02] @ [ver, 0x00] @ [0x05, 0x00, rsv] @ bnd @ bport @ rest) tw"
      using tw(2) password_auth by simp
    from tcp_read_exact_next [OF this, of 2] obtain t1 where t1: "tcp_read_exact tw 2 = (Inr [0x05, 0x02], t1)"
      "sends ([ver, 0x00] @ [0x05, 0x00, rsv] @ bnd @ bport @ rest) t1" by auto
    from socks_authenticate_complete [OF t1(2)] password_auth obtain t2 where
      t2: "socks_authenticate t1 u p = (Inr (), t2)" "sends ([0x05, 0x00, rsv] @ bnd @ bport @ rest) t2" by blast
    from socks_connect_complete [OF t2(2)] password_auth obtain t' where "socks_connect t2 host port = (Inr (), t')"
      by blast
    with t1(1) t2(1) tw(1) show ?thesis by (simp add: perform_socks5_def)
  qed
qed

text \<open>The CONNECT exchange over all the bytes of the peer at once.\<close>

definition connect_outcome :: "string \<Rightarrow> u16 \<Rightarrow> bytes \<Rightarrow> connect_error + unit" where
  "connect_outcome host port s =
     (if find_crlf_crlf (take 8192 s) \<noteq> None then connect_status host port s
      else if length s \<ge> 8192 then Inl ConnectTooLong else Inl ConnectClosed)"

lemma find_crlf_crlf_append: "find_crlf_crlf a \<noteq> None \<Longrightarrow> find_crlf_crlf (a @ b) \<noteq> None"
  by (induction a rule: find_crlf_crlf.induct) (auto split: if_splits)

lemma find_crlf_crlf_CR: "find_crlf_crlf a \<noteq> None \<Longrightarrow> 0x0D \<in> set a"
  by (induction a rule: find_crlf_crlf.induct) (auto simp: crlf_def split: if_splits)

lemma status_line_prefix: "0x0D \<in> set a \<Longrightarrow> status_line (a @ b) = status_line a"
  by (auto simp: status_line_def takeWhile_append1)

lemma tcp_read_Bytes:
  assumes "c \<noteq> []" "0 < n" "[] \<notin> set cs"
  obtains b cs' where "tcp_read (Bytes c # map Bytes cs) n = (Inr b, map Bytes cs')" "b \<noteq> []" "length b \<le> n"
    "[] \<notin> set cs'" "b @ concat cs' = c @ concat cs"
proof (cases "length c \<le> n")
  case True
  then show ?thesis using assms that [of c cs] by (simp add: tcp_read_def)
next
  case False
  then show ?thesis using assms that [of "take n c" "drop n c # cs"] by (auto simp: tcp_read_def)
qed

lemma connect_read_outcome:
  assumes "[] \<notin> set cs" "find_crlf_crlf got = None" "length got \<le> 8192"
  shows "fst (connect_read got (map Bytes cs)) =
      (if length (got @ concat cs) < 8192 then Inl ConnectClosed else Inl ConnectTooLong) \<and>
      find_crlf_crlf (take 8192 (got @ concat cs)) = None \<or>
    (\<exists>r rest. fst (connect_read got (map Bytes cs)) = Inr r \<and> got @ concat cs = r @ rest \<and> length r \<le> 8192 \<and>
      find_crlf_crlf r \<noteq> None)"
  using assms
proof (induction "8192 - length got" arbitrary: got cs rule: less_induct)
  case less
  show ?case
  proof (cases "8192 \<le> length got")
    case True
    then show ?thesis using less.prems by (simp add: connect_read.simps [of got])
  next
    case False
    show ?thesis
    proof (cases cs)
      case Nil
      then show ?thesis using False less.prems by (simp add: connect_read.simps [of got] tcp_read_def)
    next
      case (Cons c cs')
      have "c \<noteq> []" "0 < 8192 - length got" "[] \<notin> set cs'" using less.prems Cons False by auto
      then obtain b cs'' where b: "tcp_read (Bytes c # map Bytes cs') (8192 - length got) = (Inr b, map Bytes cs'')"
        "b \<noteq> []" "length b \<le> 8192 - length got" "[] \<notin> set cs''" "b @ concat cs'' = c @ concat cs'"
        by (rule tcp_read_Bytes)
      have S: "got @ concat cs = (got @ b) @ concat cs''" using b(5) Cons by simp
      have eq: "connect_read got (map Bytes cs) =
          (if find_crlf_crlf (got @ b) \<noteq> None then (Inr (got @ b), map Bytes cs'')
           else connect_read (got @ b) (map Bytes cs''))"
        using False Cons b(1,2) by (simp add: connect_read.simps [of got] Let_def)
      have len: "length (got @ b) \<le> 8192" using b(3) False by simp
      show ?thesis
      proof (cases "find_crlf_crlf (got @ b) = None")
        case True
        have "8192 - length (got @ b) < 8192 - length got" using b(2) False by (cases b) auto
        from less.hyps [OF this b(4) True len] show ?thesis unfolding eq S using True by simp
      next
        case F: False
        then show ?thesis unfolding eq S using len by (intro disjI2 exI) auto
      qed
    qed
  qed
qed

lemma connect_read_outcome_stream:
  assumes "[] \<notin> set cs"
  shows "(case fst (connect_read [] (map Bytes cs)) of Inl e \<Rightarrow> Inl e | Inr r \<Rightarrow> connect_status host port r) =
    connect_outcome host port (concat cs)"
proof -
  have "find_crlf_crlf [] = None" "length ([] :: bytes) \<le> 8192" by simp_all
  from connect_read_outcome [OF assms this] show ?thesis
proof (elim disjE conjE exE, goal_cases)
  case (2 r rest)
  then have "r @ rest = concat cs" "length r \<le> 8192" "find_crlf_crlf r \<noteq> None" by auto
  moreover from this have "take 8192 (concat cs) = r @ take (8192 - length r) rest"
    by (metis take_all take_append)
  ultimately have "find_crlf_crlf (take 8192 (concat cs)) \<noteq> None"
    using find_crlf_crlf_append by metis
  moreover have "status_line (concat cs) = status_line r"
    using status_line_prefix find_crlf_crlf_CR \<open>r @ rest = concat cs\<close> \<open>find_crlf_crlf r \<noteq> None\<close> by metis
  ultimately show ?case using 2 by (simp add: connect_outcome_def connect_status_def)
qed (auto simp: connect_outcome_def)
qed

section \<open>Properties\<close>

text \<open>
  C6: The CONNECT exchange does not depend on how the network cuts the proxy's answer: over a
  socket whose peer sends the bytes \<open>s\<close> in any deliveries, the request is written once and the
  outcome is that of the first status line of \<open>s\<close>, provided the head ends within 8 KiB, else the
  size or the close error. A tunnel is reported only for status 200.
\<close>

theorem http_connect_outcome:
  assumes "sends s t"
  shows "fst (perform_http_connect t host port) = connect_outcome host port s \<and>
    t_out (snd (perform_http_connect t host port)) = t_out t @ connect_request host port"
proof -
  define tw where "tw = t\<lparr>t_out := t_out t @ connect_request host port\<rparr>"
  from tcp_write_all_sends [OF assms] have tw: "tcp_write_all t (connect_request host port) = (Inr (), tw)"
    "sends s tw" by (simp_all add: tw_def)
  then obtain cs where cs: "t_in tw = map Bytes cs" "[] \<notin> set cs" "concat cs = s" by (auto simp: sends_def)
  obtain r ds where r: "connect_read [] (map Bytes cs) = (r, ds)" by fastforce
  have o: "t_out tw = t_out t @ connect_request host port" by (simp add: tw_def)
  from connect_read_outcome_stream [OF cs(2), of host port] show ?thesis
    unfolding perform_http_connect_def tw(1)
    by (cases r) (simp_all add: cs r o)
qed

lemma http_connect_outcome_witness:
  "fst (perform_http_connect \<lparr>t_in = [Bytes [72, 32], Bytes [50, 48, 48, 13], Bytes [10, 13, 10]],
       t_out = [], t_write_err = None\<rparr> ''a.b'' 443) = Inr ()"
proof -
  have s: "sends [72, 32, 50, 48, 48, 13, 10, 13, 10] \<lparr>t_in = [Bytes [72, 32], Bytes [50, 48, 48, 13], Bytes [10, 13, 10]],
       t_out = [], t_write_err = None\<rparr>"
    by (auto simp: sends_def intro!: exI [of _ "[[72, 32], [50, 48, 48, 13], [10, 13, 10]]"])
  have "connect_outcome ''a.b'' 443 [72, 32, 50, 48, 48, 13, 10, 13, 10] = Inr ()"
    by (simp add: connect_outcome_def connect_status_def status_line_def splitn3_def crlf_def bytes_str_def
        parse_uint_def parse_digits_def digits_val_def is_digit_def digit_val_def char_of_eq_iff)
  with http_connect_outcome [OF s, THEN conjunct1, of "''a.b''" 443] show ?thesis by (rule trans)
qed

text \<open>What the proxy sends behind its head in the same delivery is read and dropped.\<close>

lemma connect_drops_tunnel_bytes:
  "perform_http_connect \<lparr>t_in = [Bytes [72, 32, 50, 48, 48, 13, 10, 13, 10, 104, 105]],
      t_out = [], t_write_err = None\<rparr> ''a.b'' 443 =
    (Inr (), \<lparr>t_in = [], t_out = connect_request ''a.b'' 443, t_write_err = None\<rparr>)"
  by (simp add: perform_http_connect_def tcp_write_all_def connect_read.simps [of "[]"] tcp_read_def
      connect_status_def status_line_def splitn3_def crlf_def bytes_str_def
        parse_uint_def parse_digits_def digits_val_def is_digit_def digit_val_def char_of_eq_iff)

text \<open>
  C7: A SOCKS5 handshake succeeds exactly on the dialogues of RFC 1928 and 1929: what the proxy
  sends starts with a complete sequence of accepting replies, whatever the deliveries. Then the
  client has written its part and nothing else (credentials only when the proxy chose method 2 and
  both were given), and the socket stands at the first tunneled byte.
\<close>

theorem socks5_handshake:
  assumes "sends s t"
  shows "(\<forall>t'. perform_socks5 t host port u p = (Inr (), t') \<longrightarrow>
      (\<exists>q w rest. s = q @ rest \<and> socks_dialogue u p host port q w \<and> sends rest t' \<and> t_out t' = t_out t @ w)) \<and>
    ((\<exists>q w rest. s = q @ rest \<and> socks_dialogue u p host port q w) \<longrightarrow>
      (\<exists>t'. perform_socks5 t host port u p = (Inr (), t')))"
  using perform_socks5_sound [OF assms] perform_socks5_complete assms by blast

lemma socks5_handshake_witness:
  "\<exists>t' q w rest. perform_socks5 \<lparr>t_in = [Bytes [5], Bytes [2, 1, 0, 5], Bytes [0, 0, 3, 1, 97, 0, 80, 42]],
     t_out = [], t_write_err = None\<rparr> ''a.b'' 443 (Some ''u'') (Some ''p'') = (Inr (), t') \<and>
     [5, 2, 1, 0, 5, 0, 0, 3, 1, 97, 0, 80, 42] = q @ rest \<and>
     socks_dialogue (Some ''u'') (Some ''p'') ''a.b'' 443 q w \<and> sends rest t' \<and> t_out t' = w"
proof -
  let ?t = "\<lparr>t_in = [Bytes [5], Bytes [2, 1, 0, 5], Bytes [0, 0, 3, 1, 97, 0, 80, 42]], t_out = [], t_write_err = None\<rparr>"
  let ?s = "[5, 2, 1, 0, 5, 0, 0, 3, 1, 97, 0, 80, 42]"
  have s: "sends ?s ?t"
    by (auto simp: sends_def intro!: exI [of _ "[[5], [2, 1, 0, 5], [0, 0, 3, 1, 97, 0, 80, 42]]"])
  have a: "socks_address ''a.b'' = Inr [3, 3, 97, 46, 98]"
    by (simp add: socks_address_def ip_eval str_bytes_def)
  have "bound_address [3, 1, 97]" by (rule bound_name) simp
  from password_auth [of "''u''" "''p''", OF _ _ a this, of "[0, 80]" 443 1 0] have
    "\<exists>w. socks_dialogue (Some ''u'') (Some ''p'') ''a.b'' 443 [5, 2, 1, 0, 5, 0, 0, 3, 1, 97, 0, 80] w" by auto
  moreover have "?s = [5, 2, 1, 0, 5, 0, 0, 3, 1, 97, 0, 80] @ [42]" by simp
  ultimately have "\<exists>q w rest. ?s = q @ rest \<and> socks_dialogue (Some ''u'') (Some ''p'') ''a.b'' 443 q w" by blast
  then obtain t' where "perform_socks5 ?t ''a.b'' 443 (Some ''u'') (Some ''p'') = (Inr (), t')"
    using socks5_handshake [OF s] by blast
  then show ?thesis using socks5_handshake [OF s] by fastforce
qed

text \<open>
  The text of a proxy URL: optional credentials, host, port and anything behind a slash.
\<close>

definition proxy_url_text :: "string \<Rightarrow> (string \<times> string option) option \<Rightarrow> string \<Rightarrow> u16 \<Rightarrow> string \<Rightarrow> string" where
  "proxy_url_text scheme cred host port tail = scheme @ ''://'' @
     (case cred of None \<Rightarrow> [] | Some (u, None) \<Rightarrow> u @ ''@'' | Some (u, Some p) \<Rightarrow> u @ '':'' @ p @ ''@'') @
     host @ '':'' @ show_nat (unat port) @ tail"

lemma split_scheme_url: "CHR '':'' \<notin> set s \<Longrightarrow> split_scheme (s @ ''://'' @ r) = Some (s, r)"
proof (induction s)
  case (Cons a s)
  then show ?case by (cases s; cases "tl s") auto
qed simp

lemma split_once_first: "c \<notin> set a \<Longrightarrow> split_once c (a @ c # b) = Some (a, b)"
  by (simp add: split_once_Some)

lemma rsplit_once_last: "c \<notin> set b \<Longrightarrow> rsplit_once c (a @ c # b) = Some (a, b)"
  by (simp add: rsplit_once_Some)

lemma hd_split_on: "c \<notin> set a \<Longrightarrow> hd (split_on c (a @ c # b)) = a"
  by (simp add: split_on_append)

text \<open>The user info of a URL, before the \<open>@\<close>, and what the code splits it into.\<close>

definition user_info :: "(string \<times> string option) option \<Rightarrow> string option" where
  "user_info cred = map_option (\<lambda>(u, p). case p of None \<Rightarrow> u | Some q \<Rightarrow> u @ '':'' @ q) cred"

definition separable :: "(string \<times> string option) option \<Rightarrow> bool" where
  "separable cred \<longleftrightarrow> (\<forall>u p. cred = Some (u, p) \<longrightarrow>
     CHR ''@'' \<notin> set u \<and> CHR '':'' \<notin> set u \<and> (\<forall>q. p = Some q \<longrightarrow> CHR ''@'' \<notin> set q))"

lemma split_user_info:
  assumes "cred = None \<longrightarrow> CHR ''@'' \<notin> set rest" "separable cred"
  shows "(case split_once CHR ''@'' ((case user_info cred of None \<Rightarrow> [] | Some i \<Rightarrow> i @ ''@'') @ rest) of
      Some (u, h) \<Rightarrow> (Some u, h)
    | None \<Rightarrow> (None, (case user_info cred of None \<Rightarrow> [] | Some i \<Rightarrow> i @ ''@'') @ rest)) = (user_info cred, rest)"
proof (cases cred)
  case None
  with assms(1) show ?thesis by (simp add: user_info_def split_once_None [THEN iffD2])
next
  case (Some c)
  obtain u q where c: "c = (u, q)" by fastforce
  define s where "s = (case q of None \<Rightarrow> u | Some q \<Rightarrow> u @ '':'' @ q)"
  have "CHR ''@'' \<notin> set s" using assms(2) Some c by (auto simp: s_def separable_def split: option.split)
  then have "split_once CHR ''@'' (s @ CHR ''@'' # rest) = Some (s, rest)" by (simp add: split_once_first)
  then show ?thesis by (cases q) (simp_all add: Some c s_def user_info_def)
qed

lemma split_user_pass:
  assumes "separable cred"
  shows "(case user_info cred of
      Some u \<Rightarrow> (case split_once CHR '':'' u of Some (user, pass) \<Rightarrow> (Some user, Some pass) | None \<Rightarrow> (Some u, None))
    | None \<Rightarrow> (None, None)) = (map_option fst cred, Option.bind cred snd)"
proof (cases cred)
  case (Some c)
  obtain u q where c: "c = (u, q)" by fastforce
  then have "split_once CHR '':'' u = None" "split_once CHR '':'' (u @ CHR '':'' # v) = Some (u, v)" for v
    using assms Some by (simp_all add: split_once_None split_once_first separable_def)
  then show ?thesis by (cases q) (simp_all add: Some c user_info_def)
qed (simp add: user_info_def)

text \<open>
  C26: A proxy URL reads back. For http and socks5 in any case, user and password free of the
  separators that end them, a host without slash and at sign, any port and any path behind it, the
  parser returns exactly these parts.
\<close>

theorem parse_proxy_url_roundtrip:
  assumes "proxy_scheme_of (to_ascii_lowercase scheme) = Some sc" "CHR '':'' \<notin> set scheme"
    "host \<noteq> []" "CHR ''/'' \<notin> set host" "CHR ''@'' \<notin> set host" "tail = [] \<or> hd tail = CHR ''/''"
    "cred = None \<longrightarrow> CHR ''@'' \<notin> set tail"
    "\<forall>u p. cred = Some (u, p) \<longrightarrow> CHR ''@'' \<notin> set u \<and> CHR '':'' \<notin> set u \<and> (\<forall>q. p = Some q \<longrightarrow> CHR ''@'' \<notin> set q)"
  shows "parse_proxy_url (proxy_url_text scheme cred host port tail) = Inr \<lparr>px_scheme = sc, px_host = host,
    px_port = port, px_username = map_option fst cred, px_password = Option.bind cred snd\<rparr>"
proof -
  define p where "p = show_nat (unat port)"
  define hp where "hp = host @ '':'' @ p"
  define ui where "ui = (case user_info cred of None \<Rightarrow> [] | Some i \<Rightarrow> i @ ''@'')"
  have sep: "separable cred" using assms(8) by (simp add: separable_def)
  have digits: "\<not> is_digit c \<Longrightarrow> c \<notin> set p" for c
    using show_nat_digits [of "unat port"] by (auto simp: p_def list_all_iff)
  have np: "CHR '':'' \<notin> set p" "CHR ''/'' \<notin> set p" "CHR ''@'' \<notin> set p"
    by (rule digits, simp add: is_digit_def)+
  have url: "proxy_url_text scheme cred host port tail = scheme @ ''://'' @ ui @ hp @ tail"
    by (auto simp: proxy_url_text_def ui_def hp_def p_def user_info_def split: option.split)
  have at: "(case split_once CHR ''@'' (ui @ hp @ tail) of Some (u, h) \<Rightarrow> (Some u, h) | None \<Rightarrow> (None, ui @ hp @ tail)) =
      (user_info cred, hp @ tail)"
    unfolding ui_def using assms(5,7) np by (intro split_user_info sep) (simp add: hp_def)
  have "CHR ''/'' \<notin> set hp" using assms(4) np by (simp add: hp_def)
  then have hd: "hd (split_on CHR ''/'' (hp @ tail)) = hp"
    using assms(6) hd_split_on [of "CHR ''/''" hp "List.tl tail"] split_on_no_sep
    by (cases tail) auto
  have rs: "rsplit_once CHR '':'' hp = Some (host, p)" using np by (simp add: hp_def rsplit_once_last)
  have "unat port < 2 ^ LENGTH(16)" by (rule unsigned_less)
  then have "unat port \<le> 65535" by simp
  then have pp: "parse_uint 65535 p = Some (unat port)" unfolding p_def by (rule parse_uint_show_nat)
  show ?thesis
    unfolding parse_proxy_url_def url split_scheme_url [OF assms(2)]
    using assms(1,3) by (simp add: at hd split_user_pass [OF sep] rs pp Let_def)
qed

lemma parse_proxy_url_roundtrip_witness:
  "parse_proxy_url ''SOCKS5h://u:p:q@[::1]:1080/x'' = Inr \<lparr>px_scheme = ProxySocks5, px_host = ''[::1]'',
    px_port = 1080, px_username = Some ''u'', px_password = Some ''p:q''\<rparr>"
proof -
  have "proxy_scheme_of (to_ascii_lowercase ''SOCKS5h'') = Some ProxySocks5" by code_simp
  from parse_proxy_url_roundtrip [OF this, of "''[::1]''" "''/x''" "Some (''u'', Some ''p:q'')" 1080]
  have "parse_proxy_url (proxy_url_text ''SOCKS5h'' (Some (''u'', Some ''p:q'')) ''[::1]'' 1080 ''/x'') =
    Inr \<lparr>px_scheme = ProxySocks5, px_host = ''[::1]'', px_port = 1080, px_username = Some ''u'', px_password = Some ''p:q''\<rparr>"
    by simp
  moreover have "proxy_url_text ''SOCKS5h'' (Some (''u'', Some ''p:q'')) ''[::1]'' 1080 ''/x'' = ''SOCKS5h://u:p:q@[::1]:1080/x''"
    by code_simp
  ultimately show ?thesis by simp
qed

text \<open>The first at sign ends the credentials: a password that contains one is cut short.\<close>

lemma password_with_at_sign:
  "parse_proxy_url ''http://u:p@q@h'' = Inr \<lparr>px_scheme = ProxyHttp, px_host = ''q@h'', px_port = 8080,
     px_username = Some ''u'', px_password = Some ''p''\<rparr>"
  by code_simp

end
