(* ===== verification/Content_Coding.thy ===== *)
theory Content_Coding
  imports Request_Config
begin

unbundle bit_operations_syntax

text \<open>
  Response bodies, \<^verbatim>\<open>src/client/hyper.rs\<close>: the bounded read off the wire (\<open>read_body\<close>), the content
  codings (\<open>decompress\<close>, \<open>decode_one\<close>, \<open>decode_deflate\<close>, \<open>read_bounded\<close>) and the response record
  built from both (\<open>parse_response\<close>).

  The decoders of the flate2 and brotli crates are a parameter of type \<open>decoders\<close>: for a stream
  format and an input, the bytes the reader yields before its end or first error, and that error.
  The conversion of a header value to text (\<open>HeaderValue::to_str\<close> of the http crate) is the
  parameter \<open>to_str\<close>. Debug messages are not modelled.

  Lemmas: which bodies are reported as content and what they are; the codings invert a stack of
  encoders; every body is within the cap; the wire read does not depend on the framing.
\<close>

section \<open>Codings\<close>

datatype codec = Gzip | Deflate | Brotli | Identity

definition codec_from_token :: "string \<Rightarrow> codec option" where
  "codec_from_token token =
     (if token = ''gzip'' \<or> token = ''x-gzip'' then Some Gzip
      else if token = ''deflate'' then Some Deflate
      else if token = ''br'' then Some Brotli
      else if token = ''identity'' then Some Identity
      else None)"

fun codec_name :: "codec \<Rightarrow> string" where
  "codec_name Gzip = ''gzip''"
| "codec_name Deflate = ''deflate''"
| "codec_name Brotli = ''brotli''"
| "codec_name Identity = ''identity''"

datatype stream_format = GzipStream | ZlibStream | DeflateStream | BrotliStream

type_synonym decoders = "stream_format \<Rightarrow> bytes \<Rightarrow> bytes \<times> string option"

datatype inflated = Whole bytes | Partial bytes string | Failed string

text \<open>
  \<open>reader.take(max_size).read_to_end()\<close>: at most \<open>max_size\<close> bytes are asked of the reader, so its
  error is seen only when it comes before the cap.
\<close>

definition read_bounded :: "bytes \<times> string option \<Rightarrow> nat \<Rightarrow> codec \<Rightarrow> inflated" where
  "read_bounded reader max_size codec =
     (case reader of (out, err) \<Rightarrow>
        if length out \<ge> max_size then Whole (take max_size out)
        else case err of
          None \<Rightarrow> Whole out
        | Some e \<Rightarrow> if out = [] then Failed (codec_name codec @ '' decompression failed: '' @ e)
                    else Partial out (codec_name codec @ '' stream did not decode cleanly: '' @ e))"

fun has_zlib_header :: "bytes \<Rightarrow> bool" where
  "has_zlib_header (cmf # flg # _) \<longleftrightarrow> cmf AND 0x0F = 8 \<and> (unat cmf * 256 + unat flg) mod 31 = 0"
| "has_zlib_header _ \<longleftrightarrow> False"

definition deflate_attempt :: "decoders \<Rightarrow> bytes \<Rightarrow> nat \<Rightarrow> bool \<Rightarrow> inflated" where
  "deflate_attempt dec data max_size zlib =
     read_bounded (dec (if zlib then ZlibStream else DeflateStream) data) max_size Deflate"

definition decode_deflate :: "decoders \<Rightarrow> bytes \<Rightarrow> nat \<Rightarrow> inflated" where
  "decode_deflate dec data max_size =
     (let zlib_first = has_zlib_header data in
      case deflate_attempt dec data max_size zlib_first of
        Failed expected \<Rightarrow> (case deflate_attempt dec data max_size (\<not> zlib_first) of
            Failed _ \<Rightarrow> Failed expected
          | fallback \<Rightarrow> fallback)
      | settled \<Rightarrow> settled)"

fun decode_one :: "decoders \<Rightarrow> codec \<Rightarrow> bytes \<Rightarrow> nat \<Rightarrow> inflated" where
  "decode_one dec Gzip data max_size = read_bounded (dec GzipStream data) max_size Gzip"
| "decode_one dec Deflate data max_size = decode_deflate dec data max_size"
| "decode_one dec Brotli data max_size = read_bounded (dec BrotliStream data) max_size Brotli"
| "decode_one dec Identity data max_size = Whole data"

section \<open>Decompression\<close>

record decoded =
  d_body :: bytes
  d_error :: "string option"

definition decoded_content :: "bytes \<Rightarrow> decoded" where
  "decoded_content body = \<lparr>d_body = body, d_error = None\<rparr>"

definition decoded_raw :: "bytes \<Rightarrow> string \<Rightarrow> decoded" where
  "decoded_raw data reason = \<lparr>d_body = data, d_error = Some reason\<rparr>"

definition decoded_partial :: "bytes \<Rightarrow> string \<Rightarrow> decoded" where
  "decoded_partial body reason = \<lparr>d_body = body, d_error = Some reason\<rparr>"

text \<open>The list of codings in header order, or the token that names none.\<close>

fun collect_codecs :: "codec list \<Rightarrow> string list \<Rightarrow> string + codec list" where
  "collect_codecs codecs [] = Inr codecs"
| "collect_codecs codecs (t # ts) =
     (let token = trim t in
      if token = [] then collect_codecs codecs ts
      else case codec_from_token token of
        Some Identity \<Rightarrow> collect_codecs codecs ts
      | Some codec \<Rightarrow> collect_codecs (codecs @ [codec]) ts
      | None \<Rightarrow> Inl token)"

text \<open>The layers under the outermost one, with the first complaint and the count of layers off.\<close>

fun peel_rest :: "decoders \<Rightarrow> nat \<Rightarrow> nat \<Rightarrow> codec list \<Rightarrow> bytes \<Rightarrow> string option \<Rightarrow> nat \<Rightarrow> decoded" where
  "peel_rest dec max_size declared [] out incomplete peeled =
     (case incomplete of
        Some reason \<Rightarrow> decoded_partial out reason
      | None \<Rightarrow> decoded_content out)"
| "peel_rest dec max_size declared (codec # remaining) out incomplete peeled =
     (case decode_one dec codec out max_size of
        Whole next \<Rightarrow> peel_rest dec max_size declared remaining next incomplete (peeled + 1)
      | Partial next why \<Rightarrow>
          peel_rest dec max_size declared remaining next
            (case incomplete of None \<Rightarrow> Some why | Some r \<Rightarrow> Some r) (peeled + 1)
      | Failed reason \<Rightarrow>
          decoded_partial out (show_nat peeled @ '' of '' @ show_nat declared @
            '' content-encoding layers came off: '' @ reason))"

definition decompress :: "decoders \<Rightarrow> string \<Rightarrow> bytes \<Rightarrow> nat \<Rightarrow> decoded" where
  "decompress dec encoding data max_size =
     (if data = [] then decoded_content []
      else case collect_codecs [] (split_on CHR '','' encoding) of
        Inl token \<Rightarrow> decoded_raw data (''unsupported content-encoding '' @ [CHR 0x27] @ token @ [CHR 0x27])
      | Inr codecs \<Rightarrow>
         (case rev codecs of
            [] \<Rightarrow> decoded_content data
          | outermost # remaining \<Rightarrow>
             (case decode_one dec outermost data max_size of
                Whole out \<Rightarrow> peel_rest dec max_size (length codecs) remaining out None 1
              | Partial out why \<Rightarrow> peel_rest dec max_size (length codecs) remaining out (Some why) 1
              | Failed reason \<Rightarrow> decoded_raw data reason)))"

section \<open>Reading the body\<close>

datatype body_frame = Data bytes | Trailers | FrameError string

fun read_body_loop :: "bytes \<Rightarrow> nat \<Rightarrow> body_frame list \<Rightarrow> client_error + bytes \<times> bool" where
  "read_body_loop out max_size [] = Inr (out, False)"
| "read_body_loop out max_size (FrameError e # fs) = Inl (err_connection (''failed to read body: '' @ e))"
| "read_body_loop out max_size (Trailers # fs) = read_body_loop out max_size fs"
| "read_body_loop out max_size (Data chunk # fs) =
     (if chunk = [] then read_body_loop out max_size fs
      else (let room = max_size - length out in
            if length chunk > room then Inr (out @ take room chunk, True)
            else read_body_loop (out @ chunk) max_size fs))"

definition read_body :: "body_frame list \<Rightarrow> nat \<Rightarrow> client_error + bytes \<times> bool" where
  "read_body frames max_size = read_body_loop [] max_size frames"

section \<open>The response of one hop\<close>

text \<open>
  What hyper hands over: the status, the header map in its iteration order with lower-case names,
  and the frames of the body.
\<close>

record wire_response =
  wr_status :: u16
  wr_headers :: "(string \<times> bytes) list"
  wr_body :: "body_frame list"

record single_response =
  sr_status :: u16
  sr_headers :: header_list
  sr_body :: bytes
  sr_location :: "string option"
  sr_decode_error :: "string option"

definition header_values :: "string \<Rightarrow> (string \<times> bytes) list \<Rightarrow> bytes list" where
  "header_values name hs = map snd (filter (\<lambda>(n, v). n = name) hs)"

definition content_encoding :: "(bytes \<Rightarrow> string option) \<Rightarrow> (string \<times> bytes) list \<Rightarrow> string" where
  "content_encoding to_str hs = to_ascii_lowercase (join '',''
     (map (\<lambda>v. unwrap_or (to_str v) ''<unreadable>'') (header_values ''content-encoding'' hs)))"

definition location_header :: "(bytes \<Rightarrow> string option) \<Rightarrow> (string \<times> bytes) list \<Rightarrow> string option" where
  "location_header to_str hs =
     (case header_values ''location'' hs of [] \<Rightarrow> None | v # _ \<Rightarrow> to_str v)"

definition decode_body :: "decoders \<Rightarrow> string \<Rightarrow> nat \<Rightarrow> bytes \<Rightarrow> bool \<Rightarrow> bytes \<times> string option" where
  "decode_body dec ce cap raw cut_by_cap =
     (if ce = [] then (raw, None)
      else (let decoded = decompress dec ce raw cap in
            case d_error decoded of
              None \<Rightarrow> (d_body decoded, None)
            | Some reason \<Rightarrow> (d_body decoded, Some (if cut_by_cap
                then reason @ '' (body hit the max_body cap mid-stream)'' else reason))))"

definition parse_response ::
  "decoders \<Rightarrow> (bytes \<Rightarrow> string option) \<Rightarrow> request_config \<Rightarrow> wire_response \<Rightarrow> client_error + single_response" where
  "parse_response dec to_str config r =
     and_then (read_body (wr_body r) (max_body config)) (\<lambda>(raw, cut_by_cap).
     let (body, decode_error) =
           decode_body dec (content_encoding to_str (wr_headers r)) (max_body config) raw cut_by_cap in
     Inr \<lparr>sr_status = wr_status r,
          sr_headers = map (\<lambda>(n, v). (n, unwrap_or (to_str v) ''<binary>'')) (wr_headers r),
          sr_body = body, sr_location = location_header to_str (wr_headers r),
          sr_decode_error = decode_error\<rparr>)"

section \<open>What decoding yields\<close>

text \<open>Every coding off, outermost first, with each decoder reading cleanly to its end or the cap.\<close>

fun peel :: "decoders \<Rightarrow> nat \<Rightarrow> codec list \<Rightarrow> bytes \<Rightarrow> bytes option" where
  "peel dec mx [] d = Some d"
| "peel dec mx (c # cs) d = (case decode_one dec c d mx of Whole out \<Rightarrow> peel dec mx cs out | _ \<Rightarrow> None)"

lemma peel_rest_content:
  "d_error (peel_rest dec mx n cs out inc k) = None \<longleftrightarrow> inc = None \<and> peel dec mx cs out \<noteq> None"
  by (induction cs arbitrary: out inc k)
     (auto simp: decoded_partial_def decoded_content_def split: inflated.split option.split)

lemma peel_rest_body:
  "peel dec mx cs out = Some b \<Longrightarrow> d_body (peel_rest dec mx n cs out inc k) = b"
  by (induction cs arbitrary: out inc k)
     (auto simp: decoded_partial_def decoded_content_def split: inflated.splits option.split)

lemma read_bounded_length:
  "read_bounded r mx c = Whole out \<Longrightarrow> length out \<le> mx"
  "read_bounded r mx c = Partial out why \<Longrightarrow> length out \<le> mx"
  by (auto simp: read_bounded_def split: prod.splits option.splits if_splits)

lemma decode_deflate_length:
  "decode_deflate dec d mx = Whole out \<Longrightarrow> length out \<le> mx"
  "decode_deflate dec d mx = Partial out why \<Longrightarrow> length out \<le> mx"
  by (auto simp: decode_deflate_def deflate_attempt_def Let_def split: inflated.splits dest: read_bounded_length)

lemma decode_one_length:
  assumes "length d \<le> mx"
  shows "decode_one dec c d mx = Whole out \<Longrightarrow> length out \<le> mx"
    and "decode_one dec c d mx = Partial out why \<Longrightarrow> length out \<le> mx"
  using assms by (cases c; auto dest: read_bounded_length decode_deflate_length)+

lemma peel_rest_length: "length out \<le> mx \<Longrightarrow> length (d_body (peel_rest dec mx n cs out inc k)) \<le> mx"
  by (induction cs arbitrary: out inc k)
     (auto simp: decoded_partial_def decoded_content_def dest: decode_one_length split: inflated.split option.split)

lemma decompress_length:
  "length data \<le> mx \<Longrightarrow> length (d_body (decompress dec enc data mx)) \<le> mx"
  by (auto simp: decompress_def decoded_raw_def decoded_content_def dest: decode_one_length
      intro!: peel_rest_length split: sum.split list.split inflated.split)

lemma decompress_content_spec:
  assumes "data \<noteq> []"
  shows "d_error (decompress dec enc data mx) = None \<and> d_body (decompress dec enc data mx) = body \<longleftrightarrow>
    (\<exists>cs. collect_codecs [] (split_on CHR '','' enc) = Inr cs \<and> peel dec mx (rev cs) data = Some body)"
proof (cases "collect_codecs [] (split_on CHR '','' enc)")
  case (Inl t)
  then show ?thesis using assms by (simp add: decompress_def decoded_raw_def)
next
  case (Inr cs)
  show ?thesis
  proof (cases "rev cs")
    case Nil
    then show ?thesis using assms Inr by (auto simp: decompress_def decoded_content_def)
  next
    case (Cons o r)
    then show ?thesis using assms Inr peel_rest_content [of dec mx _ r] peel_rest_body [of dec mx r]
      by (auto simp: decompress_def decoded_raw_def split: inflated.split)
  qed
qed

section \<open>A stack of encoders\<close>

fun format_codec :: "stream_format \<Rightarrow> codec" where
  "format_codec GzipStream = Gzip"
| "format_codec ZlibStream = Deflate"
| "format_codec DeflateStream = Deflate"
| "format_codec BrotliStream = Brotli"

fun encode_stack :: "(stream_format \<Rightarrow> bytes \<Rightarrow> bytes) \<Rightarrow> stream_format list \<Rightarrow> bytes \<Rightarrow> bytes" where
  "encode_stack enc [] b = b"
| "encode_stack enc (f # fs) b = encode_stack enc fs (enc f b)"

lemma encode_stack_snoc: "encode_stack enc (fs @ [f]) b = enc f (encode_stack enc fs b)"
  by (induction fs arbitrary: b) auto

text \<open>
  What is relied on of the crates: each reader inverts its encoder, an encoded stream is never
  empty, and a zlib stream has the header that RFC 1950 gives it. Nothing is relied on of the raw
  deflate reader on a zlib stream, which it may well take for a stored block and get bytes out of.
\<close>

definition decoders_ok :: "decoders \<Rightarrow> (stream_format \<Rightarrow> bytes \<Rightarrow> bytes) \<Rightarrow> bool" where
  "decoders_ok dec enc \<longleftrightarrow> (\<forall>f b. dec f (enc f b) = (b, None) \<and> enc f b \<noteq> []) \<and>
     (\<forall>b. has_zlib_header (enc ZlibStream b))"

text \<open>
  A raw deflate stream that is not taken for a zlib stream: it does not begin like one (as no stream
  does whose encoder pads stored blocks with zeros), or the zlib reader gets nothing out of it.
\<close>

definition reads_as_raw :: "decoders \<Rightarrow> bytes \<Rightarrow> bool" where
  "reads_as_raw dec d \<longleftrightarrow> \<not> has_zlib_header d \<or> (\<exists>e. dec ZlibStream d = ([], Some e))"

lemma read_bounded_whole: "length b \<le> mx \<Longrightarrow> read_bounded (b, None) mx c = Whole b"
  by (simp add: read_bounded_def)

lemma read_bounded_failed: "0 < mx \<Longrightarrow> \<exists>r. read_bounded ([], Some e) mx c = Failed r"
  by (simp add: read_bounded_def)

lemma deflate_attempt_enc:
  assumes "decoders_ok dec enc" "length b \<le> mx"
  shows "deflate_attempt dec (enc ZlibStream b) mx True = Whole b"
    "deflate_attempt dec (enc DeflateStream b) mx False = Whole b"
  using assms by (simp_all add: decoders_ok_def deflate_attempt_def read_bounded_whole)

lemma decode_zlib_enc:
  assumes "decoders_ok dec enc" "length b \<le> mx"
  shows "decode_deflate dec (enc ZlibStream b) mx = Whole b"
  using deflate_attempt_enc(1) [OF assms] assms(1) by (simp add: decode_deflate_def decoders_ok_def)

lemma decode_raw_enc:
  assumes "decoders_ok dec enc" "length b \<le> mx" "0 < mx" "reads_as_raw dec (enc DeflateStream b)"
  shows "decode_deflate dec (enc DeflateStream b) mx = Whole b"
proof (cases "has_zlib_header (enc DeflateStream b)")
  case True
  with assms(4) obtain e where "dec ZlibStream (enc DeflateStream b) = ([], Some e)" by (auto simp: reads_as_raw_def)
  then have "\<exists>r. deflate_attempt dec (enc DeflateStream b) mx True = Failed r"
    using read_bounded_failed [OF assms(3)] by (simp add: deflate_attempt_def)
  then show ?thesis using True deflate_attempt_enc(2) [OF assms(1,2)] by (auto simp: decode_deflate_def)
qed (use deflate_attempt_enc(2) [OF assms(1,2)] in \<open>simp add: decode_deflate_def\<close>)

lemma decode_one_enc:
  assumes "decoders_ok dec enc" "length b \<le> mx" "0 < mx" "f = DeflateStream \<Longrightarrow> reads_as_raw dec (enc f b)"
  shows "decode_one dec (format_codec f) (enc f b) mx = Whole b"
  using assms decode_zlib_enc [OF assms(1,2)] decode_raw_enc [OF assms(1-3)]
  by (cases f) (simp_all add: decoders_ok_def read_bounded_whole)

text \<open>Each layer of a stack is one of those above, over the layers under it.\<close>

definition stack_ok :: "decoders \<Rightarrow> (stream_format \<Rightarrow> bytes \<Rightarrow> bytes) \<Rightarrow> stream_format list \<Rightarrow> bytes \<Rightarrow> nat \<Rightarrow> bool" where
  "stack_ok dec enc fs b mx \<longleftrightarrow> (\<forall>k < length fs. length (encode_stack enc (take k fs) b) \<le> mx \<and>
     (fs ! k = DeflateStream \<longrightarrow> reads_as_raw dec (encode_stack enc (take (Suc k) fs) b)))"

lemma stack_ok_snoc:
  "stack_ok dec enc (fs @ [f]) b mx \<longleftrightarrow> stack_ok dec enc fs b mx \<and> length (encode_stack enc fs b) \<le> mx \<and>
     (f = DeflateStream \<longrightarrow> reads_as_raw dec (enc f (encode_stack enc fs b)))"
proof -
  have "take (Suc k) (fs @ [f]) = take (Suc k) fs" if "k < length fs" for k using that by simp
  then show ?thesis by (auto simp: stack_ok_def All_less_Suc nth_append encode_stack_snoc)
qed

lemma peel_encode_stack:
  assumes "decoders_ok dec enc" "0 < mx" "stack_ok dec enc fs b mx"
  shows "peel dec mx (rev (map format_codec fs)) (encode_stack enc fs b) = Some b"
  using assms(3)
proof (induction fs rule: rev_induct)
  case (snoc f fs)
  then show ?case
    by (simp add: stack_ok_snoc encode_stack_snoc decode_one_enc [OF assms(1) _ assms(2)])
qed simp

lemma collect_codecs_formats:
  "list_all2 (\<lambda>f t. codec_from_token (trim t) = Some (format_codec f)) fs ts \<Longrightarrow>
     collect_codecs acc ts = Inr (acc @ map format_codec fs)"
proof (induction fs ts arbitrary: acc rule: list_all2_induct)
  case (Cons f fs t ts)
  have "trim t \<noteq> []" using Cons.hyps by (auto simp: codec_from_token_def)
  moreover have "format_codec f \<noteq> Identity" by (cases f) simp_all
  ultimately show ?case using Cons by (cases "format_codec f") (simp_all add: Let_def)
qed simp

lemma encode_stack_Nil: "decoders_ok dec enc \<Longrightarrow> encode_stack enc fs b = [] \<Longrightarrow> fs = [] \<and> b = []"
  by (cases fs rule: rev_cases) (auto simp: encode_stack_snoc decoders_ok_def)

lemma split_on_join_tokens:
  "(\<And>t. t \<in> set ts \<Longrightarrow> c \<notin> set t) \<Longrightarrow> split_on c (join [c] ts) = (if ts = [] then [[]] else ts)"
  using split_on_join [of ts c] by auto

section \<open>The wire read as a whole\<close>

text \<open>The data of a body before its end or its first error.\<close>

fun body_data :: "body_frame list \<Rightarrow> bytes \<times> string option" where
  "body_data [] = ([], None)"
| "body_data (FrameError e # fs) = ([], Some e)"
| "body_data (Trailers # fs) = body_data fs"
| "body_data (Data c # fs) = (c @ fst (body_data fs), snd (body_data fs))"

lemma read_body_loop_data:
  "length out \<le> mx \<Longrightarrow> read_body_loop out mx fs =
     (if length out + length (fst (body_data fs)) > mx
      then Inr (take mx (out @ fst (body_data fs)), True)
      else case snd (body_data fs) of
        Some e \<Rightarrow> Inl (err_connection (''failed to read body: '' @ e))
      | None \<Rightarrow> Inr (out @ fst (body_data fs), False))"
  by (induction fs arbitrary: out rule: body_data.induct) (auto simp: Let_def split: option.split)

lemma read_body_all:
  "read_body fs mx = (case body_data fs of (d, err) \<Rightarrow>
     if length d > mx then Inr (take mx d, True)
     else case err of Some e \<Rightarrow> Inl (err_connection (''failed to read body: '' @ e)) | None \<Rightarrow> Inr (d, False))"
  using read_body_loop_data [of "[]" mx fs] by (cases "body_data fs") (simp add: read_body_def split: option.split)

section \<open>Properties\<close>

text \<open>
  C19: A body is reported as content exactly when it is: \<open>decode_error\<close> stays empty if and only if
  every coding of the header is known and each decoder, outermost coding first, read its stream
  cleanly to its end or to the cap; and the body is then what the last of them yielded. A body cut
  short, damaged, of an unknown coding or with a layer left on always carries a reason.
\<close>

theorem decompress_content_iff:
  assumes "data \<noteq> []"
  shows "d_error (decompress dec enc data mx) = None \<and> d_body (decompress dec enc data mx) = body \<longleftrightarrow>
    (\<exists>cs. collect_codecs [] (split_on CHR '','' enc) = Inr cs \<and> peel dec mx (rev cs) data = Some body)"
  by (rule decompress_content_spec [OF assms])

lemma decompress_content_iff_witness:
  "d_error (decompress (\<lambda>f b. if f = GzipStream then (tl b, None) else ([], Some ''e'')) ''identity, gzip'' [1, 2] 9) = None \<and>
   d_body (decompress (\<lambda>f b. if f = GzipStream then (tl b, None) else ([], Some ''e'')) ''identity, gzip'' [1, 2] 9) = [2]"
proof -
  have split: "split_on CHR '','' ''identity, gzip'' = [''identity'', '' gzip'']" by simp
  have "trim ''identity'' = ''identity''" "trim '' gzip'' = ''gzip''" by code_simp+
  then have "collect_codecs [] (split_on CHR '','' ''identity, gzip'') = Inr [Gzip]"
    unfolding split by (simp add: codec_from_token_def)
  then show ?thesis
    by (intro decompress_content_iff [THEN iffD2]) (auto simp: read_bounded_def)
qed

text \<open>
  C20: The client undoes any stack of codings it advertises. A body put through gzip, zlib, raw
  deflate or brotli encoders in any order comes back unchanged under a \<open>Content-Encoding\<close> list
  naming the codings in that order (with \<open>x-gzip\<close>, spaces and either deflate flavor), as long as
  every layer fits the cap and no raw deflate layer passes for a zlib stream that the zlib reader gets
  output from. The readers need not reject each other's streams: a zlib stream is told by its header.
\<close>

theorem decompress_roundtrip:
  assumes "decoders_ok dec enc" "0 < mx" "stack_ok dec enc fs b mx"
    "list_all2 (\<lambda>f t. codec_from_token (trim t) = Some (format_codec f)) fs ts"
    "\<And>t. t \<in> set ts \<Longrightarrow> CHR '','' \<notin> set t"
  shows "decompress dec (join '','' ts) (encode_stack enc fs b) mx = \<lparr>d_body = b, d_error = None\<rparr>"
proof (cases "encode_stack enc fs b = []")
  case True
  with encode_stack_Nil [OF assms(1)] have "b = []" by blast
  then show ?thesis using True by (simp add: decompress_def decoded_content_def)
next
  case False
  have "collect_codecs [] (split_on CHR '','' (join '','' ts)) = Inr (map format_codec fs)"
    using collect_codecs_formats [OF assms(4), of "[]"] split_on_join_tokens [of ts "CHR '',''"] assms(4,5)
    by (cases ts) (auto simp: trim_Nil Let_def)
  with decompress_content_spec [OF False, of dec "join '','' ts" mx b] peel_encode_stack [OF assms(1-3)]
  have "d_error (decompress dec (join '','' ts) (encode_stack enc fs b) mx) = None"
    "d_body (decompress dec (join '','' ts) (encode_stack enc fs b) mx) = b" by auto
  then show ?thesis by (intro decoded.equality) simp_all
qed

text \<open>
  Codings in miniature, with the headers of the real ones. The raw reader here skips any first byte, so
  it reads a zlib stream without complaint; the innermost layer is a raw stream that begins with the
  bytes of a zlib header, the outermost one does not.
\<close>

fun example_enc :: "stream_format \<Rightarrow> bytes \<Rightarrow> bytes" where
  "example_enc GzipStream b = 0x1F # 0x8B # b"
| "example_enc ZlibStream b = 0x78 # 0x9C # b"
| "example_enc DeflateStream b = 0x78 # b"
| "example_enc BrotliStream b = 0x0B # b"

fun example_dec :: decoders where
  "example_dec GzipStream (a # b # d) = (if a = 0x1F \<and> b = 0x8B then (d, None) else ([], Some ''header''))"
| "example_dec ZlibStream (a # b # d) = (if a = 0x78 \<and> b = 0x9C then (d, None) else ([], Some ''header''))"
| "example_dec DeflateStream (_ # d) = (d, None)"
| "example_dec BrotliStream (a # d) = (if a = 0x0B then (d, None) else ([], Some ''header''))"
| "example_dec _ _ = ([], Some ''eof'')"

lemma example_zlib_header [simp]: "has_zlib_header (0x78 # 0x9C # b)" "has_zlib_header (0x78 # 0x01 # b)"
  by simp_all

lemma decompress_roundtrip_witness:
  "decompress example_dec ''deflate,x-gzip,deflate,deflate'' [0x78, 0x78, 0x9C, 0x1F, 0x8B, 0x78, 1, 65] 9 = \<lparr>d_body = [1, 65], d_error = None\<rparr>"
proof -
  let ?fs = "[DeflateStream, GzipStream, ZlibStream, DeflateStream]"
  have "example_dec f (example_enc f b) = (b, None)" "example_enc f b \<noteq> []" for f b by (cases f; simp)+
  then have "decoders_ok example_dec example_enc" by (simp add: decoders_ok_def)
  moreover have "stack_ok example_dec example_enc ?fs [1, 65] 9"
    by (simp add: stack_ok_def reads_as_raw_def All_less_Suc)
  moreover have "trim ''x-gzip'' = ''x-gzip''" "trim ''deflate'' = ''deflate''" by code_simp+
  then have "list_all2 (\<lambda>f t. codec_from_token (trim t) = Some (format_codec f)) ?fs [''deflate'', ''x-gzip'', ''deflate'', ''deflate'']"
    by (simp add: codec_from_token_def)
  moreover have "\<And>t. t \<in> set [''deflate'', ''x-gzip'', ''deflate'', ''deflate''] \<Longrightarrow> CHR '','' \<notin> set t" by auto
  ultimately have "decompress example_dec (join '','' [''deflate'', ''x-gzip'', ''deflate'', ''deflate'']) (encode_stack example_enc ?fs [1, 65]) 9 =
    \<lparr>d_body = [1, 65], d_error = None\<rparr>" by (intro decompress_roundtrip) simp_all
  then show ?thesis by simp
qed

text \<open>
  Reading a body depends on the bytes and not on the frames that carry them: chunk borders,
  empty chunks and trailers do not matter. At most the cap is kept, the second result says whether
  the body was longer, and an error counts only when it comes before the cap is exceeded.
\<close>

theorem read_body_frames:
  "read_body fs mx = (case body_data fs of (d, err) \<Rightarrow>
     if length d > mx then Inr (take mx d, True)
     else case err of Some e \<Rightarrow> Inl (err_connection (''failed to read body: '' @ e)) | None \<Rightarrow> Inr (d, False))"
  by (rule read_body_all)

lemma read_body_length: "read_body fs mx = Inr (d, c) \<Longrightarrow> length d \<le> mx"
  using read_body_loop_data [of "[]" mx fs]
  by (auto simp: read_body_def split: if_splits option.splits)

text \<open>
  Parsing a response keeps its status and every header line, bounds the body by the cap
  whatever its codings inflate to, and fails only when the wire read does.
\<close>

theorem parse_response_bounded:
  "(case parse_response dec to_str config r of
      Inr resp \<Rightarrow> length (sr_body resp) \<le> max_body config \<and> sr_status resp = wr_status r \<and>
        map fst (sr_headers resp) = map fst (wr_headers r)
    | Inl e \<Rightarrow> read_body (wr_body r) (max_body config) = Inl e \<and> ce_kind e = Connection)"
proof (cases "read_body (wr_body r) (max_body config)")
  case (Inl e)
  then have "ce_kind e = Connection"
    by (auto simp: read_body_all err_kinds split: prod.splits if_splits option.splits)
  then show ?thesis by (simp add: parse_response_def Inl)
next
  case (Inr dc)
  obtain d c where dc: "dc = (d, c)" by fastforce
  have "length d \<le> max_body config" using Inr dc read_body_length by blast
  then have "length (fst (decode_body dec ce (max_body config) d c)) \<le> max_body config" for ce
    using decompress_length by (auto simp: decode_body_def Let_def split: option.split)
  then show ?thesis
    by (simp add: parse_response_def Inr dc Let_def case_prod_beta comp_def)
qed

end
