(* ===== verification/Response_Model.thy ===== *)
theory Response_Model
  imports Blast_Prelude
begin

text \<open>
  The response handed to callers, \<^verbatim>\<open>src/response.rs\<close>: the record with its lazily filled caches, the
  accessors, cloning, the JSON fields, and the pure functions behind them.

  The digests of openssl and the murmur3 crate are parameters. A \<open>OnceLock\<close> is an \<open>option\<close>: an
  accessor returns the value and the record with the cache filled. JSON values are the constructors
  of \<open>json\<close>.

  Lemmas: the lossy UTF-8 decoding is the one that an encoder of scalar values specifies; the caches
  never change what an accessor returns.
\<close>

section \<open>UTF-8\<close>

text \<open>
  \<open>str::from_utf8\<close> and \<open>String::from_utf8_lossy\<close>. \<open>utf8_step\<close> looks at the front of a non-empty
  input: a well-formed sequence of \<open>n\<close> bytes (\<open>Inr n\<close>), or an ill-formed prefix of \<open>n\<close> bytes that
  becomes one U+FFFD.
\<close>

definition in_range :: "nat \<Rightarrow> nat \<Rightarrow> u8 \<Rightarrow> bool" where
  "in_range lo hi b \<longleftrightarrow> lo \<le> unat b \<and> unat b \<le> hi"

definition next_in :: "(u8 \<Rightarrow> bool) \<Rightarrow> bytes \<Rightarrow> nat \<Rightarrow> bool" where
  "next_in P bs i \<longleftrightarrow> i < length bs \<and> P (bs ! i)"

definition second_byte_ok :: "u8 \<Rightarrow> u8 \<Rightarrow> bool" where
  "second_byte_ok b c \<longleftrightarrow>
     (if b = 0xE0 then in_range 0xA0 0xBF c
      else if b = 0xED then in_range 0x80 0x9F c
      else if b = 0xF0 then in_range 0x90 0xBF c
      else if b = 0xF4 then in_range 0x80 0x8F c
      else in_range 0x80 0xBF c)"

definition utf8_step :: "bytes \<Rightarrow> nat + nat" where
  "utf8_step bs =
     (let b = hd bs; cont = in_range 0x80 0xBF in
      if in_range 0 0x7F b then Inr 1
      else if in_range 0xC2 0xDF b then (if next_in cont bs 1 then Inr 2 else Inl 1)
      else if in_range 0xE0 0xEF b then
        (if \<not> next_in (second_byte_ok b) bs 1 then Inl 1
         else if \<not> next_in cont bs 2 then Inl 2 else Inr 3)
      else if in_range 0xF0 0xF4 b then
        (if \<not> next_in (second_byte_ok b) bs 1 then Inl 1
         else if \<not> next_in cont bs 2 then Inl 2
         else if \<not> next_in cont bs 3 then Inl 3 else Inr 4)
      else Inl 1)"

definition step_width :: "nat + nat \<Rightarrow> nat" where
  "step_width s = (case s of Inl n \<Rightarrow> n | Inr n \<Rightarrow> n)"

lemma step_width_bounds: "bs \<noteq> [] \<Longrightarrow> 1 \<le> step_width (utf8_step bs) \<and> step_width (utf8_step bs) \<le> length bs"
  by (cases bs) (auto simp: utf8_step_def Let_def step_width_def next_in_def Suc_le_eq)

definition replacement :: bytes where "replacement = [0xEF, 0xBF, 0xBD]"

function from_utf8_lossy :: "bytes \<Rightarrow> bytes" where
  "from_utf8_lossy bs =
     (if bs = [] then []
      else case utf8_step bs of
        Inr n \<Rightarrow> take n bs @ from_utf8_lossy (drop n bs)
      | Inl n \<Rightarrow> replacement @ from_utf8_lossy (drop n bs))"
  by pat_completeness auto
termination
proof (relation "measure length", goal_cases)
  case (2 bs n)
  then show ?case using step_width_bounds [of bs] by (auto simp: step_width_def)
next
  case (3 bs n)
  then show ?case using step_width_bounds [of bs] by (auto simp: step_width_def)
qed simp

function utf8_valid :: "bytes \<Rightarrow> bool" where
  "utf8_valid bs =
     (if bs = [] then True
      else case utf8_step bs of Inr n \<Rightarrow> utf8_valid (drop n bs) | Inl _ \<Rightarrow> False)"
  by pat_completeness auto
termination
proof (relation "measure length", goal_cases)
  case (2 bs n)
  then show ?case using step_width_bounds [of bs] by (auto simp: step_width_def)
qed simp

declare from_utf8_lossy.simps [simp del] utf8_valid.simps [simp del]

section \<open>The record\<close>

record redirect_hop =
  hop_url :: string
  hop_status :: u16
  hop_peer_ip :: "string option"

record cert_info =
  ci_common_name :: "string option"
  ci_sans :: "string list"
  ci_emails :: "string list"
  ci_issuer :: "string option"
  ci_not_before :: "string option"
  ci_not_after :: "string option"
  ci_fingerprint_sha256 :: "string option"

record response_hash =
  body_md5 :: string
  body_mmh3 :: "32 word"
  body_sha256 :: string
  header_md5 :: string
  header_mmh3 :: "32 word"
  header_sha256 :: string

record response =
  rs_url :: string
  rs_status :: u16
  rs_headers :: header_list
  rs_body_bytes :: bytes
  rs_elapsed_ms :: u64
  rs_redirect_chain :: "redirect_hop list"
  rs_cert_info :: "cert_info option"
  rs_peer_ip :: "string option"
  rs_request_url :: string
  rs_request_method :: string
  rs_debug_log :: "string list"
  rs_decode_error :: "string option"
  rs_body_cache :: "string option"
  rs_raw_headers_cache :: "string option"
  rs_cookies_cache :: "(string \<rightharpoonup> string) option"
  rs_hash_cache :: "response_hash option"

definition is_success :: "response \<Rightarrow> bool" where
  "is_success r \<longleftrightarrow> 200 \<le> unat (rs_status r) \<and> unat (rs_status r) < 400"

fun raw_headers_loop :: "string \<Rightarrow> bool \<Rightarrow> header_list \<Rightarrow> string" where
  "raw_headers_loop out first [] = out"
| "raw_headers_loop out first ((k, v) # hs) =
     raw_headers_loop ((if first then out else out @ [CHR 0x0D, CHR 0x0A]) @ k @ '': '' @ v) False hs"

definition build_raw_headers :: "header_list \<Rightarrow> string" where
  "build_raw_headers headers = raw_headers_loop [] True headers"

fun set_cookies_loop :: "(string \<rightharpoonup> string) \<Rightarrow> header_list \<Rightarrow> (string \<rightharpoonup> string)" where
  "set_cookies_loop out [] = out"
| "set_cookies_loop out ((k, v) # hs) =
     (if \<not> eq_ignore_ascii_case k ''set-cookie'' then set_cookies_loop out hs
      else case split_once CHR ''='' (hd (split_on CHR '';'' v)) of
        Some (name, value) \<Rightarrow> set_cookies_loop (out(trim name \<mapsto> trim value)) hs
      | None \<Rightarrow> set_cookies_loop out hs)"

definition parse_set_cookies :: "header_list \<Rightarrow> (string \<rightharpoonup> string)" where
  "parse_set_cookies headers = set_cookies_loop Map.empty headers"

section \<open>Hashes\<close>

text \<open>The two openssl digests and murmur3 with seed 0; a failing digest is \<open>None\<close>.\<close>

record digests =
  dg_md5 :: "bytes \<Rightarrow> bytes option"
  dg_sha256 :: "bytes \<Rightarrow> bytes option"
  dg_murmur3 :: "bytes \<Rightarrow> u32 option"

definition hex_char :: "nat \<Rightarrow> char" where
  "hex_char n = (if n < 10 then char_of (48 + n) else char_of (87 + n))"

definition hex_byte :: "u8 \<Rightarrow> string" where
  "hex_byte b = [hex_char (unat b div 16), hex_char (unat b mod 16)]"

definition hex_digest :: "(bytes \<Rightarrow> bytes option) \<Rightarrow> bytes \<Rightarrow> string" where
  "hex_digest algo data = (case algo data of Some d \<Rightarrow> concat (map hex_byte d) | None \<Rightarrow> [])"

definition mmh3_32 :: "digests \<Rightarrow> bytes \<Rightarrow> 32 word" where
  "mmh3_32 dg data = (case dg_murmur3 dg data of Some h \<Rightarrow> h | None \<Rightarrow> 0)"

definition hash_compute :: "digests \<Rightarrow> bytes \<Rightarrow> string \<Rightarrow> response_hash" where
  "hash_compute dg body raw_headers =
     (let header_bytes = str_bytes raw_headers in
      \<lparr>body_md5 = hex_digest (dg_md5 dg) body, body_mmh3 = mmh3_32 dg body,
       body_sha256 = hex_digest (dg_sha256 dg) body, header_md5 = hex_digest (dg_md5 dg) header_bytes,
       header_mmh3 = mmh3_32 dg header_bytes, header_sha256 = hex_digest (dg_sha256 dg) header_bytes\<rparr>)"

section \<open>Accessors\<close>

definition body_text :: "bytes \<Rightarrow> string" where
  "body_text bs = bytes_str (if utf8_valid bs then bs else from_utf8_lossy bs)"

definition response_body :: "response \<Rightarrow> string \<times> response" where
  "response_body r = (case rs_body_cache r of
     Some s \<Rightarrow> (s, r)
   | None \<Rightarrow> (let s = body_text (rs_body_bytes r) in (s, r\<lparr>rs_body_cache := Some s\<rparr>)))"

definition response_raw_headers :: "response \<Rightarrow> string \<times> response" where
  "response_raw_headers r = (case rs_raw_headers_cache r of
     Some s \<Rightarrow> (s, r)
   | None \<Rightarrow> (let s = build_raw_headers (rs_headers r) in (s, r\<lparr>rs_raw_headers_cache := Some s\<rparr>)))"

definition response_cookies :: "response \<Rightarrow> (string \<rightharpoonup> string) \<times> response" where
  "response_cookies r = (case rs_cookies_cache r of
     Some m \<Rightarrow> (m, r)
   | None \<Rightarrow> (let m = parse_set_cookies (rs_headers r) in (m, r\<lparr>rs_cookies_cache := Some m\<rparr>)))"

definition response_hash_of :: "digests \<Rightarrow> response \<Rightarrow> response_hash \<times> response" where
  "response_hash_of dg r = (let (raw, r) = response_raw_headers r in
     case rs_hash_cache r of
       Some h \<Rightarrow> (h, r)
     | None \<Rightarrow> (let h = hash_compute dg (rs_body_bytes r) raw in (h, r\<lparr>rs_hash_cache := Some h\<rparr>)))"

definition response_clone :: "response \<Rightarrow> response" where
  "response_clone r = r\<lparr>rs_body_cache := None, rs_raw_headers_cache := None,
     rs_cookies_cache := None, rs_hash_cache := None\<rparr>"

section \<open>Serialization\<close>

datatype json = JString string | JStatus u16 | JHeaders header_list | JCookies "string \<rightharpoonup> string"
  | JHash response_hash | JMillis u64 | JChain "redirect_hop list" | JCert cert_info

definition opt_field :: "string \<Rightarrow> ('a \<Rightarrow> json) \<Rightarrow> 'a option \<Rightarrow> (string \<times> json) list" where
  "opt_field name c v = (case v of Some x \<Rightarrow> [(name, c x)] | None \<Rightarrow> [])"

definition response_serialize :: "digests \<Rightarrow> response \<Rightarrow> (string \<times> json) list \<times> response" where
  "response_serialize dg r =
     (let (body, r) = response_body r; (raw, r) = response_raw_headers r;
          (cookies, r) = response_cookies r; (h, r) = response_hash_of dg r in
      ([(''url'', JString (rs_url r)), (''status'', JStatus (rs_status r)), (''headers'', JHeaders (rs_headers r)),
        (''body'', JString body), (''raw_headers'', JString raw), (''cookies'', JCookies cookies),
        (''hash'', JHash h), (''elapsed_ms'', JMillis (rs_elapsed_ms r)),
        (''redirect_chain'', JChain (rs_redirect_chain r))] @
       opt_field ''cert_info'' JCert (rs_cert_info r) @ opt_field ''peer_ip'' JString (rs_peer_ip r) @
       [(''request_url'', JString (rs_request_url r)), (''request_method'', JString (rs_request_method r))] @
       opt_field ''decode_error'' JString (rs_decode_error r), r))"

section \<open>Lossy decoding\<close>

lemma str_bytes_bytes_str [simp]: "str_bytes (bytes_str bs) = bs"
proof -
  have "of_char (char_of (unat x)) = x" for x :: u8
  proof -
    have "unat x < 2 ^ LENGTH(8)" by (rule unsigned_less)
    then have "(of_char (char_of (unat x) :: char) :: nat) = unat x" by simp
    then have "(of_nat (of_char (char_of (unat x) :: char)) :: u8) = x" by simp
    then show ?thesis by (simp only: of_nat_of_char)
  qed
  then show ?thesis by (simp add: str_bytes_def bytes_str_def comp_def)
qed

lemma from_utf8_lossy_simps [simp]:
  "from_utf8_lossy [] = []"
  "bs \<noteq> [] \<Longrightarrow> utf8_step bs = Inr n \<Longrightarrow> from_utf8_lossy bs = take n bs @ from_utf8_lossy (drop n bs)"
  "bs \<noteq> [] \<Longrightarrow> utf8_step bs = Inl n \<Longrightarrow> from_utf8_lossy bs = replacement @ from_utf8_lossy (drop n bs)"
  by (simp_all add: from_utf8_lossy.simps [of bs] from_utf8_lossy.simps [of "[]"])

lemma utf8_valid_simps [simp]:
  "utf8_valid []"
  "bs \<noteq> [] \<Longrightarrow> utf8_step bs = Inr n \<Longrightarrow> utf8_valid bs = utf8_valid (drop n bs)"
  "bs \<noteq> [] \<Longrightarrow> utf8_step bs = Inl n \<Longrightarrow> \<not> utf8_valid bs"
  by (simp_all add: utf8_valid.simps [of bs] utf8_valid.simps [of "[]"])

text \<open>A well-formed sequence is recognised whatever follows it.\<close>

lemma next_in_take: "i < n \<Longrightarrow> n \<le> length bs \<Longrightarrow> next_in P (take n bs @ r) i = next_in P bs i"
  by (simp add: next_in_def nth_append)

lemma utf8_step_take:
  assumes "bs \<noteq> []" "utf8_step bs = Inr n"
  shows "utf8_step (take n bs @ r) = Inr n \<and> length (take n bs) = n \<and> 0 < n"
proof -
  have n: "1 \<le> n" "n \<le> length bs" using step_width_bounds [OF assms(1)] assms(2) by (simp_all add: step_width_def)
  then have hd: "hd (take n bs @ r) = hd bs" using assms(1) by (cases bs; cases n) auto
  have "next_in P (take n bs @ r) i = next_in P bs i" if "i < n" for P i
    using that n(2) by (rule next_in_take)
  then have "utf8_step (take n bs @ r) = Inr n"
    using assms(2) unfolding utf8_step_def Let_def hd by (simp split: if_splits)
  then show ?thesis using n by simp
qed

lemma utf8_valid_append_step:
  assumes "bs \<noteq> []" "utf8_step bs = Inr n"
  shows "utf8_valid (take n bs @ r) = utf8_valid r"
proof -
  note s = utf8_step_take [OF assms, of r]
  then have "take n bs @ r \<noteq> []" by auto
  then show ?thesis using s utf8_valid_simps(2) [of "take n bs @ r" n] by simp
qed

lemma utf8_step_replacement: "utf8_step (replacement @ r) = Inr 3"
  by (simp add: utf8_step_def replacement_def in_range_def next_in_def second_byte_ok_def Let_def)

lemma utf8_valid_replacement: "utf8_valid (replacement @ r) = utf8_valid r"
  using utf8_valid_simps(2) [of "replacement @ r" 3] utf8_step_replacement
  by (simp add: replacement_def)

lemma from_utf8_lossy_valid_id: "utf8_valid bs \<Longrightarrow> from_utf8_lossy bs = bs"
proof (induction bs rule: from_utf8_lossy.induct)
  case (1 bs)
  show ?case
  proof (cases "bs = []")
    case False
    with "1.prems" obtain n where n: "utf8_step bs = Inr n" "utf8_valid (drop n bs)"
      by (cases "utf8_step bs") auto
    with "1.IH"(2) [OF False n(1)] False show ?thesis by simp
  qed simp
qed

lemma from_utf8_lossy_is_valid: "utf8_valid (from_utf8_lossy bs)"
proof (induction bs rule: from_utf8_lossy.induct)
  case (1 bs)
  show ?case
  proof (cases "bs = []")
    case False
    show ?thesis
    proof (cases "utf8_step bs")
      case (Inl n)
      with "1.IH"(1) [OF False] False show ?thesis by (simp add: utf8_valid_replacement)
    next
      case (Inr n)
      with "1.IH"(2) [OF False] False show ?thesis by (simp add: utf8_valid_append_step)
    qed
  qed simp
qed

lemma body_text_lossy: "body_text bs = bytes_str (from_utf8_lossy bs)"
  by (simp add: body_text_def from_utf8_lossy_valid_id)

section \<open>UTF-8 by its encoder\<close>

text \<open>
  Scalar values and their encoding, from which the ill-formed parts of a text are defined without
  regard to the decoder: a maximal subpart begins no encoding, and is the longest start of one there is
  or, where there is none, a single byte.
\<close>

definition scalar_value :: "nat \<Rightarrow> bool" where
  "scalar_value n \<longleftrightarrow> n < 0x110000 \<and> \<not> (0xD800 \<le> n \<and> n \<le> 0xDFFF)"

definition utf8_encode :: "nat \<Rightarrow> bytes" where
  "utf8_encode n = map of_nat
     (if n < 0x80 then [n]
      else if n < 0x800 then [0xC0 + n div 64, 0x80 + n mod 64]
      else if n < 0x10000 then [0xE0 + n div 4096, 0x80 + n div 64 mod 64, 0x80 + n mod 64]
      else [0xF0 + n div 262144, 0x80 + n div 4096 mod 64, 0x80 + n div 64 mod 64, 0x80 + n mod 64])"

definition encoded_char :: "bytes \<Rightarrow> bool" where
  "encoded_char w \<longleftrightarrow> (\<exists>n. scalar_value n \<and> w = utf8_encode n)"

definition begins_char :: "bytes \<Rightarrow> bool" where
  "begins_char p \<longleftrightarrow> (\<exists>s. encoded_char (p @ s))"

definition maximal_subpart :: "bytes \<Rightarrow> bytes \<Rightarrow> bool" where
  "maximal_subpart p r \<longleftrightarrow> p \<noteq> [] \<and> (\<forall>w s. p @ r = w @ s \<longrightarrow> \<not> encoded_char w) \<and>
     (length p = 1 \<or> begins_char p) \<and> (\<forall>q s. r = q @ s \<longrightarrow> q \<noteq> [] \<longrightarrow> \<not> begins_char (p @ q))"

text \<open>The text of some bytes, character by character, with U+FFFD for each maximal subpart.\<close>

inductive lossy_text :: "bytes \<Rightarrow> bytes \<Rightarrow> bool" where
  lossy_end: "lossy_text [] []"
| lossy_char: "encoded_char w \<Longrightarrow> lossy_text r t \<Longrightarrow> lossy_text (w @ r) (w @ t)"
| lossy_subpart: "maximal_subpart p r \<Longrightarrow> lossy_text r t \<Longrightarrow> lossy_text (p @ r) (utf8_encode 0xFFFD @ t)"

text \<open>The encodings are the sequences of the Unicode standard's table of well-formed ones.\<close>

fun well_formed :: "bytes \<Rightarrow> bool" where
  "well_formed [b] \<longleftrightarrow> in_range 0 0x7F b"
| "well_formed [b, c] \<longleftrightarrow> in_range 0xC2 0xDF b \<and> in_range 0x80 0xBF c"
| "well_formed [b, c, d] \<longleftrightarrow> in_range 0xE0 0xEF b \<and> second_byte_ok b c \<and> in_range 0x80 0xBF d"
| "well_formed [b, c, d, e] \<longleftrightarrow> in_range 0xF0 0xF4 b \<and> second_byte_ok b c \<and> in_range 0x80 0xBF d \<and> in_range 0x80 0xBF e"
| "well_formed _ \<longleftrightarrow> False"

lemma unat_byte: "x < 256 \<Longrightarrow> unat (of_nat x :: u8) = x"
  by (simp add: unat_of_nat take_bit_nat_eq_self)

lemma in_range_byte: "x < 256 \<Longrightarrow> in_range lo hi (of_nat x) \<longleftrightarrow> lo \<le> x \<and> x \<le> hi"
  by (simp add: in_range_def unat_byte)

lemma byte_eq: "b = k \<longleftrightarrow> unat b = unat (k :: u8)"
  by (auto dest: unsigned_word_eqI)

lemma second_byte_unat:
  "second_byte_ok b c \<longleftrightarrow>
     (if unat b = 0xE0 then in_range 0xA0 0xBF c else if unat b = 0xED then in_range 0x80 0x9F c
      else if unat b = 0xF0 then in_range 0x90 0xBF c else if unat b = 0xF4 then in_range 0x80 0x8F c
      else in_range 0x80 0xBF c)"
  by (simp add: second_byte_ok_def byte_eq)

lemma base64_digits:
  fixes n :: nat
  obtains x y z w where "n = x * 262144 + y * 4096 + z * 64 + w" "y < 64" "z < 64" "w < 64"
    "n mod 64 = w" "n div 64 mod 64 = z" "n div 4096 mod 64 = y" "n div 262144 = x" "n div 64 = x * 4096 + y * 64 + z"
    "n div 4096 = x * 64 + y"
proof -
  have d: "n div 64 div 64 = n div 4096" "n div 4096 div 64 = n div 262144" by (simp_all flip: div_mult2_eq)
  have c: "n div 4096 = n div 262144 * 64 + n div 4096 mod 64"
    using div_mult_mod_eq [of "n div 4096" 64] unfolding d by (rule sym)
  have b: "n div 64 = n div 4096 * 64 + n div 64 mod 64"
    using div_mult_mod_eq [of "n div 64" 64] unfolding d by (rule sym)
  have a: "n = n div 64 * 64 + n mod 64" by (rule div_mult_mod_eq [symmetric])
  show thesis
    by (rule that [of "n div 262144" "n div 4096 mod 64" "n div 64 mod 64" "n mod 64"]) (use a b c in linarith | simp)+
qed

lemma encode_well_formed:
  assumes "scalar_value n"
  shows "well_formed (utf8_encode n)"
proof -
  obtain x y z w where n: "n = x * 262144 + y * 4096 + z * 64 + w" "y < 64" "z < 64" "w < 64"
    "n mod 64 = w" "n div 64 mod 64 = z" "n div 4096 mod 64 = y" "n div 262144 = x" "n div 64 = x * 4096 + y * 64 + z"
    "n div 4096 = x * 64 + y" by (rule base64_digits)
  consider "n < 0x80" | "0x80 \<le> n" "n < 0x800" | "0x800 \<le> n" "n < 0x10000" | "0x10000 \<le> n" by linarith
  then show ?thesis
  proof cases
    case 1
    then show ?thesis by (simp add: utf8_encode_def in_range_byte)
  next
    case 2
    then have "x = 0" "y = 0" using n(1) by linarith+
    moreover have "2 \<le> z" "z < 32" using 2 n(1,4) calculation by linarith+
    ultimately show ?thesis using 2 n by (simp add: utf8_encode_def in_range_byte del: of_nat_add)
  next
    case 3
    then have "x = 0" "y < 16" using n(1) by linarith+
    moreover have "y = 0 \<longrightarrow> 32 \<le> z" using 3 n(1,4) \<open>x = 0\<close> by auto
    moreover have "y = 13 \<longrightarrow> z \<le> 31" using assms n(1-4) \<open>x = 0\<close> by (auto simp: scalar_value_def)
    ultimately show ?thesis using 3 n by (simp add: utf8_encode_def in_range_byte second_byte_unat unat_byte del: of_nat_add)
  next
    case 4
    then have "x \<le> 4" "x = 0 \<longrightarrow> 16 \<le> y" "x = 4 \<longrightarrow> y \<le> 15" using assms n(1-4) by (auto simp: scalar_value_def)
    then show ?thesis using 4 n by (simp add: utf8_encode_def in_range_byte second_byte_unat unat_byte del: of_nat_add)
  qed
qed

lemma byte_of_unat: "of_nat (unat b) = (b :: u8)"
  by simp

lemma base64_compose:
  fixes x y z u :: nat
  assumes "y < 64" "z < 64" "u < 64"
  shows "(x * 64 + y) div 64 = x" "(x * 64 + y) mod 64 = y"
    "(x * 4096 + y * 64 + z) div 64 = x * 64 + y" "(x * 4096 + y * 64 + z) mod 64 = z" "(x * 4096 + y * 64 + z) div 4096 = x"
    "(x * 262144 + y * 4096 + z * 64 + u) div 64 = x * 4096 + y * 64 + z"
    "(x * 262144 + y * 4096 + z * 64 + u) mod 64 = u"
    "(x * 262144 + y * 4096 + z * 64 + u) div 4096 = x * 64 + y"
    "(x * 262144 + y * 4096 + z * 64 + u) div 262144 = x"
proof -
  have one: "(a * 64 + b) div 64 = a" "(a * 64 + b) mod 64 = b" if "b < 64" for a b :: nat using that by simp_all
  have d: "n div 4096 = n div 64 div 64" "n div 262144 = n div 64 div 64 div 64" for n :: nat by (simp_all flip: div_mult2_eq)
  have e: "x * 4096 + y * 64 + z = (x * 64 + y) * 64 + z"
    "x * 262144 + y * 4096 + z * 64 + u = ((x * 64 + y) * 64 + z) * 64 + u" by simp_all
  show "(x * 64 + y) div 64 = x" "(x * 64 + y) mod 64 = y" by (rule one [OF assms(1)])+
  show "(x * 4096 + y * 64 + z) div 64 = x * 64 + y" "(x * 4096 + y * 64 + z) mod 64 = z"
    "(x * 4096 + y * 64 + z) div 4096 = x"
    unfolding d e(1) one [OF assms(2)] one [OF assms(1)] by (rule refl)+
  have "x * 4096 + y * 64 + z = (x * 64 + y) * 64 + z" by simp
  then show "(x * 262144 + y * 4096 + z * 64 + u) div 64 = x * 4096 + y * 64 + z"
    "(x * 262144 + y * 4096 + z * 64 + u) mod 64 = u" "(x * 262144 + y * 4096 + z * 64 + u) div 4096 = x * 64 + y"
    "(x * 262144 + y * 4096 + z * 64 + u) div 262144 = x"
    unfolding d e(2) one [OF assms(3)] one [OF assms(2)] one [OF assms(1)] by simp_all
qed

lemma well_formed_encode:
  assumes "well_formed w"
  shows "encoded_char w"
  using assms
proof (cases w rule: well_formed.cases)
  case (1 b)
  then have "scalar_value (unat b) \<and> utf8_encode (unat b) = w" using assms
    by (simp add: scalar_value_def utf8_encode_def in_range_def)
  then show ?thesis unfolding encoded_char_def by metis
next
  case (2 b c)
  define x where "x = unat b - 0xC0" define y where "y = unat c - 0x80"
  have r: "2 \<le> x" "x < 32" "y < 64" "unat b = 0xC0 + x" "unat c = 0x80 + y"
    using assms 2 by (auto simp: in_range_def x_def y_def)
  let ?n = "x * 64 + y"
  have "?n div 64 = x" "?n mod 64 = y" using base64_compose(1,2) [of y 0 0 x] r(3) by simp_all
  moreover have "0x80 \<le> ?n" "?n < 0x800" using r by linarith+
  ultimately have "scalar_value ?n \<and> utf8_encode ?n = w"
    using byte_of_unat [of b] byte_of_unat [of c] r(4,5) 2 by (simp add: scalar_value_def utf8_encode_def)
  then show ?thesis unfolding encoded_char_def by metis
next
  case (3 b c d)
  define x where "x = unat b - 0xE0" define y where "y = unat c - 0x80" define z where "z = unat d - 0x80"
  have r: "x < 16" "y < 64" "z < 64" "unat b = 0xE0 + x" "unat c = 0x80 + y" "unat d = 0x80 + z"
      "x = 0 \<Longrightarrow> 32 \<le> y" "x = 13 \<Longrightarrow> y < 32"
    using assms 3 by (auto simp: in_range_def x_def y_def z_def second_byte_unat split: if_splits)
  let ?n = "x * 4096 + y * 64 + z"
  have "?n div 64 = x * 64 + y" "?n mod 64 = z" "?n div 4096 = x" 
    using base64_compose(3-5) [of y z 0 x] r(2,3) by simp_all
  moreover have "0x800 \<le> ?n" "?n < 0x10000" using r by linarith+
  moreover have "\<not> (0xD800 \<le> ?n \<and> ?n \<le> 0xDFFF)"
    by (cases "x < 13"; cases "x = 13") (use r(2,3,8) in linarith)+
  ultimately have "scalar_value ?n \<and> utf8_encode ?n = w"
    using byte_of_unat [of b] byte_of_unat [of c] byte_of_unat [of d] r(2,4,5,6) 3 by (simp add: scalar_value_def utf8_encode_def)
  then show ?thesis unfolding encoded_char_def by metis
next
  case (4 b c d e)
  define x where "x = unat b - 0xF0" define y where "y = unat c - 0x80" define z where "z = unat d - 0x80" define u where "u = unat e - 0x80"
  have r: "x \<le> 4" "y < 64" "z < 64" "u < 64" "unat b = 0xF0 + x" "unat c = 0x80 + y" "unat d = 0x80 + z" "unat e = 0x80 + u"
      "x = 0 \<Longrightarrow> 16 \<le> y" "x = 4 \<Longrightarrow> y < 16"
    using assms 4 by (auto simp: in_range_def x_def y_def z_def u_def second_byte_unat split: if_splits)
  let ?n = "x * 262144 + y * 4096 + z * 64 + u"
  have "?n div 64 = x * 4096 + y * 64 + z" "?n mod 64 = u" "?n div 4096 = x * 64 + y" "?n div 262144 = x"
    using base64_compose(6-9) [of y z u x] r(2-4) by simp_all
  moreover have "0x10000 \<le> ?n" "?n < 0x110000" using r by linarith+
  ultimately have "scalar_value ?n \<and> utf8_encode ?n = w"
    using byte_of_unat [of b] byte_of_unat [of c] byte_of_unat [of d] byte_of_unat [of e] r(2,3,5-8) 4
      base64_compose(4) [of y z 0 x]
    by (simp add: scalar_value_def utf8_encode_def)
  then show ?thesis unfolding encoded_char_def by metis
qed simp_all

lemma encoded_char_iff: "encoded_char w \<longleftrightarrow> well_formed w"
  using encode_well_formed well_formed_encode by (auto simp: encoded_char_def)

text \<open>What the decoder's step says, in these terms.\<close>

lemma well_formed_step:
  assumes "well_formed w"
  shows "utf8_step (w @ r) = Inr (length w) \<and> w \<noteq> []"
  using assms by (cases w rule: well_formed.cases) (auto simp: utf8_step_def Let_def next_in_def in_range_def)

lemma step_well_formed:
  assumes "bs \<noteq> []" "utf8_step bs = Inr n"
  shows "well_formed (take n bs)"
  using assms
  by (cases bs; cases "tl bs"; cases "tl (tl bs)"; cases "tl (tl (tl bs))")
    (auto simp: utf8_step_def Let_def next_in_def split: if_splits)

lemma ill_formed_step_local:
  assumes "utf8_step (p @ q @ r) = Inl (length p)" "p \<noteq> []" "q \<noteq> []"
  shows "utf8_step (p @ q @ s) = Inl (length p)"
proof -
  have "next_in P (p @ q @ s) i = next_in P (p @ q @ r) i" if "i \<le> length p" for P i
    using that assms(3) by (cases q) (auto simp: next_in_def nth_append)
  moreover have "hd (p @ q @ s) = hd (p @ q @ r)" using assms(2) by simp
  ultimately show ?thesis using assms(1) assms(2)
    unfolding utf8_step_def Let_def by (cases p; cases "tl p"; cases "tl (tl p)") (simp_all split: if_splits)
qed

lemma ill_formed_step_begins:
  assumes "bs \<noteq> []" "utf8_step bs = Inl n" "n \<noteq> 1"
  shows "begins_char (take n bs)"
proof -
  have "well_formed (take n bs @ [0x80]) \<or> well_formed (take n bs @ [0x80, 0x80])" using assms
    by (cases bs; cases "tl bs"; cases "tl (tl bs)")
      (auto simp: utf8_step_def Let_def next_in_def in_range_def split: if_splits)
  then show ?thesis unfolding begins_char_def encoded_char_iff by blast
qed

lemma step_maximal_subpart:
  assumes "bs \<noteq> []" "utf8_step bs = Inl n"
  shows "maximal_subpart (take n bs) (drop n bs)"
proof -
  have n: "1 \<le> n" "n \<le> length bs" using step_width_bounds [OF assms(1)] assms(2) by (simp_all add: step_width_def)
  have "\<not> encoded_char w" if "take n bs @ drop n bs = w @ s" for w s
  proof
    assume "encoded_char w"
    then show False using well_formed_step [of w s] that assms(2) by (simp add: encoded_char_iff)
  qed
  moreover have "\<not> begins_char (take n bs @ q)" if q: "drop n bs = q @ s" "q \<noteq> []" for q s
  proof
    assume "begins_char (take n bs @ q)"
    then obtain r where "well_formed (take n bs @ q @ r)" by (auto simp: begins_char_def encoded_char_iff)
    from well_formed_step [OF this, of "[]"] have "utf8_step (take n bs @ q @ r) \<noteq> Inl n" by simp
    moreover have "bs = take n bs @ q @ s" using append_take_drop_id [of n bs] q(1) by simp
    ultimately show False
      using ill_formed_step_local [of "take n bs" q s r] assms(2) n q(2) by (metis length_take min.absorb2 take_eq_Nil assms(1) not_one_le_zero)
  qed
  moreover have "length (take n bs) = 1 \<or> begins_char (take n bs)"
    using ill_formed_step_begins [OF assms] n by auto
  ultimately show ?thesis using n assms(1) unfolding maximal_subpart_def by auto
qed

lemma maximal_subpart_step:
  assumes "maximal_subpart p r"
  shows "utf8_step (p @ r) = Inl (length p)"
proof (cases "utf8_step (p @ r)")
  case (Inr n)
  then have "encoded_char (take n (p @ r))" using step_well_formed [of "p @ r" n] assms by (simp add: encoded_char_iff maximal_subpart_def)
  then show ?thesis using assms append_take_drop_id [of n "p @ r"] unfolding maximal_subpart_def by metis
next
  case (Inl n)
  have p: "p \<noteq> []" using assms by (simp add: maximal_subpart_def)
  have m: "maximal_subpart (take n (p @ r)) (drop n (p @ r))" using step_maximal_subpart [OF _ Inl] p by simp
  have n: "1 \<le> n" "n \<le> length (p @ r)" using step_width_bounds [of "p @ r"] Inl p by (simp_all add: step_width_def)
  consider "length p < n" | "length p = n" | "n < length p" by linarith
  then show ?thesis
  proof cases
    case 1
    then have "begins_char (p @ take (n - length p) r)" "take (n - length p) r \<noteq> []"
      using m n p by (auto simp: maximal_subpart_def Suc_le_eq)
    then show ?thesis using assms append_take_drop_id [of "n - length p" r] unfolding maximal_subpart_def by metis
  next
    case 3
    then have "begins_char (take n (p @ r) @ drop n p)" "drop n p \<noteq> []" using assms n by (auto simp: maximal_subpart_def)
    moreover have "drop n (p @ r) = drop n p @ r" using 3 by simp
    ultimately show ?thesis using m unfolding maximal_subpart_def by blast
  qed (use Inl in simp)
qed

lemma replacement_encode: "utf8_encode 0xFFFD = replacement"
  by (simp add: utf8_encode_def replacement_def)

lemma from_utf8_lossy_iff: "lossy_text bs t \<longleftrightarrow> t = from_utf8_lossy bs"
proof
  show "lossy_text bs t \<Longrightarrow> t = from_utf8_lossy bs"
  proof (induction rule: lossy_text.induct)
    case (lossy_char w r t)
    then show ?case using well_formed_step [of w r] from_utf8_lossy_simps(2) [of "w @ r" "length w"] by (simp add: encoded_char_iff)
  next
    case (lossy_subpart p r t)
    then show ?case using maximal_subpart_step [of p r] from_utf8_lossy_simps(3) [of "p @ r" "length p"]
      by (simp add: replacement_encode maximal_subpart_def)
  qed simp
  have "lossy_text bs (from_utf8_lossy bs)"
  proof (induction bs rule: from_utf8_lossy.induct)
    case (1 bs)
    show ?case
    proof (cases "bs = []")
      case False
      show ?thesis
      proof (cases "utf8_step bs")
        case (Inl n)
        show ?thesis using lossy_subpart [OF step_maximal_subpart [OF False Inl] "1.IH"(1) [OF False Inl]] False Inl
          by (simp add: replacement_encode)
      next
        case (Inr n)
        have "encoded_char (take n bs)" using step_well_formed [OF False Inr] by (simp add: encoded_char_iff)
        from lossy_char [OF this "1.IH"(2) [OF False Inr]] show ?thesis using False Inr by simp
      qed
    qed (simp add: lossy_end)
  qed
  then show "t = from_utf8_lossy bs \<Longrightarrow> lossy_text bs t" by simp
qed

lemma utf8_valid_encodings: "utf8_valid bs \<longleftrightarrow> (\<exists>ns. (\<forall>n \<in> set ns. scalar_value n) \<and> bs = concat (map utf8_encode ns))"
proof
  show "utf8_valid bs \<Longrightarrow> \<exists>ns. (\<forall>n \<in> set ns. scalar_value n) \<and> bs = concat (map utf8_encode ns)"
  proof (induction bs rule: utf8_valid.induct)
    case (1 bs)
    show ?case
    proof (cases "bs = []")
      case True
      then show ?thesis by (intro exI [of _ "[]"]) simp
    next
      case False
      with "1.prems" obtain n where n: "utf8_step bs = Inr n" "utf8_valid (drop n bs)" by (cases "utf8_step bs") auto
      obtain k where k: "scalar_value k" "take n bs = utf8_encode k"
        using step_well_formed [OF False n(1)] by (auto simp: encoded_char_def simp flip: encoded_char_iff)
      from "1.IH" [OF False n] obtain ns where "\<forall>n \<in> set ns. scalar_value n" "drop n bs = concat (map utf8_encode ns)" by blast
      with k show ?thesis using append_take_drop_id [of n bs] by (intro exI [of _ "k # ns"]) simp
    qed
  qed
  have "(\<forall>n \<in> set ns. scalar_value n) \<Longrightarrow> utf8_valid (concat (map utf8_encode ns))" for ns
  proof (induction ns)
    case (Cons n ns)
    then have w: "well_formed (utf8_encode n)" by (simp add: encode_well_formed)
    from well_formed_step [OF this, of "concat (map utf8_encode ns)"] Cons show ?case
      using utf8_valid_simps(2) [of "utf8_encode n @ concat (map utf8_encode ns)" "length (utf8_encode n)"] by simp
  qed simp
  then show "\<exists>ns. (\<forall>n \<in> set ns. scalar_value n) \<and> bs = concat (map utf8_encode ns) \<Longrightarrow> utf8_valid bs" by blast
qed

section \<open>Headers and cookies\<close>

lemma raw_headers_loop_join:
  "hs \<noteq> [] \<Longrightarrow> raw_headers_loop out first hs = (if first then out else out @ [CHR 0x0D, CHR 0x0A]) @
     join [CHR 0x0D, CHR 0x0A] (map (\<lambda>(k, v). k @ '': '' @ v) hs)"
proof (induction hs arbitrary: out first)
  case (Cons h hs)
  obtain k v where "h = (k, v)" by fastforce
  then show ?case using Cons.IH by (cases "hs = []") (auto simp: join_Cons)
qed simp

text \<open>The cookie a \<open>Set-Cookie\<close> line sets.\<close>

definition set_cookie_pair :: "string \<times> string \<Rightarrow> (string \<times> string) option" where
  "set_cookie_pair h = (if eq_ignore_ascii_case (fst h) ''set-cookie''
     then map_option (\<lambda>(n, v). (trim n, trim v)) (split_once CHR ''='' (hd (split_on CHR '';'' (snd h)))) else None)"

lemma set_cookies_loop_map_of:
  "set_cookies_loop m hs = m ++ map_of (rev (List.map_filter set_cookie_pair hs))"
proof (induction hs arbitrary: m)
  case (Cons h hs)
  obtain k v where h: "h = (k, v)" by fastforce
  show ?case
    by (cases "split_once CHR ''='' (hd (split_on CHR '';'' v))")
       (auto simp: h Cons.IH set_cookie_pair_def map_filter_simps map_add_def fun_eq_iff split: option.split)
qed (simp add: map_filter_simps)

section \<open>Caches\<close>

text \<open>
  The abstract response has no caches: \<open>fresh\<close> forgets them. A cache is coherent when it holds what
  a computation from the other fields gives.
\<close>

definition cache_ok :: "digests \<Rightarrow> response \<Rightarrow> bool" where
  "cache_ok dg r \<longleftrightarrow> rs_body_cache r \<in> {None, Some (body_text (rs_body_bytes r))} \<and>
     rs_raw_headers_cache r \<in> {None, Some (build_raw_headers (rs_headers r))} \<and>
     rs_cookies_cache r \<in> {None, Some (parse_set_cookies (rs_headers r))} \<and>
     rs_hash_cache r \<in> {None, Some (hash_compute dg (rs_body_bytes r) (build_raw_headers (rs_headers r)))}"

lemma accessor_results:
  assumes "cache_ok dg r"
  shows "fst (response_body r) = body_text (rs_body_bytes r)"
    "fst (response_raw_headers r) = build_raw_headers (rs_headers r)"
    "fst (response_cookies r) = parse_set_cookies (rs_headers r)"
    "fst (response_hash_of dg r) = hash_compute dg (rs_body_bytes r) (build_raw_headers (rs_headers r))"
  using assms
  by (auto simp: cache_ok_def response_body_def response_raw_headers_def response_cookies_def
      response_hash_of_def Let_def split: option.splits)

lemma accessor_states:
  assumes "cache_ok dg r"
  shows "cache_ok dg (snd (response_body r)) \<and> response_clone (snd (response_body r)) = response_clone r"
    "cache_ok dg (snd (response_raw_headers r)) \<and> response_clone (snd (response_raw_headers r)) = response_clone r"
    "cache_ok dg (snd (response_cookies r)) \<and> response_clone (snd (response_cookies r)) = response_clone r"
    "cache_ok dg (snd (response_hash_of dg r)) \<and> response_clone (snd (response_hash_of dg r)) = response_clone r"
  using assms
  by (auto simp: cache_ok_def response_body_def response_raw_headers_def response_cookies_def
      response_hash_of_def response_clone_def Let_def split: option.splits)

lemma clone_fields:
  "response_clone a = response_clone b \<Longrightarrow> rs_url a = rs_url b \<and> rs_status a = rs_status b \<and>
     rs_headers a = rs_headers b \<and> rs_body_bytes a = rs_body_bytes b \<and> rs_elapsed_ms a = rs_elapsed_ms b \<and>
     rs_redirect_chain a = rs_redirect_chain b \<and> rs_cert_info a = rs_cert_info b \<and> rs_peer_ip a = rs_peer_ip b \<and>
     rs_request_url a = rs_request_url b \<and> rs_request_method a = rs_request_method b \<and>
     rs_decode_error a = rs_decode_error b"
  by (cases a; cases b) (simp add: response_clone_def)

lemma response_clone_idem [simp]: "response_clone (response_clone r) = response_clone r"
  by (simp add: response_clone_def)

lemma cache_ok_clone: "cache_ok dg (response_clone r)"
  by (simp add: cache_ok_def response_clone_def)

text \<open>The JSON fields computed from the received fields.\<close>

definition plain_fields :: "digests \<Rightarrow> response \<Rightarrow> (string \<times> json) list" where
  "plain_fields dg r =
     [(''url'', JString (rs_url r)), (''status'', JStatus (rs_status r)), (''headers'', JHeaders (rs_headers r)),
      (''body'', JString (body_text (rs_body_bytes r))), (''raw_headers'', JString (build_raw_headers (rs_headers r))),
      (''cookies'', JCookies (parse_set_cookies (rs_headers r))),
      (''hash'', JHash (hash_compute dg (rs_body_bytes r) (build_raw_headers (rs_headers r)))),
      (''elapsed_ms'', JMillis (rs_elapsed_ms r)), (''redirect_chain'', JChain (rs_redirect_chain r))] @
     opt_field ''cert_info'' JCert (rs_cert_info r) @ opt_field ''peer_ip'' JString (rs_peer_ip r) @
     [(''request_url'', JString (rs_request_url r)), (''request_method'', JString (rs_request_method r))] @
     opt_field ''decode_error'' JString (rs_decode_error r)"

lemma plain_fields_clone: "response_clone a = response_clone b \<Longrightarrow> plain_fields dg a = plain_fields dg b"
  by (drule clone_fields) (simp add: plain_fields_def)

lemma response_serialize_plain:
  assumes "cache_ok dg r"
  shows "fst (response_serialize dg r) = plain_fields dg r \<and> cache_ok dg (snd (response_serialize dg r)) \<and>
    response_clone (snd (response_serialize dg r)) = response_clone r"
proof -
  obtain b r1 where 1: "response_body r = (b, r1)" by fastforce
  obtain raw r2 where 2: "response_raw_headers r1 = (raw, r2)" by fastforce
  obtain m r3 where 3: "response_cookies r2 = (m, r3)" by fastforce
  obtain h r4 where 4: "response_hash_of dg r3 = (h, r4)" by fastforce
  have c1: "cache_ok dg r1" "response_clone r1 = response_clone r" "b = body_text (rs_body_bytes r)"
    using accessor_states(1) [OF assms] accessor_results(1) [OF assms] by (simp_all add: 1)
  have c2: "cache_ok dg r2" "response_clone r2 = response_clone r" "raw = build_raw_headers (rs_headers r)"
    using accessor_states(2) [OF c1(1)] accessor_results(2) [OF c1(1)] c1 clone_fields [OF c1(2)] by (simp_all add: 2)
  have c3: "cache_ok dg r3" "response_clone r3 = response_clone r" "m = parse_set_cookies (rs_headers r)"
    using accessor_states(3) [OF c2(1)] accessor_results(3) [OF c2(1)] c2 clone_fields [OF c2(2)] by (simp_all add: 3)
  have c4: "cache_ok dg r4" "response_clone r4 = response_clone r"
    "h = hash_compute dg (rs_body_bytes r) (build_raw_headers (rs_headers r))"
    using accessor_states(4) [OF c3(1)] accessor_results(4) [OF c3(1)] c3 clone_fields [OF c3(2)] by (simp_all add: 4)
  have "response_serialize dg r = (plain_fields dg r4, r4)"
    using c1(3) c2(3) c3(3) c4(3) clone_fields [OF c4(2)]
    by (simp add: response_serialize_def 1 2 3 4 plain_fields_def)
  then show ?thesis using c4 plain_fields_clone [OF c4(2)] by simp
qed

section \<open>Properties\<close>

text \<open>
  C30: The text of a body is its lossy UTF-8 decoding, as the Unicode standard describes it: read from the
  left, the encoding of a scalar value is kept as it is, and where none begins, the longest start of
  one that there is, or else a single byte, is replaced by one U+FFFD; no byte is dropped and nothing
  else is replaced. The encodings are those of an encoder that knows nothing of the decoder. So the
  text is well-formed UTF-8, the encoding of a list of scalar values, and equals the bytes exactly when
  they are that already.
\<close>

theorem body_text_valid:
  "(lossy_text bs t \<longleftrightarrow> t = str_bytes (body_text bs)) \<and>
   (\<exists>ns. set ns \<subseteq> {n. scalar_value n} \<and> str_bytes (body_text bs) = concat (map utf8_encode ns)) \<and>
   (str_bytes (body_text bs) = bs \<longleftrightarrow> (\<exists>ns. set ns \<subseteq> {n. scalar_value n} \<and> bs = concat (map utf8_encode ns))) \<and>
   utf8_valid (str_bytes (body_text bs)) \<and> (utf8_valid bs \<longleftrightarrow> str_bytes (body_text bs) = bs)"
proof -
  have s: "str_bytes (body_text bs) = from_utf8_lossy bs" by (simp add: body_text_lossy)
  have v: "utf8_valid x \<longleftrightarrow> (\<exists>ns. set ns \<subseteq> {n. scalar_value n} \<and> x = concat (map utf8_encode ns))" for x
    unfolding utf8_valid_encodings by blast
  have "utf8_valid bs \<longleftrightarrow> from_utf8_lossy bs = bs"
    using from_utf8_lossy_valid_id [of bs] from_utf8_lossy_is_valid [of bs] by metis
  then show ?thesis unfolding s v [symmetric] using from_utf8_lossy_is_valid [of bs] from_utf8_lossy_iff [of bs t] by blast
qed

text \<open>
  C31: The caches of a response are invisible. Each accessor returns the value computed from the
  received fields, whether the cache was filled or not, changes nothing but its cache and keeps the
  caches coherent; so does serializing, which computes them all, and a clone starts with none.
\<close>

theorem response_caches:
  assumes "cache_ok dg r"
  shows "fst (response_body r) = body_text (rs_body_bytes r) \<and>
    fst (response_raw_headers r) = build_raw_headers (rs_headers r) \<and>
    fst (response_cookies r) = parse_set_cookies (rs_headers r) \<and>
    fst (response_hash_of dg r) = hash_compute dg (rs_body_bytes r) (build_raw_headers (rs_headers r)) \<and>
    (\<forall>r' \<in> {snd (response_body r), snd (response_raw_headers r), snd (response_cookies r),
        snd (response_hash_of dg r), snd (response_serialize dg r), response_clone r}.
      cache_ok dg r' \<and> response_clone r' = response_clone r) \<and>
    fst (response_serialize dg r) = fst (response_serialize dg (response_clone r))"
proof -
  have "fst (response_serialize dg r) = fst (response_serialize dg (response_clone r))"
    using response_serialize_plain [OF assms] response_serialize_plain [OF cache_ok_clone]
      plain_fields_clone [of "response_clone r" r] by simp
  moreover note accessor_results [OF assms] accessor_states [OF assms] response_serialize_plain [OF assms]
    cache_ok_clone [of dg r]
  ultimately show ?thesis by simp
qed

definition example_response :: response where
  "example_response = \<lparr>rs_url = ''u'', rs_status = 200, rs_headers = [(''a'', ''b'')], rs_body_bytes = [104, 105],
     rs_elapsed_ms = 1, rs_redirect_chain = [], rs_cert_info = None, rs_peer_ip = None, rs_request_url = ''u'',
     rs_request_method = ''GET'', rs_debug_log = [], rs_decode_error = Some ''e'', rs_body_cache = None,
     rs_raw_headers_cache = Some ''a: b'', rs_cookies_cache = None, rs_hash_cache = None\<rparr>"

definition example_digests :: digests where
  "example_digests = \<lparr>dg_md5 = (\<lambda>b. Some (take 16 b)), dg_sha256 = (\<lambda>b. None), dg_murmur3 = (\<lambda>b. Some 7)\<rparr>"

lemma response_caches_witness:
  "fst (response_raw_headers example_response) = ''a: b'' \<and>
   cache_ok example_digests (snd (response_serialize example_digests example_response))"
proof -
  have "cache_ok example_digests example_response"
    by (simp add: cache_ok_def example_response_def build_raw_headers_def)
  from response_caches [OF this] show ?thesis
    by (simp add: example_response_def build_raw_headers_def)
qed

text \<open>Serializing announces 13 fields to serde, but can write 14.\<close>

lemma serialize_field_count:
  "rs_cert_info r \<noteq> None \<Longrightarrow> rs_peer_ip r \<noteq> None \<Longrightarrow> rs_decode_error r \<noteq> None \<Longrightarrow>
     length (fst (response_serialize dg r)) = 14"
  by (auto simp: response_serialize_def opt_field_def case_prod_beta Let_def response_body_def
      response_raw_headers_def response_cookies_def response_hash_of_def split: option.split)

text \<open>
  The cookies of a response are those of its \<open>Set-Cookie\<close> lines, the last line winning for a
  name; the raw headers are the lines joined by CRLF without a trailing one.
\<close>

theorem response_headers_views:
  "parse_set_cookies hs = map_of (rev (List.map_filter set_cookie_pair hs)) \<and>
   build_raw_headers hs = join [CHR 0x0D, CHR 0x0A] (map (\<lambda>(k, v). k @ '': '' @ v) hs)"
  using set_cookies_loop_map_of [of Map.empty hs] raw_headers_loop_join [of hs "[]" True]
  by (cases "hs = []") (simp_all add: parse_set_cookies_def build_raw_headers_def)

end
