(* ===== verification/Tls_Setup.thy ===== *)
theory Tls_Setup
  imports Request_Config Response_Model Wire
begin

unbundle bit_operations_syntax

text \<open>
  The TLS side of \<^verbatim>\<open>src/client/hyper.rs\<close>: TLS versions, the ALPN wire list, the system trust store,
  the connector of the pooled client and its bookkeeping of peer addresses and certificates.

  OpenSSL is a parameter: the record \<open>openssl\<close> says which of its setters fail and how, and a
  certificate is its parsed view \<open>x509\<close>. The file system and environment of the trust store search
  are the record \<open>ca_env\<close>.

  Lemmas: the ALPN list reads back; a verified connection has a trust anchor and is pinned to the
  host asked for; which certificate and address the slots hold after a connection.
\<close>

section \<open>Protocol names and versions\<close>

fun encode_alpn_loop :: "bytes \<Rightarrow> string list \<Rightarrow> client_error + bytes" where
  "encode_alpn_loop out [] = Inr out"
| "encode_alpn_loop out (p # ps) =
     (let bs = str_bytes p in
      if bs = [] then Inl (err_tls ''ALPN protocol name cannot be empty'')
      else if length bs > 255
      then Inl (err_tls (''ALPN protocol name too long ('' @ show_nat (length bs) @ ''B > 255): '' @ p))
      else encode_alpn_loop (out @ [of_nat (length bs)] @ bs) ps)"

definition encode_alpn_protocols :: "string list \<Rightarrow> client_error + bytes" where
  "encode_alpn_protocols protos = encode_alpn_loop [] protos"

datatype tls_version = TLS1 | TLS1_1 | TLS1_2 | TLS1_3

definition parse_tls_version :: "string \<Rightarrow> client_error + tls_version" where
  "parse_tls_version s =
     (let l = to_ascii_lowercase s in
      if l = ''1.0'' \<or> l = ''tls1.0'' \<or> l = ''tlsv1.0'' then Inr TLS1
      else if l = ''1.1'' \<or> l = ''tls1.1'' \<or> l = ''tlsv1.1'' then Inr TLS1_1
      else if l = ''1.2'' \<or> l = ''tls1.2'' \<or> l = ''tlsv1.2'' then Inr TLS1_2
      else if l = ''1.3'' \<or> l = ''tls1.3'' \<or> l = ''tlsv1.3'' then Inr TLS1_3
      else Inl (err_other (''unknown TLS version '' @ [CHR 0x27] @ s @ [CHR 0x27] @ '' (use 1.0, 1.1, 1.2, 1.3)'')))"

section \<open>The trust store\<close>

datatype ca_source = CaFile string | CaDir string | CaDefaults

record ca_env =
  env_cert_file :: "string option"
  env_cert_dir :: "string option"
  path_is_file :: "string \<Rightarrow> bool"
  path_is_dir :: "string \<Rightarrow> bool"
  set_ca_file :: "string \<Rightarrow> string option"
  load_ca_dir :: "string \<Rightarrow> string option"
  set_default_paths :: "string option"

definition CA_FILE_PATHS :: "string list" where
  "CA_FILE_PATHS = [''/etc/ssl/certs/ca-certificates.crt'', ''/etc/pki/tls/certs/ca-bundle.crt'',
     ''/etc/ssl/ca-bundle.pem'', ''/etc/pki/ca-trust/extracted/pem/tls-ca-bundle.pem'', ''/etc/ssl/cert.pem'']"

definition CA_DIR_PATHS :: "string list" where
  "CA_DIR_PATHS = [''/etc/ssl/certs'', ''/etc/pki/tls/certs'', ''/system/etc/security/cacerts'']"

text \<open>The sources added to the builder, in order; a setter's \<open>Some e\<close> is its error.\<close>

definition load_ca_files :: "ca_env \<Rightarrow> client_error + ca_source list" where
  "load_ca_files env =
     (case env_cert_file env of
        Some cert_file \<Rightarrow>
          if path_is_file env cert_file
          then (case set_ca_file env cert_file of
              None \<Rightarrow> Inr [CaFile cert_file]
            | Some e \<Rightarrow> Inl (err_tls (''failed to load CA file '' @ [CHR 0x27] @ cert_file @ [CHR 0x27] @ '': '' @ e)))
          else Inr (map CaFile (take 1 (filter (\<lambda>p. path_is_file env p \<and> set_ca_file env p = None) CA_FILE_PATHS)))
      | None \<Rightarrow> Inr (map CaFile (take 1 (filter (\<lambda>p. path_is_file env p \<and> set_ca_file env p = None) CA_FILE_PATHS))))"

definition load_ca_dirs :: "ca_env \<Rightarrow> ca_source list" where
  "load_ca_dirs env =
     (let ok = (\<lambda>p. path_is_dir env p \<and> load_ca_dir env p = None) in
      case env_cert_dir env of
        Some cert_dir \<Rightarrow> if ok cert_dir then [CaDir cert_dir] else []
      | None \<Rightarrow> map CaDir (take 1 (filter ok CA_DIR_PATHS)))"

definition load_system_ca_certs :: "ca_env \<Rightarrow> client_error + ca_source list" where
  "load_system_ca_certs env =
     and_then (load_ca_files env) (\<lambda>files.
     let loaded = files @ load_ca_dirs env in
     if loaded \<noteq> [] then Inr loaded
     else case set_default_paths env of
       None \<Rightarrow> Inr [CaDefaults]
     | Some e \<Rightarrow> Inl (err_tls (''no system CA certificates found: '' @ e)))"

section \<open>The connector\<close>

record openssl =
  os_setup :: "string option"
  os_ca :: ca_env
  os_ciphers :: "string \<Rightarrow> string option"
  os_min_version :: "tls_version \<Rightarrow> string option"
  os_max_version :: "tls_version \<Rightarrow> string option"
  os_alpn :: "bytes \<Rightarrow> string option"
  os_ssl :: "string option"
  os_sni :: "string \<Rightarrow> string option"
  os_ip :: "ip_addr \<Rightarrow> string option"
  os_host :: "string \<Rightarrow> string option"
  os_stream :: "string option"

text \<open>What was set on the builder. \<open>sb_trust\<close> is None for verify mode NONE.\<close>

record ssl_settings =
  sb_security_level :: nat
  sb_trust :: "ca_source list option"
  sb_ciphers :: "string option"
  sb_min :: "tls_version option"
  sb_max :: "tls_version option"
  sb_alpn :: bytes

definition check :: "string option \<Rightarrow> (string \<Rightarrow> client_error) \<Rightarrow> client_error + unit" where
  "check e wrap = (case e of None \<Rightarrow> Inr () | Some e \<Rightarrow> Inl (wrap e))"

definition set_version ::
  "(tls_version \<Rightarrow> string option) \<Rightarrow> string \<Rightarrow> string option \<Rightarrow> client_error + tls_version option" where
  "set_version setter what ver =
     (case ver of
        None \<Rightarrow> Inr None
      | Some v \<Rightarrow>
          and_then (parse_tls_version v) (\<lambda>version.
          and_then (check (setter version) (\<lambda>e. err_tls (''failed to set '' @ what @ '' TLS version: '' @ e))) (\<lambda>_.
          Inr (Some version))))"

definition build_ssl :: "openssl \<Rightarrow> request_config \<Rightarrow> bytes \<Rightarrow> client_error + ssl_settings" where
  "build_ssl os config default_alpn =
     and_then (check (os_setup os) (\<lambda>e. err_tls (''SSL setup failed: '' @ e))) (\<lambda>_.
     and_then (if \<not> should_verify_certs config then Inr None
       else and_then (load_system_ca_certs (os_ca os)) (\<lambda>cas. Inr (Some cas))) (\<lambda>trust.
     and_then (case rc_cipher_string config of
         None \<Rightarrow> Inr ()
       | Some c \<Rightarrow> check (os_ciphers os c)
           (\<lambda>e. err_tls (''invalid cipher string '' @ [CHR 0x27] @ c @ [CHR 0x27] @ '': '' @ e))) (\<lambda>_.
     and_then (set_version (os_min_version os) ''min'' (rc_min_tls_version config)) (\<lambda>mn.
     and_then (set_version (os_max_version os) ''max'' (rc_max_tls_version config)) (\<lambda>mx.
     and_then (case rc_alpn_protocols config of
         Some protos \<Rightarrow> encode_alpn_protocols protos
       | None \<Rightarrow> Inr default_alpn) (\<lambda>alpn_wire.
     and_then (check (os_alpn os alpn_wire) (\<lambda>e. err_tls (''failed to set ALPN: '' @ e))) (\<lambda>_.
     Inr \<lparr>sb_security_level = 0, sb_trust = trust, sb_ciphers = rc_cipher_string config,
          sb_min = mn, sb_max = mx, sb_alpn = alpn_wire\<rparr>)))))))"

record connector =
  cn_ssl :: ssl_settings
  cn_connect_timeout :: u64

definition default_pool_alpn :: bytes where
  "default_pool_alpn = 2 # str_bytes ''h2'' @ 8 # str_bytes ''http/1.1''"

definition connector_new :: "openssl \<Rightarrow> request_config \<Rightarrow> client_error + connector" where
  "connector_new os config =
     and_then (build_ssl os config default_pool_alpn) (\<lambda>ssl.
     Inr \<lparr>cn_ssl = ssl, cn_connect_timeout = config_timeout config\<rparr>)"

section \<open>One TLS connection\<close>

datatype identity = IdIp ip_addr | IdHost string

record ssl_conf =
  sc_settings :: ssl_settings
  sc_sni :: "string option"
  sc_identity :: "identity option"

datatype tls_setup_error = SslNew string | SniSetup string | VerifySetup string | StreamSetup string

definition check_setup :: "string option \<Rightarrow> (string \<Rightarrow> 'e) \<Rightarrow> 'e + unit" where
  "check_setup e wrap = (case e of None \<Rightarrow> Inr () | Some e \<Rightarrow> Inl (wrap e))"

definition ssl_conf_for :: "openssl \<Rightarrow> ssl_settings \<Rightarrow> string \<Rightarrow> tls_setup_error + ssl_conf" where
  "ssl_conf_for os settings host =
     and_then (check_setup (os_ssl os) SslNew) (\<lambda>_.
     and_then (if parse_ip host = None
       then and_then (check_setup (os_sni os host) SniSetup) (\<lambda>_. Inr (Some host)) else Inr None) (\<lambda>sni.
     and_then (if sb_trust settings \<noteq> None
       then (case parse_ip host of
           Some ip \<Rightarrow> and_then (check_setup (os_ip os ip) VerifySetup) (\<lambda>_. Inr (Some (IdIp ip)))
         | None \<Rightarrow> and_then (check_setup (os_host os host) VerifySetup) (\<lambda>_. Inr (Some (IdHost host))))
       else Inr None) (\<lambda>ident.
     and_then (check_setup (os_stream os) StreamSetup) (\<lambda>_.
     Inr \<lparr>sc_settings = settings, sc_sni = sni, sc_identity = ident\<rparr>))))"

text \<open>The parsed view of a certificate: what each accessor of openssl returns.\<close>

record x509 =
  x_subject_cn :: "string option list"
  x_san_dns :: "string option list"
  x_san_email :: "string option list"
  x_subject_emails :: "string option list"
  x_issuer_emails :: "string option list"
  x_issuer_cn :: "string option list"
  x_not_before :: string
  x_not_after :: string
  x_sha256 :: "bytes option"

definition first_ok :: "string option list \<Rightarrow> string option" where
  "first_ok l = (case l of [] \<Rightarrow> None | x # _ \<Rightarrow> x)"

fun add_emails :: "string list \<Rightarrow> string option list \<Rightarrow> string list" where
  "add_emails emails [] = emails"
| "add_emails emails (None # es) = add_emails emails es"
| "add_emails emails (Some s # es) = add_emails (if s \<in> set emails then emails else emails @ [s]) es"

definition extract_cert_info :: "x509 option \<Rightarrow> cert_info option" where
  "extract_cert_info peer =
     (case peer of None \<Rightarrow> None | Some cert \<Rightarrow>
      Some \<lparr>ci_common_name = first_ok (x_subject_cn cert),
        ci_sans = List.map_filter id (x_san_dns cert),
        ci_emails = add_emails (add_emails (List.map_filter id (x_subject_emails cert)) (x_issuer_emails cert))
          (x_san_email cert),
        ci_issuer = first_ok (x_issuer_cn cert),
        ci_not_before = Some (x_not_before cert), ci_not_after = Some (x_not_after cert),
        ci_fingerprint_sha256 = map_option (\<lambda>d. join '':'' (map hex_byte d)) (x_sha256 cert)\<rparr>)"

definition peer_slot_key :: "uri \<Rightarrow> string option" where
  "peer_slot_key u =
     (case u_host u of None \<Rightarrow> None | Some host \<Rightarrow>
      let default_port = (if u_scheme u = Some ''https'' then 443 else 80);
          port = unwrap_or (u_port u) default_port in
      Some (host @ '':'' @ show_nat (unat port)))"

text \<open>
  The slots of a pooled client and one call of its connector: \<open>tcp\<close> is the outcome of the TCP
  connect, with the peer address when the socket tells it, \<open>tls\<close> that of the handshake.
\<close>

record slots =
  sl_cert :: "cert_info option"
  sl_peers :: "string \<rightharpoonup> string"

datatype connect_failure = TcpFailed string | TlsSetup tls_setup_error | TlsTimedOut string u64 | TlsFailed string

datatype handshake = HandshakeTimeout | HandshakeError string | HandshakeDone "x509 option" "bytes option"

datatype connection = PlainConn | TlsConn ssl_conf bool

definition record_peer :: "uri \<Rightarrow> string option \<Rightarrow> slots \<Rightarrow> slots" where
  "record_peer u peer s =
     (case (peer_slot_key u, peer) of
        (Some key, Some ip) \<Rightarrow> s\<lparr>sl_peers := (sl_peers s)(key \<mapsto> ip)\<rparr>
      | _ \<Rightarrow> s)"

definition connector_call ::
  "openssl \<Rightarrow> connector \<Rightarrow> uri \<Rightarrow> string + string option \<Rightarrow> (ssl_conf \<Rightarrow> handshake) \<Rightarrow> slots
    \<Rightarrow> (connect_failure + connection) \<times> slots" where
  "connector_call os cn u tcp tls s =
     (let host = unwrap_or (u_host u) []; is_https = (u_scheme u = Some ''https'') in
      case tcp of
        Inl e \<Rightarrow> (Inl (TcpFailed e), s)
      | Inr peer \<Rightarrow>
         (let s = record_peer u peer s in
          if \<not> is_https then (Inr PlainConn, s)
          else case ssl_conf_for os (cn_ssl cn) host of
            Inl e \<Rightarrow> (Inl (TlsSetup e), s)
          | Inr conf \<Rightarrow>
             (case tls conf of
                HandshakeTimeout \<Rightarrow> (Inl (TlsTimedOut host (cn_connect_timeout cn)), s)
              | HandshakeError e \<Rightarrow> (Inl (TlsFailed e), s)
              | HandshakeDone cert alpn \<Rightarrow>
                  (Inr (TlsConn conf (alpn = Some (str_bytes ''h2''))), s\<lparr>sl_cert := extract_cert_info cert\<rparr>))))"

section \<open>Trust and identity\<close>

lemma check_eq_Inr [simp]: "check e w = Inr x \<longleftrightarrow> e = None"
  by (cases e) (auto simp: check_def)

lemma check_setup_eq_Inr [simp]: "check_setup e w = Inr x \<longleftrightarrow> e = None"
  by (cases e) (auto simp: check_setup_def)

lemma load_system_ca_certs_nonempty: "load_system_ca_certs env = Inr cas \<Longrightarrow> cas \<noteq> []"
  by (auto simp: load_system_ca_certs_def and_then_eq_Inr Let_def split: if_splits option.splits)

lemma build_ssl_Inr:
  assumes "build_ssl os config d = Inr s"
  shows "(if should_verify_certs config then \<exists>cas. load_system_ca_certs (os_ca os) = Inr cas \<and> sb_trust s = Some cas
      else sb_trust s = None) \<and>
    sb_ciphers s = rc_cipher_string config \<and>
    (case rc_alpn_protocols config of Some p \<Rightarrow> encode_alpn_protocols p = Inr (sb_alpn s) | None \<Rightarrow> sb_alpn s = d) \<and>
    (case rc_min_tls_version config of Some v \<Rightarrow> \<exists>t. parse_tls_version v = Inr t \<and> sb_min s = Some t | None \<Rightarrow> sb_min s = None) \<and>
    (case rc_max_tls_version config of Some v \<Rightarrow> \<exists>t. parse_tls_version v = Inr t \<and> sb_max s = Some t | None \<Rightarrow> sb_max s = None)"
  using assms
  by (auto simp: build_ssl_def and_then_eq_Inr set_version_def split: if_splits option.splits)

lemma ssl_conf_for_Inr:
  assumes "ssl_conf_for os s host = Inr conf"
  shows "sc_settings conf = s \<and> sc_sni conf = (if parse_ip host = None then Some host else None) \<and>
    sc_identity conf = (if sb_trust s = None then None
      else case parse_ip host of Some ip \<Rightarrow> Some (IdIp ip) | None \<Rightarrow> Some (IdHost host))"
  using assms by (auto simp: ssl_conf_for_def and_then_eq_Inr split: if_splits option.splits)

section \<open>The ALPN list\<close>

text \<open>Reading one length-prefixed name at a position.\<close>

definition read_alpn_name :: "bytes \<Rightarrow> nat \<Rightarrow> unit + bytes \<times> nat" where
  "read_alpn_name buf pos =
     (if pos \<ge> length buf then Inl ()
      else (let n = unat (buf ! pos) in
            if n = 0 \<or> pos + 1 + n > length buf then Inl ()
            else Inr (take n (drop (pos + 1) buf), pos + 1 + n)))"

definition alpn_item :: "bytes \<Rightarrow> bytes" where
  "alpn_item bs = of_nat (length bs) # bs"

definition alpn_ok :: "bytes \<Rightarrow> bool" where
  "alpn_ok bs \<longleftrightarrow> bs \<noteq> [] \<and> length bs \<le> 255"

lemma unat_u8_length: "n \<le> 255 \<Longrightarrow> unat (of_nat n :: u8) = n"
  by (simp only: unat_of_nat) (simp add: take_bit_nat_eq_self)

lemma encode_alpn_loop_eq:
  "encode_alpn_loop out ps = Inr bs \<longleftrightarrow>
     (\<forall>p \<in> set ps. alpn_ok (str_bytes p)) \<and> bs = out @ concat (map (\<lambda>p. alpn_item (str_bytes p)) ps)"
  by (induction ps arbitrary: out) (auto simp: alpn_ok_def alpn_item_def Let_def not_less)

interpretation alpn_names: wire_item alpn_item read_alpn_name alpn_ok
  by unfold_locales (auto simp: alpn_ok_def alpn_item_def read_alpn_name_def unat_u8_length nth_append Let_def)

text \<open>Reading a whole list, as a TLS server does.\<close>

function read_alpn_list :: "bytes \<Rightarrow> nat \<Rightarrow> bytes list option" where
  "read_alpn_list buf pos =
     (if pos \<ge> length buf then Some []
      else case read_alpn_name buf pos of
        Inl _ \<Rightarrow> None
      | Inr (name, next) \<Rightarrow> map_option (Cons name) (read_alpn_list buf next))"
  by pat_completeness auto
termination
  by (relation "measure (\<lambda>(buf, pos). length buf - pos)")
     (auto simp: read_alpn_name_def Let_def split: if_splits)

declare read_alpn_list.simps [simp del]

lemma read_alpn_list_items:
  "\<forall>b \<in> set bs. alpn_ok b \<Longrightarrow> buf = pre @ concat (map alpn_item bs) \<Longrightarrow> pos = length pre \<Longrightarrow>
     read_alpn_list buf pos = Some bs"
proof (induction bs arbitrary: pre pos)
  case (Cons b bs)
  have "read_alpn_name buf pos = Inr (b, length (pre @ alpn_item b))"
    using Cons.prems by (intro alpn_names.dec_at [where post = "concat (map alpn_item bs)"]) auto
  moreover have "read_alpn_list buf (length (pre @ alpn_item b)) = Some bs"
    using Cons.prems by (intro Cons.IH [of "pre @ alpn_item b"]) auto
  moreover have "pos < length buf" using Cons.prems by (simp add: alpn_item_def)
  ultimately show ?case by (simp add: read_alpn_list.simps [of buf pos])
qed (simp add: read_alpn_list.simps)

section \<open>Properties\<close>

text \<open>
  The ALPN offer is what the caller listed. Encoding fails exactly when a name is empty or
  longer than 255 bytes; otherwise a server that reads the wire list gets the names back in order.
\<close>

theorem alpn_roundtrip:
  "(case encode_alpn_protocols ps of
      Inr bs \<Rightarrow> read_alpn_list bs 0 = Some (map str_bytes ps)
    | Inl e \<Rightarrow> ce_kind e = Tls \<and> (\<exists>p \<in> set ps. p = [] \<or> length p > 255))"
proof (cases "encode_alpn_protocols ps")
  case (Inl e)
  have "encode_alpn_loop out ps = Inl e \<Longrightarrow> ce_kind e = Tls \<and> (\<exists>p \<in> set ps. p = [] \<or> length p > 255)" for out
    by (induction ps arbitrary: out) (auto simp: Let_def str_bytes_def split: if_splits)
  with Inl show ?thesis by (simp add: encode_alpn_protocols_def)
next
  case (Inr bs)
  then have "(\<forall>p \<in> set ps. alpn_ok (str_bytes p)) \<and> bs = concat (map alpn_item (map str_bytes ps))"
    by (simp add: encode_alpn_protocols_def encode_alpn_loop_eq comp_def)
  with read_alpn_list_items [of "map str_bytes ps" bs "[]" 0] show ?thesis by (simp add: Inr)
qed

text \<open>
  C32: A connection that has to verify certificates does. The pooled connector of a configuration
  with verification on has a non-empty trust store and pins each TLS connection to the very host of
  the URI, as an address or as a name; with verification off it does neither. Server name indication
  is sent for names only.
\<close>

theorem connector_identity:
  assumes "connector_new os config = Inr cn" "ssl_conf_for os (cn_ssl cn) host = Inr conf"
  shows "sc_sni conf = (if parse_ip host = None then Some host else None) \<and>
    (if should_verify_certs config
     then (\<exists>cas. sb_trust (sc_settings conf) = Some cas \<and> cas \<noteq> []) \<and>
       sc_identity conf = Some (case parse_ip host of Some ip \<Rightarrow> IdIp ip | None \<Rightarrow> IdHost host)
     else sb_trust (sc_settings conf) = None \<and> sc_identity conf = None)"
proof -
  from assms(1) have "build_ssl os config default_pool_alpn = Inr (cn_ssl cn)"
    by (auto simp: connector_new_def and_then_eq_Inr)
  from build_ssl_Inr [OF this] ssl_conf_for_Inr [OF assms(2)] show ?thesis
    by (auto dest: load_system_ca_certs_nonempty split: if_splits option.splits)
qed

definition example_openssl :: openssl where
  "example_openssl = \<lparr>os_setup = None,
     os_ca = \<lparr>env_cert_file = Some ''/ca.pem'', env_cert_dir = None, path_is_file = (\<lambda>p. p = ''/ca.pem''),
       path_is_dir = (\<lambda>_. False), set_ca_file = (\<lambda>_. None), load_ca_dir = (\<lambda>_. None), set_default_paths = None\<rparr>,
     os_ciphers = (\<lambda>_. None), os_min_version = (\<lambda>_. None), os_max_version = (\<lambda>_. None), os_alpn = (\<lambda>_. None),
     os_ssl = None, os_sni = (\<lambda>_. None), os_ip = (\<lambda>_. None), os_host = (\<lambda>_. None), os_stream = None\<rparr>"

lemma connector_identity_witness:
  "\<exists>cn conf. connector_new example_openssl ((config_new ''https://h/'')\<lparr>rc_verify_certs := Some True\<rparr>) = Inr cn \<and>
    ssl_conf_for example_openssl (cn_ssl cn) ''1.2.3.4'' = Inr conf \<and> sc_identity conf = Some (IdIp (IpV4 0x01020304))"
proof -
  let ?c = "(config_new ''https://h/'')\<lparr>rc_verify_certs := Some True\<rparr>"
  have ip: "parse_ip ''1.2.3.4'' = Some (IpV4 0x01020304)" by (simp add: ip_eval)
  have "load_system_ca_certs (os_ca example_openssl) = Inr [CaFile ''/ca.pem'']"
    by (simp add: load_system_ca_certs_def load_ca_files_def load_ca_dirs_def example_openssl_def CA_DIR_PATHS_def)
  then obtain cn where cn: "connector_new example_openssl ?c = Inr cn"
    by (auto simp: connector_new_def build_ssl_def check_def set_version_def config_new_def should_verify_certs_def
        unwrap_or_def example_openssl_def)
  moreover obtain conf where "ssl_conf_for example_openssl (cn_ssl cn) ''1.2.3.4'' = Inr conf"
    by (cases "sb_trust (cn_ssl cn)") (auto simp: ssl_conf_for_def check_setup_def example_openssl_def ip)
  moreover have "should_verify_certs ?c" by (simp add: should_verify_certs_def unwrap_or_def)
  ultimately show ?thesis using connector_identity [OF cn] ip by auto
qed

end
