(* ===== verification/Http_Request.thy ===== *)
theory Http_Request
  imports Content_Coding Cookies Proxy Tls_Setup
begin

unbundle bit_operations_syntax

text \<open>
  Building a request, \<^verbatim>\<open>src/client/hyper.rs\<close>: URL sanitizing, redirect targets, the connection mode,
  the header list with the merge of chain cookies, the retry delay.

  The http crate is a parameter: the record \<open>http_lib\<close> has the URI parser and printer, the header
  value's conversion to text and the request builder's verdict. A panic of the code is the failure
  \<open>Panicked\<close>.

  Lemmas: sanitizing is idempotent and leaves clean URLs alone; the mode follows the proxy rules;
  the caller's headers all go out, with one merged \<open>Cookie\<close> header; the delay is capped, and is zero
  after 32 doublings.
\<close>

section \<open>Failures\<close>

datatype failure = Client client_error | ProxyConnect connect_error | ProxySocks socks_error | Panicked

text \<open>Both proxy handshakes report errors of the connection kind.\<close>

fun failure_kind :: "failure \<Rightarrow> error_kind option" where
  "failure_kind (Client e) = Some (ce_kind e)"
| "failure_kind (ProxyConnect _) = Some Connection"
| "failure_kind (ProxySocks _) = Some Connection"
| "failure_kind Panicked = None"

definition lift_err :: "('e \<Rightarrow> 'f) \<Rightarrow> 'e + 'a \<Rightarrow> 'f + 'a" where
  "lift_err w r = (case r of Inl e \<Rightarrow> Inl (w e) | Inr x \<Rightarrow> Inr x)"

lemma lift_err_simps [simp]: "lift_err w (Inl e) = Inl (w e)" "lift_err w (Inr x) = Inr x"
  by (simp_all add: lift_err_def)

lemma lift_err_eq_Inr [simp]: "lift_err w r = Inr x \<longleftrightarrow> r = Inr x"
  by (cases r) simp_all

section \<open>URLs\<close>

text \<open>\<open>String::push\<close> of the char with code \<open>b\<close>: two UTF-8 bytes from 128 on.\<close>

definition push_latin1 :: "char \<Rightarrow> string" where
  "push_latin1 c = (let b = of_char c :: nat in
     if b < 128 then [c] else [char_of (0xC0 + b div 64), char_of (0x80 + b mod 64)])"

definition must_encode :: "char \<Rightarrow> bool" where
  "must_encode c = (let b = of_char c :: nat in c \<in> set '' <>{}'' \<or> b = 0x22 \<or> b \<le> 0x1F \<or> b = 0x7F)"

definition hex_upper :: "nat \<Rightarrow> char" where
  "hex_upper n = (if n < 10 then char_of (48 + n) else char_of (55 + n))"

definition percent_encode :: "char \<Rightarrow> string" where
  "percent_encode c = (let b = of_char c :: nat in [CHR ''%'', hex_upper (b div 16), hex_upper (b mod 16)])"

definition is_hexdigit :: "char \<Rightarrow> bool" where
  "is_hexdigit c = (let b = of_char c :: nat in
     (48 \<le> b \<and> b \<le> 57) \<or> (65 \<le> b \<and> b \<le> 70) \<or> (97 \<le> b \<and> b \<le> 102))"

definition sanitize_byte :: "char \<Rightarrow> string" where
  "sanitize_byte c = (if must_encode c then percent_encode c else push_latin1 c)"

fun sanitize_uri :: "string \<Rightarrow> string" where
  "sanitize_uri [] = []"
| "sanitize_uri (b # h1 # h2 # r) =
     (if b = CHR ''%'' \<and> is_hexdigit h1 \<and> is_hexdigit h2 then [b, h1, h2] @ sanitize_uri r
      else sanitize_byte b @ sanitize_uri (h1 # h2 # r))"
| "sanitize_uri (b # r) = sanitize_byte b @ sanitize_uri r"

record http_lib =
  l_uri_parse :: "string \<Rightarrow> string + uri"
  l_uri_show :: "uri \<Rightarrow> string"
  l_to_str :: "bytes \<Rightarrow> string option"
  l_request_error :: "string \<Rightarrow> uri \<Rightarrow> header_list \<Rightarrow> string option"

definition is_redirect :: "u16 \<Rightarrow> bool" where
  "is_redirect status \<longleftrightarrow> status \<in> {301, 302, 303, 307, 308}"

text \<open>The location appended to the origin of the current URL.\<close>

definition relative_redirect :: "http_lib \<Rightarrow> uri \<Rightarrow> string \<Rightarrow> string \<Rightarrow> client_error + uri" where
  "relative_redirect lib current location sanitized =
     and_then (ok_or (u_authority current)
       (err_invalid_url (''no authority in current URL to resolve relative redirect: '' @ location))) (\<lambda>authority.
     let absolute = unwrap_or (u_scheme current) ''https'' @ ''://'' @ authority @ sanitized in
     lift_err (\<lambda>e. err_invalid_url (''invalid redirect URL '' @ [CHR 0x27] @ absolute @ [CHR 0x27] @ '': '' @ e))
       (l_uri_parse lib absolute))"

definition resolve_redirect :: "http_lib \<Rightarrow> uri \<Rightarrow> string \<Rightarrow> client_error + uri" where
  "resolve_redirect lib current location =
     (let sanitized = sanitize_uri location in
      case l_uri_parse lib sanitized of
        Inr u \<Rightarrow> if u_scheme u \<noteq> None then Inr u else relative_redirect lib current location sanitized
      | Inl _ \<Rightarrow> relative_redirect lib current location sanitized)"

section \<open>Retry delays\<close>

text \<open>\<open>Duration\<close> in nanoseconds, up to \<open>u64::MAX\<close> seconds.\<close>

definition DURATION_MAX :: nat where
  "DURATION_MAX = (2 ^ 64 - 1) * 10 ^ 9 + 999999999"

definition saturating_pow2 :: "u32 \<Rightarrow> nat" where
  "saturating_pow2 e = (if unat e < 64 then 2 ^ unat e else 2 ^ 64 - 1)"

definition retry_backoff :: "u32 \<Rightarrow> nat \<Rightarrow> nat \<Rightarrow> nat" where
  "retry_backoff attempt min_wait max_wait =
     (let factor = saturating_pow2 attempt;
          backoff = min (min_wait * (factor mod 2 ^ 32)) DURATION_MAX in
      min backoff max_wait)"

section \<open>Connection modes\<close>

record tls_key =
  tk_verify_certs :: bool
  tk_cipher_string :: "string option"
  tk_min_tls_version :: "string option"
  tk_max_tls_version :: "string option"
  tk_alpn_protocols :: "string list option"

definition tls_key_of :: "request_config \<Rightarrow> tls_key" where
  "tls_key_of config = \<lparr>tk_verify_certs = should_verify_certs config,
     tk_cipher_string = rc_cipher_string config, tk_min_tls_version = rc_min_tls_version config,
     tk_max_tls_version = rc_max_tls_version config, tk_alpn_protocols = rc_alpn_protocols config\<rparr>"

datatype conn_mode = Direct tls_key | ForwardProxy string | Tunnel string tls_key | Socks5 string tls_key

definition conn_mode_for :: "http_lib \<Rightarrow> request_config \<Rightarrow> uri \<Rightarrow> client_error + conn_mode" where
  "conn_mode_for lib config target =
     (let tls = tls_key_of config in
      case effective_proxy config (unwrap_or (u_host target) []) of
        None \<Rightarrow> Inr (Direct tls)
      | Some proxy_url \<Rightarrow>
          and_then (lift_err (\<lambda>e. err_invalid_url (''invalid proxy URL: '' @ e)) (l_uri_parse lib proxy_url))
            (\<lambda>proxy_uri.
          let proxy_scheme = unwrap_or (u_scheme proxy_uri) [] in
          if proxy_scheme = ''http'' \<or> proxy_scheme = ''https'' then
            (if u_scheme target = Some ''https'' then Inr (Tunnel proxy_url tls)
             else Inr (ForwardProxy proxy_url))
          else if proxy_scheme = ''socks5'' \<or> proxy_scheme = ''socks5h'' then Inr (Socks5 proxy_url tls)
          else Inl (err_other (''unsupported proxy scheme '' @ [CHR 0x27] @ proxy_scheme @ [CHR 0x27] @
            '' (use http, https, socks5)''))))"

section \<open>The request\<close>

record http_request =
  hq_method :: string
  hq_uri :: uri
  hq_headers :: header_list
  hq_body :: bytes

definition origin_form_uri :: "http_lib \<Rightarrow> uri \<Rightarrow> failure + uri" where
  "origin_form_uri lib u =
     (case u_query u of
        Some q \<Rightarrow> Inr (case l_uri_parse lib (u_path u @ ''?'' @ q) of Inr v \<Rightarrow> v | Inl _ \<Rightarrow> u)
      | None \<Rightarrow>
          if u_path u = [] then (case l_uri_parse lib ''/'' of Inr v \<Rightarrow> Inr v | Inl _ \<Rightarrow> Inl Panicked)
          else Inr (case l_uri_parse lib (u_path u) of Inr v \<Rightarrow> v | Inl _ \<Rightarrow> u))"

definition has_header :: "header_list \<Rightarrow> string \<Rightarrow> bool" where
  "has_header hs name \<longleftrightarrow> (\<exists>(k, v) \<in> set hs. eq_ignore_ascii_case k name)"

lemma has_header_code [code]: "has_header hs name = list_ex (\<lambda>(k, v). eq_ignore_ascii_case k name) hs"
  by (auto simp: has_header_def list_ex_iff)

definition merge_cookie :: "string \<Rightarrow> string \<Rightarrow> string" where
  "merge_cookie value extra =
     (let caller = trim_end_matches (\<lambda>c. c \<in> {CHR '';'', CHR '' ''}) (trim value) in
      if caller = [] then extra else caller @ ''; '' @ extra)"

text \<open>The caller's headers with the chain's cookies folded into the first \<open>Cookie\<close> header.\<close>

fun emit_headers :: "string option \<Rightarrow> bool \<Rightarrow> header_list \<Rightarrow> header_list \<times> bool" where
  "emit_headers redirect_cookies merged [] = ([], merged)"
| "emit_headers redirect_cookies merged ((name, value) # hs) =
     (case (redirect_cookies, \<not> merged \<and> eq_ignore_ascii_case name ''cookie'') of
        (Some extra, True) \<Rightarrow>
          (let (out, m) = emit_headers redirect_cookies True hs in ((name, merge_cookie value extra) # out, m))
      | _ \<Rightarrow> (let (out, m) = emit_headers redirect_cookies merged hs in ((name, value) # out, m)))"

definition request_headers :: "uri \<Rightarrow> request_config \<Rightarrow> bool \<Rightarrow> string option \<Rightarrow> header_list" where
  "request_headers u config manual_host_header redirect_cookies =
     (let custom = unwrap_or (rc_headers config) [];
          (emitted, merged_cookies) = emit_headers redirect_cookies False custom in
      (if manual_host_header \<and> \<not> has_header custom ''host''
       then (case u_authority u of Some a \<Rightarrow> [(''Host'', a)] | None \<Rightarrow> []) else []) @
      (if \<not> has_header custom ''user-agent'' then [(''User-Agent'', ''blasthttp/0.1.0'')] else []) @
      (if \<not> has_header custom ''accept-encoding'' then [(''Accept-Encoding'', ''gzip, deflate, br'')] else []) @
      emitted @
      (case redirect_cookies of
         Some extra \<Rightarrow> if \<not> merged_cookies then [(''Cookie'', extra)] else []
       | None \<Rightarrow> []))"

definition build_request ::
  "http_lib \<Rightarrow> uri \<Rightarrow> request_config \<Rightarrow> bool \<Rightarrow> bool \<Rightarrow> string option \<Rightarrow> failure + http_request" where
  "build_request lib u config origin_form manual_host_header redirect_cookies =
     and_then (if origin_form then origin_form_uri lib u else Inr u) (\<lambda>effective_uri.
     let hs = request_headers u config manual_host_header redirect_cookies in
     case l_request_error lib (config_method config) effective_uri hs of
       Some e \<Rightarrow> Inl (Client (err_other (''failed to build request: '' @ e)))
     | None \<Rightarrow> Inr \<lparr>hq_method = config_method config, hq_uri = effective_uri, hq_headers = hs,
                    hq_body = unwrap_or (rc_body config) []\<rparr>)"

section \<open>Sanitizing\<close>

lemma not_must_encode_hex: "is_hexdigit c \<Longrightarrow> \<not> must_encode c"
  by (auto simp: is_hexdigit_def must_encode_def Let_def)

lemma of_char_hex_upper: "n < 16 \<Longrightarrow> (of_char (hex_upper n) :: nat) = (if n < 10 then 48 + n else 55 + n)"
  by (simp add: hex_upper_def)

lemma must_encode_codes:
  "must_encode c \<longleftrightarrow> (of_char c :: nat) \<in> {0x20, 0x3C, 0x3E, 0x7B, 0x7D, 0x22, 0x7F} \<or> (of_char c :: nat) \<le> 0x1F"
proof -
  have "c \<in> set '' <>{}'' \<longleftrightarrow> (of_char c :: nat) \<in> of_char ` set '' <>{}''"
    by (simp only: inj_image_mem_iff [OF inj_of_char])
  then show ?thesis by (auto simp: must_encode_def Let_def)
qed

lemma not_must_encode_hex_upper: "n < 16 \<Longrightarrow> \<not> must_encode (hex_upper n)"
  by (simp add: must_encode_codes of_char_hex_upper)

lemma of_char_less: "(of_char c :: nat) < 256"
  using rangeI [of "of_char :: char \<Rightarrow> nat" c] unfolding range_nat_of_char by simp

lemma sanitize_byte_clean: "c \<in> set (sanitize_byte b) \<Longrightarrow> \<not> must_encode c"
proof -
  have b: "(of_char b :: nat) < 256" by (rule of_char_less)
  then have "(of_char b :: nat) div 16 < 16" by (simp add: less_mult_imp_div_less)
  then have "\<not> must_encode (hex_upper (of_char b div 16))" "\<not> must_encode (hex_upper (of_char b mod 16))"
    by (simp_all add: not_must_encode_hex_upper)
  moreover have "\<not> must_encode (CHR ''%'')" by (simp add: must_encode_codes)
  moreover have "(of_char b :: nat) div 64 < 4" using b by (simp add: less_mult_imp_div_less)
  then have "\<not> must_encode (char_of (0xC0 + (of_char b :: nat) div 64))" by (simp add: must_encode_codes)
  moreover have "(of_char b :: nat) mod 64 < 64" by simp
  then have "\<not> must_encode (char_of (0x80 + (of_char b :: nat) mod 64))" by (simp add: must_encode_codes)
  ultimately show "c \<in> set (sanitize_byte b) \<Longrightarrow> \<not> must_encode c"
    by (auto simp: sanitize_byte_def percent_encode_def push_latin1_def Let_def split: if_splits)
qed

lemma sanitize_uri_clean: "c \<in> set (sanitize_uri s) \<Longrightarrow> \<not> must_encode c"
  by (induction s rule: sanitize_uri.induct)
     (auto simp: must_encode_codes [of "CHR ''%''"] dest: not_must_encode_hex sanitize_byte_clean split: if_splits)

lemma sanitize_byte_id: "\<not> must_encode c \<Longrightarrow> ascii c \<Longrightarrow> sanitize_byte c = [c]"
  by (simp add: sanitize_byte_def push_latin1_def ascii_def Let_def)

lemma sanitize_uri_id: "(\<And>c. c \<in> set s \<Longrightarrow> \<not> must_encode c \<and> ascii c) \<Longrightarrow> sanitize_uri s = s"
  by (induction s rule: sanitize_uri.induct) (simp_all add: sanitize_byte_id)

lemma sanitize_byte_ascii: "ascii b \<Longrightarrow> c \<in> set (sanitize_byte b) \<Longrightarrow> ascii c"
proof -
  assume b: "ascii b" and c: "c \<in> set (sanitize_byte b)"
  have "(of_char b :: nat) < 256" by (rule of_char_less)
  then have "(of_char b :: nat) div 16 < 16" by (simp add: less_mult_imp_div_less)
  moreover have "(of_char b :: nat) mod 16 < 16" by simp
  ultimately have "ascii (hex_upper (of_char b div 16))" "ascii (hex_upper (of_char b mod 16))"
    by (simp_all add: ascii_def of_char_hex_upper del: mod_less_divisor)
  moreover have "ascii (CHR ''%'')" by (simp add: ascii_def)
  ultimately show ?thesis using b c
    by (auto simp: sanitize_byte_def percent_encode_def push_latin1_def ascii_def Let_def split: if_splits)
qed

lemma sanitize_uri_ascii: "\<forall>c \<in> set s. ascii c \<Longrightarrow> \<forall>c \<in> set (sanitize_uri s). ascii c"
  by (induction s rule: sanitize_uri.induct) (auto dest: sanitize_byte_ascii split: if_splits)

section \<open>Headers of a request\<close>

definition default_headers :: "uri \<Rightarrow> header_list \<Rightarrow> bool \<Rightarrow> header_list" where
  "default_headers u custom manual =
     (if manual \<and> \<not> has_header custom ''host'' then map (Pair ''Host'') (case u_authority u of Some a \<Rightarrow> [a] | None \<Rightarrow> []) else []) @
     (if has_header custom ''user-agent'' then [] else [(''User-Agent'', ''blasthttp/0.1.0'')]) @
     (if has_header custom ''accept-encoding'' then [] else [(''Accept-Encoding'', ''gzip, deflate, br'')])"

lemma emit_headers_plain:
  "rc = None \<or> m \<or> \<not> has_header hs ''cookie'' \<Longrightarrow> emit_headers rc m hs = (hs, m)"
  by (induction hs) (auto simp: has_header_def split: option.split)

lemma emit_headers_merge:
  "\<not> has_header a ''cookie'' \<Longrightarrow> eq_ignore_ascii_case n ''cookie'' \<Longrightarrow>
     emit_headers (Some e) False (a @ (n, v) # b) = (a @ (n, merge_cookie v e) # b, True)"
  by (induction a) (auto simp: has_header_def emit_headers_plain)

lemma request_headers_eq:
  "request_headers u config manual rc = default_headers u (unwrap_or (rc_headers config) []) manual @
     (case emit_headers rc False (unwrap_or (rc_headers config) []) of (out, merged) \<Rightarrow>
        out @ (case rc of Some e \<Rightarrow> if merged then [] else [(''Cookie'', e)] | None \<Rightarrow> []))"
  by (simp add: request_headers_def default_headers_def Let_def split: option.split prod.split)

section \<open>Properties\<close>

text \<open>
  A sanitized URL has no byte the URI parser rejects (space, quote, angle bracket, brace,
  control character). On ASCII input sanitizing is idempotent and changes exactly the URLs that
  have such a byte; escapes already present stay as they are.
\<close>

theorem sanitize_uri_stable:
  "(\<forall>c \<in> set (sanitize_uri s). \<not> must_encode c) \<and>
   ((\<forall>c \<in> set s. ascii c) \<longrightarrow> sanitize_uri (sanitize_uri s) = sanitize_uri s \<and>
     (sanitize_uri s = s \<longleftrightarrow> (\<forall>c \<in> set s. \<not> must_encode c)))"
  using sanitize_uri_clean sanitize_uri_id [of s] sanitize_uri_id [of "sanitize_uri s"] sanitize_uri_ascii [of s]
  by (metis)

lemma sanitize_uri_stable_witness: "sanitize_uri ''/a b%20c'' = ''/a%20b%20c'' \<and> sanitize_uri ''/a%20b%20c'' = ''/a%20b%20c''"
proof -
  have "sanitize_uri ''/a b%20c'' = ''/a%20b%20c''" by code_simp
  moreover have "\<forall>c \<in> set ''/a b%20c''. ascii c" by (simp add: ascii_def)
  ultimately show ?thesis using sanitize_uri_stable [of "''/a b%20c''"] by metis
qed

text \<open>Bytes of a multi-byte character are re-encoded one by one: the URL that goes out is another one.\<close>

lemma sanitize_non_ascii: "sanitize_uri [CHR 0xC3, CHR 0xA9] = [CHR 0xC3, CHR 0x83, CHR 0xC2, CHR 0xA9]"
  by code_simp

text \<open>
  The connection mode is the proxy decision for the target at hand. A request goes direct
  exactly when no proxy is set or a \<open>no_proxy\<close> entry covers its host; with an HTTP proxy, HTTPS
  targets are tunneled and only other targets are forwarded; every mode that speaks TLS to the
  target carries the TLS settings of the configuration.
\<close>

theorem conn_mode_proxy_decision:
  assumes "conn_mode_for lib config u = Inr mode"
  shows "(effective_proxy config (unwrap_or (u_host u) []) = None \<longleftrightarrow> mode = Direct (tls_key_of config)) \<and>
    (\<forall>p. effective_proxy config (unwrap_or (u_host u) []) = Some p \<longrightarrow>
      mode = (if l_uri_parse lib p \<in> Inr ` {v. u_scheme v \<in> {Some ''http'', Some ''https''}}
        then if u_scheme u = Some ''https'' then Tunnel p (tls_key_of config) else ForwardProxy p
        else Socks5 p (tls_key_of config)))"
proof (cases "effective_proxy config (unwrap_or (u_host u) [])")
  case None
  then show ?thesis using assms by (simp add: conn_mode_for_def)
next
  case (Some p)
  then obtain v where v: "l_uri_parse lib p = Inr v"
    using assms by (cases "l_uri_parse lib p") (simp_all add: conn_mode_for_def)
  then have "l_uri_parse lib p \<in> Inr ` {v. u_scheme v \<in> {Some ''http'', Some ''https''}} \<longleftrightarrow>
    u_scheme v = Some ''http'' \<or> u_scheme v = Some ''https''" by auto
  then show ?thesis using assms Some v
    by (cases "u_scheme v") (auto simp: conn_mode_for_def Let_def unwrap_or_def split: if_splits)
qed

definition example_lib :: http_lib where
  "example_lib = \<lparr>l_uri_parse = (\<lambda>s. Inr \<lparr>u_scheme = Some ''http'', u_authority = Some ''h'', u_host = Some ''h'',
      u_port = None, u_path = s, u_query = None\<rparr>), l_uri_show = u_path, l_to_str = (\<lambda>b. Some (bytes_str b)),
    l_request_error = (\<lambda>_ _ _. None)\<rparr>"

lemma conn_mode_proxy_decision_witness:
  "conn_mode_for example_lib ((config_new ''u'')\<lparr>rc_proxy := Some ''http://p:1''\<rparr>)
     \<lparr>u_scheme = Some ''https'', u_authority = Some ''h'', u_host = Some ''h'', u_port = None, u_path = ''/'', u_query = None\<rparr> =
   Inr (Tunnel ''http://p:1'' (tls_key_of (config_new ''u'')))"
proof -
  let ?c = "(config_new ''u'')\<lparr>rc_proxy := Some ''http://p:1''\<rparr>"
  let ?u = "\<lparr>u_scheme = Some ''https'', u_authority = Some ''h'', u_host = Some ''h'', u_port = None, u_path = ''/'', u_query = None\<rparr>"
  have p: "effective_proxy ?c ''h'' = Some ''http://p:1''"
    by (simp add: effective_proxy_def config_new_def host_bypasses_proxy_def)
  obtain m where m: "conn_mode_for example_lib ?c ?u = Inr m"
    by (simp add: conn_mode_for_def p unwrap_or_def example_lib_def)
  moreover have "tls_key_of ?c = tls_key_of (config_new ''u'')" by (simp add: tls_key_of_def should_verify_certs_def)
  moreover have "l_uri_parse example_lib ''http://p:1'' \<in> Inr ` {v. u_scheme v \<in> {Some ''http'', Some ''https''}}"
    by (simp add: example_lib_def)
  ultimately show ?thesis using conn_mode_proxy_decision [OF m] p by (simp add: unwrap_or_def)
qed

text \<open>
  C33: The header list of a request is the defaults the caller did not set, then the caller's
  headers in order. The cookies of the redirect chain go into the caller's first \<open>Cookie\<close> header,
  behind its own value, or into one of their own when there is none; without chain cookies nothing
  of the caller changes.
\<close>

theorem request_headers_exact:
  "request_headers u config manual None = default_headers u (unwrap_or (rc_headers config) []) manual @ unwrap_or (rc_headers config) [] \<and>
   (\<forall>a n v b. unwrap_or (rc_headers config) [] = a @ (n, v) # b \<and> \<not> has_header a ''cookie'' \<and>
      eq_ignore_ascii_case n ''cookie'' \<longrightarrow>
      request_headers u config manual (Some e) = default_headers u (unwrap_or (rc_headers config) []) manual @
        a @ (n, merge_cookie v e) # b) \<and>
   (\<not> has_header (unwrap_or (rc_headers config) []) ''cookie'' \<longrightarrow>
      request_headers u config manual (Some e) = default_headers u (unwrap_or (rc_headers config) []) manual @
        unwrap_or (rc_headers config) [] @ [(''Cookie'', e)])"
  by (auto simp: request_headers_eq emit_headers_plain emit_headers_merge)

lemma request_headers_exact_witness:
  "request_headers example_uri ((config_new ''u'')\<lparr>rc_headers := Some [(''A'', ''1''), (''cookie'', ''x=1; '')]\<rparr>) False (Some ''y=2'') =
   [(''User-Agent'', ''blasthttp/0.1.0''), (''Accept-Encoding'', ''gzip, deflate, br''), (''A'', ''1''), (''cookie'', ''x=1; y=2'')]"
proof -
  let ?c = "(config_new ''u'')\<lparr>rc_headers := Some [(''A'', ''1''), (''cookie'', ''x=1; '')]\<rparr>"
  have c: "unwrap_or (rc_headers ?c) [] = [(''A'', ''1'')] @ (''cookie'', ''x=1; '') # []" by (simp add: unwrap_or_def)
  have m: "merge_cookie ''x=1; '' ''y=2'' = ''x=1; y=2''" by code_simp
  have "\<not> has_header [(''A'', ''1'')] ''cookie''" "eq_ignore_ascii_case ''cookie'' ''cookie''"
    "default_headers example_uri ([(''A'', ''1'')] @ (''cookie'', ''x=1; '') # []) False =
      [(''User-Agent'', ''blasthttp/0.1.0''), (''Accept-Encoding'', ''gzip, deflate, br'')]"
    by (simp_all add: has_header_def default_headers_def eq_ignore_ascii_case_def to_ascii_lowercase_def to_lower_def)
  moreover note request_headers_exact [of example_uri ?c False "''y=2''", unfolded c, THEN conjunct2, THEN conjunct1, rule_format,
    of "[(''A'', ''1'')]" "''cookie''" "''x=1; ''" "[]"]
  ultimately show ?thesis using m by simp
qed

text \<open>
  The delay before a retry never exceeds the configured maximum, and doubles up to it for the
  first 32 attempts. From the 33rd to the 64th it is zero: the factor is cut to 32 bits.
\<close>

theorem retry_backoff_bounds:
  "retry_backoff attempt mn mx \<le> mx \<and>
   (attempt < 32 \<longrightarrow> retry_backoff attempt mn mx = min (min (mn * 2 ^ unat attempt) DURATION_MAX) mx) \<and>
   (32 \<le> attempt \<and> attempt < 64 \<longrightarrow> retry_backoff attempt mn mx = 0)"
proof (intro conjI impI)
  show "retry_backoff attempt mn mx \<le> mx" by (simp add: retry_backoff_def Let_def)
next
  assume "attempt < 32"
  then have a: "unat attempt < 32" by (simp add: word_less_nat_alt)
  then have "(2 :: nat) ^ unat attempt < 2 ^ 32" by (rule power_strict_increasing) simp
  then have "(2 :: nat) ^ unat attempt mod 2 ^ 32 = 2 ^ unat attempt" by (rule mod_less)
  then show "retry_backoff attempt mn mx = min (min (mn * 2 ^ unat attempt) DURATION_MAX) mx"
    using a by (simp only: retry_backoff_def saturating_pow2_def Let_def) simp
next
  assume "32 \<le> attempt \<and> attempt < 64"
  then have a: "32 \<le> unat attempt" "unat attempt < 64" by (simp_all add: word_less_nat_alt word_le_nat_alt)
  then have "(2 :: nat) ^ 32 dvd 2 ^ unat attempt" by (intro le_imp_power_dvd)
  then have "(2 :: nat) ^ unat attempt mod 2 ^ 32 = 0" by (rule dvd_imp_mod_0)
  then show "retry_backoff attempt mn mx = 0"
    using a by (simp only: retry_backoff_def saturating_pow2_def Let_def) simp
qed

lemma retry_backoff_bounds_witness: "retry_backoff 3 1000 60000 = 8000 \<and> retry_backoff 40 1000 60000 = 0"
  using retry_backoff_bounds [of 3 1000 60000] retry_backoff_bounds [of 40 1000 60000]
  by (simp add: DURATION_MAX_def)

text \<open>
  What is relied on of the URI parser: a text that starts with a slash is a path, and behind a
  scheme and an authority a path leaves both as they are.
\<close>

definition uri_parser_ok :: "http_lib \<Rightarrow> bool" where
  "uri_parser_ok lib \<longleftrightarrow>
     (\<forall>p u. l_uri_parse lib (CHR ''/'' # p) = Inr u \<longrightarrow> u_scheme u = None) \<and>
     (\<forall>s a p u. CHR ''/'' \<notin> set s \<and> CHR ''/'' \<notin> set a \<and> l_uri_parse lib (s @ ''://'' @ a @ CHR ''/'' # p) = Inr u \<longrightarrow>
        u_scheme u = Some s \<and> u_authority u = Some a)"

lemma sanitize_uri_slash: "sanitize_uri (CHR ''/'' # p) = CHR ''/'' # sanitize_uri p"
  by (cases p; cases "tl p") (simp_all add: sanitize_byte_def must_encode_codes push_latin1_def)

text \<open>
  A redirect to a path stays on its origin: for a \<open>Location\<close> that starts with a slash, also with
  two, the next hop has the scheme and the authority of the current one.
\<close>

theorem path_redirect_same_origin:
  assumes "uri_parser_ok lib" "resolve_redirect lib current (CHR ''/'' # p) = Inr u"
    "u_scheme current = Some s" "u_authority current = Some a" "CHR ''/'' \<notin> set s" "CHR ''/'' \<notin> set a"
  shows "u_scheme u = u_scheme current \<and> u_authority u = u_authority current"
proof -
  have "v = u" if "l_uri_parse lib (sanitize_uri (CHR ''/'' # p)) = Inr v" "u_scheme v \<noteq> None" for v
    using assms(1) that by (auto simp: uri_parser_ok_def sanitize_uri_slash)
  then have "relative_redirect lib current (CHR ''/'' # p) (CHR ''/'' # sanitize_uri p) = Inr u"
    using assms(1,2) by (auto simp: resolve_redirect_def Let_def sanitize_uri_slash uri_parser_ok_def split: sum.splits if_splits)
  then have "l_uri_parse lib (s @ ''://'' @ a @ CHR ''/'' # sanitize_uri p) = Inr u"
    using assms(3,4) by (simp add: relative_redirect_def unwrap_or_def)
  then show ?thesis using assms(1,3-6) unfolding uri_parser_ok_def by metis
qed

text \<open>A parser of paths and absolute URLs, for the examples.\<close>

definition example_parse :: "string \<Rightarrow> string + uri" where
  "example_parse s =
     (if s \<noteq> [] \<and> hd s = CHR ''/'' then Inr \<lparr>u_scheme = None, u_authority = None, u_host = None, u_port = None,
        u_path = s, u_query = None\<rparr>
      else case split_scheme s of
        None \<Rightarrow> Inl ''relative''
      | Some (sch, r) \<Rightarrow> (let a = takeWhile (\<lambda>c. c \<noteq> CHR ''/'') r in
          Inr \<lparr>u_scheme = Some sch, u_authority = Some a, u_host = Some a, u_port = None,
            u_path = drop (length a) r, u_query = None\<rparr>))"

definition example_uris :: http_lib where
  "example_uris = example_lib\<lparr>l_uri_parse := example_parse\<rparr>"

lemma split_scheme_no_slash: "CHR ''/'' \<notin> set s \<Longrightarrow> split_scheme (s @ ''://'' @ r) = Some (s, r)"
proof (induction s)
  case (Cons a s)
  then show ?case by (cases s; cases "tl s") auto
qed simp

lemma example_uris_ok: "uri_parser_ok example_uris"
proof -
  have "u_scheme u = Some s \<and> u_authority u = Some a"
    if "CHR ''/'' \<notin> set s" "CHR ''/'' \<notin> set a" "example_parse (s @ ''://'' @ a @ CHR ''/'' # p) = Inr u" for s a p u
  proof -
    have "s @ ''://'' @ a @ CHR ''/'' # p \<noteq> []" "hd (s @ ''://'' @ a @ CHR ''/'' # p) \<noteq> CHR ''/''"
      using that(1) by (cases s; auto)+
    moreover have "takeWhile (\<lambda>c. c \<noteq> CHR ''/'') (a @ CHR ''/'' # p) = a"
      using that(2) by (subst takeWhile_append2) auto
    ultimately show ?thesis
      using that(3) split_scheme_no_slash [OF that(1), of "a @ CHR ''/'' # p"]
      by (auto simp: example_parse_def Let_def)
  qed
  moreover have "\<forall>p u. example_parse (CHR ''/'' # p) = Inr u \<longrightarrow> u_scheme u = None"
    by (auto simp: example_parse_def)
  ultimately show ?thesis unfolding uri_parser_ok_def example_uris_def by (simp, blast)
qed

lemma path_redirect_same_origin_witness:
  "\<exists>u. resolve_redirect example_uris \<lparr>u_scheme = Some ''http'', u_authority = Some ''a.b'', u_host = Some ''a.b'',
      u_port = None, u_path = ''/x'', u_query = None\<rparr> ''//c.d/y'' = Inr u \<and> u_authority u = Some ''a.b''"
proof -
  let ?c = "\<lparr>u_scheme = Some ''http'', u_authority = Some ''a.b'', u_host = Some ''a.b'',
      u_port = None, u_path = ''/x'', u_query = None\<rparr>"
  have "sanitize_uri ''//c.d/y'' = ''//c.d/y''" by code_simp
  then obtain u where "resolve_redirect example_uris ?c ''//c.d/y'' = Inr u"
    by (simp add: resolve_redirect_def example_uris_def example_parse_def relative_redirect_def unwrap_or_def Let_def del: sanitize_uri.simps)
  moreover from path_redirect_same_origin [OF example_uris_ok this] have "u_authority u = Some ''a.b''" by simp
  ultimately show ?thesis by blast
qed

text \<open>
  A relative location without a leading slash is glued to the authority: the redirect goes to
  another host, not to a sibling of the current path.
\<close>

lemma relative_location_changes_host:
  "resolve_redirect example_uris \<lparr>u_scheme = Some ''https'', u_authority = Some ''example.com'', u_host = Some ''example.com'',
      u_port = None, u_path = ''/x'', u_query = None\<rparr> ''login'' =
   Inr \<lparr>u_scheme = Some ''https'', u_authority = Some ''example.comlogin'', u_host = Some ''example.comlogin'',
      u_port = None, u_path = [], u_query = None\<rparr>"
proof -
  have "sanitize_uri ''login'' = ''login''" by code_simp
  then show ?thesis
    by (simp add: resolve_redirect_def example_uris_def example_parse_def relative_redirect_def unwrap_or_def Let_def del: sanitize_uri.simps)
qed

end
