(* ===== verification/Http_Client.thy ===== *)
theory Http_Client
  imports Http_Request
begin

unbundle bit_operations_syntax

text \<open>
  The client, \<^verbatim>\<open>src/client/hyper.rs\<close>: the cache of pooled clients, the three ways a request is
  dispatched, the redirect loop with its cookies and the retry loop.

  The world beyond the code (hyper's pool and senders, sockets, the clock) is the record \<open>net\<close> of
  functions on an abstract state \<open>'w\<close>. A tokio timeout is \<open>n_late\<close>, which compares the world before
  and after the awaited call; a call that is cut leaves the state it would have left. Debug messages
  are not modelled, \<open>rs_debug_log\<close> stays empty; the poisoning of locks is left out.
\<close>

section \<open>The environment\<close>

record env =
  e_http :: http_lib
  e_openssl :: openssl
  e_decoders :: decoders
  e_psl :: "string \<Rightarrow> string option"

text \<open>A fresh connection that the pool asked of its connector: the URI, TCP and TLS outcomes.\<close>

type_synonym connect_event = "uri \<times> (string + string option) \<times> (ssl_conf \<Rightarrow> handshake)"

record 'w net =
  n_pool :: "conn_mode \<Rightarrow> connector \<Rightarrow> http_request \<Rightarrow> 'w \<Rightarrow> ((string + wire_response) \<times> connect_event list) \<times> 'w"
  n_tcp :: "string \<Rightarrow> 'w \<Rightarrow> (string + string option \<times> tcp) \<times> 'w"
  n_tls :: "ssl_conf \<Rightarrow> tcp \<Rightarrow> 'w \<Rightarrow> handshake \<times> 'w"
  n_pass :: "'w \<Rightarrow> 'w"
  n_handshake :: "bool \<Rightarrow> 'w \<Rightarrow> string option \<times> 'w"
  n_send :: "bool \<Rightarrow> http_request \<Rightarrow> 'w \<Rightarrow> (string + wire_response) \<times> 'w"
  n_sleep :: "nat \<Rightarrow> 'w \<Rightarrow> 'w"
  n_late :: "u64 \<Rightarrow> 'w \<Rightarrow> 'w \<Rightarrow> bool"
  n_elapsed_ms :: "'w \<Rightarrow> u64"
  n_now :: "'w \<Rightarrow> int"

section \<open>The cache of pooled clients\<close>

record cached_client =
  cc_connector :: connector
  cc_slots :: slots

type_synonym client_cache = "conn_mode \<rightharpoonup> cached_client"

definition get_or_build :: "env \<Rightarrow> request_config \<Rightarrow> conn_mode \<Rightarrow> client_cache \<Rightarrow> failure + cached_client \<times> client_cache" where
  "get_or_build env config mode cache =
     (case cache mode of
        Some cached \<Rightarrow> Inr (cached, cache)
      | None \<Rightarrow>
          and_then (lift_err Client (connector_new (e_openssl env) config)) (\<lambda>connector.
          and_then (case mode of
              Direct _ \<Rightarrow> Inr ()
            | ForwardProxy _ \<Rightarrow> Inl Panicked
            | Tunnel proxy_url _ \<Rightarrow> lift_err (\<lambda>e. Client (err_invalid_url (''invalid proxy URL: '' @ e)))
                (map_sum id (\<lambda>_. ()) (l_uri_parse (e_http env) proxy_url))
            | Socks5 proxy_url _ \<Rightarrow> lift_err (\<lambda>e. Client (err_invalid_url (''invalid proxy URL: '' @ e)))
                (map_sum id (\<lambda>_. ()) (l_uri_parse (e_http env) proxy_url))) (\<lambda>_.
          let cached = \<lparr>cc_connector = connector, cc_slots = \<lparr>sl_cert = None, sl_peers = Map.empty\<rparr>\<rparr> in
          Inr (cached, cache(mode \<mapsto> cached)))))"

section \<open>Dispatch\<close>

definition contains_text :: "string \<Rightarrow> string \<Rightarrow> bool" where
  "contains_text needle hay \<longleftrightarrow> (\<exists>n \<le> length hay. take (length needle) (drop n hay) = needle)"

definition send_error :: "string \<Rightarrow> string \<Rightarrow> failure" where
  "send_error what e =
     (let msg = what @ '' failed: '' @ e; err_str = to_ascii_lowercase e in
      if contains_text ''ssl'' err_str \<or> contains_text ''tls'' err_str \<or> contains_text ''certificate'' err_str
      then Client (err_tls msg) else Client (err_connection msg))"

definition respond :: "env \<Rightarrow> request_config \<Rightarrow> (string \<Rightarrow> failure) \<Rightarrow> string + wire_response \<Rightarrow> failure + single_response" where
  "respond env config wrap r =
     and_then (lift_err wrap r) (\<lambda>wire.
     lift_err Client (parse_response (e_decoders env) (l_to_str (e_http env)) config wire))"

fun record_events :: "openssl \<Rightarrow> connector \<Rightarrow> connect_event list \<Rightarrow> slots \<Rightarrow> slots" where
  "record_events os cn [] s = s"
| "record_events os cn ((u, tcp, tls) # es) s = record_events os cn es (snd (connector_call os cn u tcp tls s))"

definition dispatch_request ::
  "env \<Rightarrow> 'w net \<Rightarrow> conn_mode \<Rightarrow> cached_client \<Rightarrow> uri \<Rightarrow> request_config \<Rightarrow> string option \<Rightarrow> client_cache \<Rightarrow> 'w
    \<Rightarrow> (failure + single_response) \<times> client_cache \<times> 'w" where
  "dispatch_request env net mode cached u config redirect_cookies cache w =
     (case build_request (e_http env) u config False False redirect_cookies of
        Inl e \<Rightarrow> (Inl e, cache, w)
      | Inr request \<Rightarrow>
          (case n_pool net mode (cc_connector cached) request w of ((r, events), w') \<Rightarrow>
             (respond env config (send_error ''request'') r,
              cache(mode \<mapsto> cached\<lparr>cc_slots := record_events (e_openssl env) (cc_connector cached) events (cc_slots cached)\<rparr>),
              w')))"

definition dispatch_forward_proxy ::
  "env \<Rightarrow> 'w net \<Rightarrow> string \<Rightarrow> uri \<Rightarrow> request_config \<Rightarrow> string option \<Rightarrow> 'w \<Rightarrow> (failure + single_response) \<times> 'w" where
  "dispatch_forward_proxy env net proxy_url target config redirect_cookies w =
     (case l_uri_parse (e_http env) proxy_url of
        Inl e \<Rightarrow> (Inl (Client (err_invalid_url (''invalid proxy URL: '' @ e))), w)
      | Inr proxy_uri \<Rightarrow>
     (case u_host proxy_uri of
        None \<Rightarrow> (Inl (Client (err_other ''proxy URL has no host'')), w)
      | Some proxy_host \<Rightarrow>
     (let proxy_addr = proxy_host @ '':'' @ show_nat (unat (unwrap_or (u_port proxy_uri) 8080)) in
      case n_tcp net proxy_addr w of
        (Inl e, w) \<Rightarrow> (Inl (Client (err_connection (''failed to connect to proxy '' @ proxy_addr @ '': '' @ e))), w)
      | (Inr _, w) \<Rightarrow>
     (case n_handshake net False w of
        (Some e, w) \<Rightarrow> (Inl (Client (err_connection (''proxy handshake failed: '' @ e))), w)
      | (None, w) \<Rightarrow>
     (case build_request (e_http env) target config False True redirect_cookies of
        Inl e \<Rightarrow> (Inl e, w)
      | Inr request \<Rightarrow>
     (case n_send net False request w of (r, w) \<Rightarrow>
        (respond env config (\<lambda>e. Client (err_connection (''forward proxy request failed: '' @ e))) r, w)))))))"

section \<open>A stream to the target\<close>

record opened =
  op_tcp :: tcp
  op_tls :: "ssl_conf option"
  op_cert :: "cert_info option"
  op_alpn :: "string option"
  op_peer_ip :: "string option"

definition target_port :: "uri \<Rightarrow> u16" where
  "target_port u = unwrap_or (u_port u) (if u_scheme u = Some ''https'' then 443 else 80)"

definition setup_error :: "tls_setup_error \<Rightarrow> failure" where
  "setup_error e = Client (err_tls (case e of
       SslNew e \<Rightarrow> ''SSL conf failed: '' @ e | SniSetup e \<Rightarrow> ''SNI setup failed: '' @ e
     | VerifySetup e \<Rightarrow> ''hostname verify setup failed: '' @ e | StreamSetup e \<Rightarrow> ''TLS stream setup failed: '' @ e))"

definition default_direct_alpn :: bytes where
  "default_direct_alpn = 8 # str_bytes ''http/1.1''"

text \<open>The TCP hop: to the proxy, else to the forced address, else to the host.\<close>

definition connect_address :: "proxy_config option \<Rightarrow> request_config \<Rightarrow> string \<Rightarrow> u16 \<Rightarrow> string" where
  "connect_address proxy config host port =
     (case proxy of
        Some p \<Rightarrow> px_host p @ '':'' @ show_nat (unat (px_port p))
      | None \<Rightarrow> unwrap_or (rc_resolve_ip config) host @ '':'' @ show_nat (unat port))"

definition proxy_handshake :: "proxy_config \<Rightarrow> string \<Rightarrow> u16 \<Rightarrow> tcp \<Rightarrow> (failure + unit) \<times> tcp" where
  "proxy_handshake p host port tcp =
     (case px_scheme p of
        ProxyHttp \<Rightarrow> (case perform_http_connect tcp host port of (r, t) \<Rightarrow> (lift_err ProxyConnect r, t))
      | ProxySocks5 \<Rightarrow> (case perform_socks5 tcp host port (px_username p) (px_password p) of
            (r, t) \<Rightarrow> (lift_err ProxySocks r, t)))"

text \<open>The TLS layer over the open socket.\<close>

definition tls_layer ::
  "env \<Rightarrow> 'w net \<Rightarrow> request_config \<Rightarrow> string \<Rightarrow> tcp \<Rightarrow> string option \<Rightarrow> 'w \<Rightarrow> (failure + opened) \<times> 'w" where
  "tls_layer env net config host tcp peer_ip w =
     (case and_then (lift_err Client (build_ssl (e_openssl env) config default_direct_alpn))
             (\<lambda>ssl. lift_err setup_error (ssl_conf_for (e_openssl env) ssl host)) of
        Inl e \<Rightarrow> (Inl e, w)
      | Inr conf \<Rightarrow>
          (case n_tls net conf tcp w of
             (HandshakeTimeout, w) \<Rightarrow> (Inl (Client (err_timeout (''TLS handshake with '' @ host @ '' timed out after '' @
                show_nat (unat (config_timeout config)) @ ''s''))), w)
           | (HandshakeError e, w) \<Rightarrow> (Inl (Client (err_tls (''TLS handshake failed: '' @ e))), w)
           | (HandshakeDone cert alpn, w) \<Rightarrow>
               (Inr \<lparr>op_tcp = tcp, op_tls = Some conf, op_cert = extract_cert_info cert,
                     op_alpn = Option.bind alpn (\<lambda>b. if utf8_valid b then Some (bytes_str b) else None),
                     op_peer_ip = peer_ip\<rparr>, w)))"

definition connect_stream :: "env \<Rightarrow> 'w net \<Rightarrow> uri \<Rightarrow> request_config \<Rightarrow> 'w \<Rightarrow> (failure + opened) \<times> 'w" where
  "connect_stream env net target config w =
     (case validate_proxy config of
        Inl m \<Rightarrow> (Inl (Client (err_other m)), w)
      | Inr _ \<Rightarrow>
     (let host = unwrap_or (u_host target) []; is_https = (u_scheme target = Some ''https'');
          port = target_port target in
      case (case effective_proxy config host of
          Some p \<Rightarrow> map_sum id Some (parse_proxy_url p) | None \<Rightarrow> Inr None) of
        Inl e \<Rightarrow> (Inl (Client e), w)
      | Inr proxy \<Rightarrow>
     (let addr = connect_address proxy config host port in
      case n_tcp net addr w of (r, w1) \<Rightarrow>
      if n_late net (config_timeout config) w w1
      then (Inl (Client (err_timeout (''TCP connect to '' @ addr @ '' timed out after '' @
              show_nat (unat (config_timeout config)) @ ''s''))), w1)
      else (case r of
        Inl e \<Rightarrow> (Inl (Client (err_connection (''failed to connect to '' @ addr @ '': '' @ e))), w1)
      | Inr (peer, tcp) \<Rightarrow>
     (let peer_ip = (if proxy \<noteq> None then None else peer);
          (r, tcp, w2) = (case proxy of
            None \<Rightarrow> (Inr (), tcp, w1)
          | Some p \<Rightarrow> (case proxy_handshake p host port tcp of (r, t) \<Rightarrow>
              (if n_late net (config_timeout config) w1 (n_pass net w1)
               then Inl (Client (err_timeout ((case px_scheme p of
                   ProxyHttp \<Rightarrow> ''proxy CONNECT to '' @ host @ '':'' @ show_nat (unat port)
                 | ProxySocks5 \<Rightarrow> ''SOCKS5 handshake'') @ '' timed out after '' @
                   show_nat (unat (config_timeout config)) @ ''s''))) else r, t, n_pass net w1))) in
      case r of
        Inl e \<Rightarrow> (Inl e, w2)
      | Inr _ \<Rightarrow>
          if \<not> is_https
          then (Inr \<lparr>op_tcp = tcp, op_tls = None, op_cert = None, op_alpn = None, op_peer_ip = peer_ip\<rparr>, w2)
          else tls_layer env net config host tcp peer_ip w2)))))"

definition h2_target_error :: string where
  "h2_target_error = ''request_target cannot be sent over HTTP/2: hyper builds :path from the '' @
     ''request URI, so a verbatim request target has nowhere to go. Offer '' @
     ''http/1.1 in alpn_protocols, or use raw_connect with blasthttp.h2 to '' @
     ''write the pseudo-headers yourself.''"

definition dispatch_direct ::
  "env \<Rightarrow> 'w net \<Rightarrow> uri \<Rightarrow> request_config \<Rightarrow> 'w
    \<Rightarrow> (failure + single_response \<times> cert_info option \<times> string option) \<times> 'w" where
  "dispatch_direct env net target config w =
     (case connect_stream env net target config w of
        (Inl e, w) \<Rightarrow> (Inl e, w)
      | (Inr stream, w) \<Rightarrow>
     (let h2 = (op_alpn stream = Some ''h2'') in
      if h2 \<and> rc_request_target config \<noteq> None
      then (Inl (Client (err_other h2_target_error)), w)
      else (case n_handshake net h2 w of
        (Some e, w) \<Rightarrow> (Inl (Client (err_connection ((if h2 then ''HTTP/2'' else ''HTTP'') @ '' handshake failed: '' @ e))), w)
      | (None, w) \<Rightarrow>
     (case (case rc_request_target config of
          Some rt \<Rightarrow> lift_err (\<lambda>e. Client (err_invalid_url (''invalid request_target '' @ [CHR 0x27] @ rt @ [CHR 0x27] @ '': '' @ e)))
            (l_uri_parse (e_http env) rt)
        | None \<Rightarrow> Inr target) of
        Inl e \<Rightarrow> (Inl e, w)
      | Inr request_uri \<Rightarrow>
     (case (if h2 then build_request (e_http env) request_uri config False False None
            else build_request (e_http env) request_uri config (rc_request_target config = None) True None) of
        Inl e \<Rightarrow> (Inl e, w)
      | Inr request \<Rightarrow>
     (case n_send net h2 request w of (r, w) \<Rightarrow>
        (and_then (respond env config (send_error ''dispatch_direct request'') r)
           (\<lambda>resp. Inr (resp, op_cert stream, op_peer_ip stream)), w)))))))"

section \<open>The redirect loop\<close>

text \<open>One dispatch: mode, client, request. The mode is kept when a pooled client was used.\<close>

definition hop_exchange ::
  "env \<Rightarrow> 'w net \<Rightarrow> request_config \<Rightarrow> uri \<Rightarrow> string option \<Rightarrow> client_cache \<Rightarrow> 'w
    \<Rightarrow> (failure + single_response \<times> conn_mode option) \<times> client_cache \<times> 'w" where
  "hop_exchange env net config u hop_cookies cache w =
     (case conn_mode_for (e_http env) config u of
        Inl e \<Rightarrow> (Inl (Client e), cache, w)
      | Inr (ForwardProxy proxy_url) \<Rightarrow>
          (case dispatch_forward_proxy env net proxy_url u config hop_cookies w of
             (r, w) \<Rightarrow> (map_sum id (\<lambda>resp. (resp, None)) r, cache, w))
      | Inr mode \<Rightarrow>
          (case get_or_build env config mode cache of
             Inl e \<Rightarrow> (Inl e, cache, w)
           | Inr (cached, cache) \<Rightarrow>
               (case dispatch_request env net mode cached u config hop_cookies cache w of
                  (r, cache, w) \<Rightarrow> (map_sum id (\<lambda>resp. (resp, Some mode)) r, cache, w))))"

text \<open>What the slots of the client used say now.\<close>

definition slots_of :: "client_cache \<Rightarrow> conn_mode option \<Rightarrow> slots option" where
  "slots_of cache used = Option.bind used (\<lambda>m. map_option cc_slots (cache m))"

definition peer_ip_of_hop :: "client_cache \<Rightarrow> conn_mode option \<Rightarrow> uri \<Rightarrow> string option" where
  "peer_ip_of_hop cache used u =
     Option.bind (peer_slot_key u) (\<lambda>key. Option.bind (slots_of cache used) (\<lambda>s. sl_peers s key))"

definition cert_of_hop :: "client_cache \<Rightarrow> conn_mode option \<Rightarrow> cert_info option" where
  "cert_of_hop cache used = Option.bind (slots_of cache used) sl_cert"

text \<open>
  The cookies of a redirect: the jar after this hop's \<open>Set-Cookie\<close> lines and the header for the next
  one. Without a jar the header stays what it was.
\<close>

definition follow_cookies ::
  "env \<Rightarrow> int \<Rightarrow> chain_cookies option \<Rightarrow> string option \<Rightarrow> header_list \<Rightarrow> uri \<Rightarrow> uri
    \<Rightarrow> failure + chain_cookies option \<times> string option" where
  "follow_cookies env now jar hop_cookies headers u next_uri =
     (case jar of
        None \<Rightarrow> Inr (None, hop_cookies)
      | Some chain \<Rightarrow>
          (case chain_store (e_psl env) now chain headers u of
             Panic \<Rightarrow> Inl Panicked
           | Done (chain, rejected) \<Rightarrow> Inr (Some chain, header_for chain next_uri)))"

record loop_state =
  lp_uri :: uri
  lp_hops :: u32
  lp_chain :: "redirect_hop list"
  lp_jar :: "chain_cookies option"
  lp_cookies :: "string option"

text \<open>After a redirect status: the next state of the loop, or why it ends. \<open>hops += 1\<close> may overflow.\<close>

definition follow_redirect ::
  "env \<Rightarrow> request_config \<Rightarrow> int \<Rightarrow> single_response \<Rightarrow> string option \<Rightarrow> loop_state \<Rightarrow> failure + loop_state" where
  "follow_redirect env config now resp peer_ip lp =
     (if lp_hops lp = - 1 then Inl Panicked
      else if lp_hops lp + 1 > redirect_limit config
      then Inl (Client (err_too_many_redirects (''too many redirects (limit: '' @
             show_nat (unat (redirect_limit config)) @ '')'')))
      else
        and_then (ok_or (sr_location resp) (Client (err_other (''redirect '' @ show_nat (unat (sr_status resp)) @
          '' but no Location header'')))) (\<lambda>location.
        and_then (lift_err Client (resolve_redirect (e_http env) (lp_uri lp) location)) (\<lambda>next_uri.
        and_then (follow_cookies env now (lp_jar lp) (lp_cookies lp) (sr_headers resp) (lp_uri lp) next_uri)
          (\<lambda>(jar, cookies).
        Inr \<lparr>lp_uri = next_uri, lp_hops = lp_hops lp + 1,
             lp_chain = lp_chain lp @ [\<lparr>hop_url = l_uri_show (e_http env) (lp_uri lp), hop_status = sr_status resp,
               hop_peer_ip = peer_ip\<rparr>],
             lp_jar = jar, lp_cookies = cookies\<rparr>))))"

definition finish_response ::
  "env \<Rightarrow> 'w net \<Rightarrow> request_config \<Rightarrow> single_response \<Rightarrow> uri \<Rightarrow> redirect_hop list \<Rightarrow> cert_info option \<Rightarrow> string option
    \<Rightarrow> 'w \<Rightarrow> response" where
  "finish_response env net config resp u chain cert peer_ip w =
     \<lparr>rs_url = l_uri_show (e_http env) u, rs_status = sr_status resp, rs_headers = sr_headers resp,
      rs_body_bytes = sr_body resp, rs_elapsed_ms = n_elapsed_ms net w, rs_redirect_chain = chain,
      rs_cert_info = cert, rs_peer_ip = peer_ip, rs_request_url = rc_url config,
      rs_request_method = config_method config, rs_debug_log = [], rs_decode_error = sr_decode_error resp,
      rs_body_cache = None, rs_raw_headers_cache = None, rs_cookies_cache = None, rs_hash_cache = None\<rparr>"

lemma follow_redirect_Inr:
  assumes "follow_redirect env config now resp peer_ip lp = Inr lp'"
  shows "unat (lp_hops lp') = unat (lp_hops lp) + 1 \<and> lp_hops lp' \<le> redirect_limit config \<and>
    (\<exists>location. sr_location resp = Some location \<and>
       resolve_redirect (e_http env) (lp_uri lp) location = Inr (lp_uri lp')) \<and>
    lp_chain lp' = lp_chain lp @ [\<lparr>hop_url = l_uri_show (e_http env) (lp_uri lp), hop_status = sr_status resp,
      hop_peer_ip = peer_ip\<rparr>] \<and>
    follow_cookies env now (lp_jar lp) (lp_cookies lp) (sr_headers resp) (lp_uri lp) (lp_uri lp') =
      Inr (lp_jar lp', lp_cookies lp')"
proof -
  have "lp_hops lp \<noteq> - 1" using assms by (auto simp: follow_redirect_def)
  then have "unat (lp_hops lp + 1) = unat (lp_hops lp) + 1" by (rule unat_plus_1)
  with assms show ?thesis
    by (auto simp: follow_redirect_def and_then_eq_Inr not_less split: if_splits)
qed

function redirect_loop ::
  "env \<Rightarrow> 'w net \<Rightarrow> request_config \<Rightarrow> loop_state \<Rightarrow> client_cache \<Rightarrow> 'w \<Rightarrow> (failure + response) \<times> client_cache \<times> 'w" where
  "redirect_loop env net config lp cache w =
     (case hop_exchange env net config (lp_uri lp) (lp_cookies lp) cache w of
        (Inl e, cache, w) \<Rightarrow> (Inl e, cache, w)
      | (Inr (resp, used), cache, w) \<Rightarrow>
          (let peer_ip = peer_ip_of_hop cache used (lp_uri lp) in
           if is_redirect (sr_status resp) \<and> should_follow_redirects config
           then (case follow_redirect env config (n_now net w) resp peer_ip lp of
               Inl e \<Rightarrow> (Inl e, cache, w)
             | Inr lp' \<Rightarrow> redirect_loop env net config lp' cache w)
           else (Inr (finish_response env net config resp (lp_uri lp) (lp_chain lp) (cert_of_hop cache used) peer_ip w),
                 cache, w)))"
  by pat_completeness auto
termination
proof (relation "measure (\<lambda>(env, net, config, lp, cache, w). 2 ^ 32 - unat (lp_hops lp))", goal_cases)
  case 1
  show ?case by simp
next
  case (2 env net config lp cache w)
  note follow_redirect_Inr [OF 2(7), THEN conjunct1]
  moreover have "unat (lp_hops lp) < 2 ^ LENGTH(32)" by (rule unsigned_less)
  ultimately show ?case by simp
qed

declare redirect_loop.simps [simp del]

section \<open>One attempt and the retries\<close>

definition initial_jar :: "request_config \<Rightarrow> chain_cookies option" where
  "initial_jar config =
     (if should_forward_redirect_cookies config
      then Some (with_caller_cookies (caller_cookie_names (unwrap_or (rc_headers config) [])))
      else None)"

definition initial_loop :: "request_config \<Rightarrow> uri \<Rightarrow> loop_state" where
  "initial_loop config u = \<lparr>lp_uri = u, lp_hops = 0, lp_chain = [], lp_jar = initial_jar config, lp_cookies = None\<rparr>"

definition send_inner ::
  "env \<Rightarrow> 'w net \<Rightarrow> request_config \<Rightarrow> client_cache \<Rightarrow> 'w \<Rightarrow> (failure + response) \<times> client_cache \<times> 'w" where
  "send_inner env net config cache w =
     (case l_uri_parse (e_http env) (sanitize_uri (rc_url config)) of
        Inl e \<Rightarrow> (Inl (Client (err_invalid_url (''invalid URL: '' @ e))), cache, w)
      | Inr u \<Rightarrow>
          if rc_resolve_ip config \<noteq> None \<or> rc_request_target config \<noteq> None
          then (case dispatch_direct env net u config w of
              (Inl e, w) \<Rightarrow> (Inl e, cache, w)
            | (Inr (resp, cert, peer_ip), w) \<Rightarrow>
                (Inr (finish_response env net config resp u [] cert peer_ip w), cache, w))
          else redirect_loop env net config (initial_loop config u) cache w)"

definition wait_ns :: "u64 \<Rightarrow> nat" where
  "wait_ns ms = unat ms * 10 ^ 6"

function send_loop ::
  "env \<Rightarrow> 'w net \<Rightarrow> request_config \<Rightarrow> nat \<Rightarrow> failure option \<Rightarrow> client_cache \<Rightarrow> 'w
    \<Rightarrow> (failure + response) \<times> client_cache \<times> 'w" where
  "send_loop env net config attempt last_err cache w =
     (if attempt > unat (max_retries config)
      then (Inl (unwrap_or last_err (Client (err_other ''all retries exhausted''))), cache, w)
      else
        (let w = (if attempt > 0 then n_sleep net (retry_backoff (of_nat (attempt - 1))
               (wait_ns (retry_wait_min config)) (wait_ns (retry_wait_max config))) w else w) in
         case send_inner env net config cache w of (r, cache, w') \<Rightarrow>
         if n_late net (config_timeout config) w w'
         then (Inl (Client (err_timeout (''request timed out after '' @ show_nat (unat (config_timeout config)) @ ''s''))), cache, w')
         else (case r of
             Inr resp \<Rightarrow>
               if is_retryable (Status (rs_status resp)) \<and> attempt < unat (max_retries config)
               then send_loop env net config (attempt + 1)
                 (Some (Client (err_status (rs_status resp) (''server returned '' @ show_nat (unat (rs_status resp)) @
                    '' for '' @ rc_url config)))) cache w'
               else (Inr resp, cache, w')
           | Inl e \<Rightarrow>
               if (case failure_kind e of Some k \<Rightarrow> is_retryable k | None \<Rightarrow> False) \<and> attempt < unat (max_retries config)
               then send_loop env net config (attempt + 1) (Some e) cache w'
               else (Inl e, cache, w'))))"
  by pat_completeness auto
termination
  by (relation "measure (\<lambda>(env, net, config, attempt, e, cache, w). Suc (unat (max_retries config)) - attempt)") auto

declare send_loop.simps [simp del]

definition send :: "env \<Rightarrow> 'w net \<Rightarrow> request_config \<Rightarrow> client_cache \<Rightarrow> 'w \<Rightarrow> (failure + response) \<times> client_cache \<times> 'w" where
  "send env net config cache w =
     (case validate_proxy config of
        Inl m \<Rightarrow> (Inl (Client (err_other m)), cache, w)
      | Inr _ \<Rightarrow> send_loop env net config 0 None cache w)"

end
