(* ===== verification/Http_Trace.thy ===== *)
theory Http_Trace
  imports Http_Client
begin

text \<open>
  Runs of the client observed: a network that logs what the client asks of it (\<open>logged\<close>), what each
  hop, each loop and each attempt may log, the cookie jar's contract (locale \<open>hop_jar\<close>), a proof rule
  for the redirect loop, and the properties of \<open>send\<close> over all of it.
\<close>

section \<open>Observing a run\<close>

text \<open>What the client does to the world, in order, and a network that writes it down.\<close>

datatype event = Dialed string | Pooled conn_mode http_request | Sent bool http_request | Slept nat

definition logged :: "'w net \<Rightarrow> ('w \<times> event list) net" where
  "logged net = \<lparr>
     n_pool = (\<lambda>m cn r (w, l). case n_pool net m cn r w of (x, w) \<Rightarrow> (x, w, l @ [Pooled m r])),
     n_tcp = (\<lambda>a (w, l). case n_tcp net a w of (x, w) \<Rightarrow> (x, w, l @ [Dialed a])),
     n_tls = (\<lambda>c t (w, l). case n_tls net c t w of (x, w) \<Rightarrow> (x, w, l)),
     n_pass = (\<lambda>(w, l). (n_pass net w, l)),
     n_handshake = (\<lambda>h (w, l). case n_handshake net h w of (x, w) \<Rightarrow> (x, w, l)),
     n_send = (\<lambda>h r (w, l). case n_send net h r w of (x, w) \<Rightarrow> (x, w, l @ [Sent h r])),
     n_sleep = (\<lambda>d (w, l). (n_sleep net d w, l @ [Slept d])),
     n_late = (\<lambda>s (w, _) (w', _). n_late net s w w'),
     n_elapsed_ms = (\<lambda>(w, _). n_elapsed_ms net w),
     n_now = (\<lambda>(w, _). n_now net w)\<rparr>"

lemma logged_simps [simp]:
  "n_pool (logged net) m cn r (w, l) = (case n_pool net m cn r w of (x, w) \<Rightarrow> (x, w, l @ [Pooled m r]))"
  "n_tcp (logged net) a (w, l) = (case n_tcp net a w of (x, w) \<Rightarrow> (x, w, l @ [Dialed a]))"
  "n_tls (logged net) c t (w, l) = (case n_tls net c t w of (x, w) \<Rightarrow> (x, w, l))"
  "n_pass (logged net) (w, l) = (n_pass net w, l)"
  "n_handshake (logged net) h (w, l) = (case n_handshake net h w of (x, w) \<Rightarrow> (x, w, l))"
  "n_send (logged net) h r (w, l) = (case n_send net h r w of (x, w) \<Rightarrow> (x, w, l @ [Sent h r]))"
  "n_sleep (logged net) d (w, l) = (n_sleep net d w, l @ [Slept d])"
  "n_late (logged net) s (w, l) (w', l') = n_late net s w w'"
  "n_elapsed_ms (logged net) (w, l) = n_elapsed_ms net w"
  "n_now (logged net) (w, l) = n_now net w"
  by (simp_all add: logged_def)

text \<open>
  A logged step: the result, cache and world of the plain one, and events satisfying \<open>P\<close> behind
  those there were.
\<close>

definition logs ::
  "(event list \<Rightarrow> bool) \<Rightarrow> event list \<Rightarrow> 'r \<times> client_cache \<times> 'w \<Rightarrow> 'r \<times> client_cache \<times> 'w \<times> event list \<Rightarrow> bool" where
  "logs P l plain run \<longleftrightarrow> (\<exists>r c w es. plain = (r, c, w) \<and> run = (r, c, w, l @ es) \<and> P es)"

definition is_request :: "event \<Rightarrow> bool" where
  "is_request e = (case e of Pooled _ _ \<Rightarrow> True | Sent _ _ \<Rightarrow> True | _ \<Rightarrow> False)"

lemma is_request_simps [simp]:
  "is_request (Pooled m r)" "is_request (Sent h r)" "\<not> is_request (Dialed a)" "\<not> is_request (Slept d)"
  by (simp_all add: is_request_def)

text \<open>What one hop to \<open>u\<close> with the chain cookies \<open>rc\<close> may do.\<close>

definition hop_event :: "env \<Rightarrow> request_config \<Rightarrow> uri \<Rightarrow> string option \<Rightarrow> event \<Rightarrow> bool" where
  "hop_event env config u rc e = (case e of
       Pooled m r \<Rightarrow> conn_mode_for (e_http env) config u = Inr m \<and>
         build_request (e_http env) u config False False rc = Inr r
     | Sent h2 r \<Rightarrow> \<not> h2 \<and> (\<exists>p. conn_mode_for (e_http env) config u = Inr (ForwardProxy p)) \<and>
         build_request (e_http env) u config False True rc = Inr r
     | Dialed a \<Rightarrow> \<exists>p pu h. conn_mode_for (e_http env) config u = Inr (ForwardProxy p) \<and>
         l_uri_parse (e_http env) p = Inr pu \<and> u_host pu = Some h \<and>
         a = h @ '':'' @ show_nat (unat (unwrap_or (u_port pu) 8080))
     | Slept _ \<Rightarrow> False)"

definition hop_events :: "env \<Rightarrow> request_config \<Rightarrow> uri \<Rightarrow> string option \<Rightarrow> event list \<Rightarrow> bool" where
  "hop_events env config u rc es \<longleftrightarrow> (\<forall>e \<in> set es. hop_event env config u rc e) \<and> length (filter is_request es) \<le> 1"

lemma dispatch_forward_proxy_logs:
  assumes "conn_mode_for (e_http env) config u = Inr (ForwardProxy p)"
  shows "\<exists>r w' es. dispatch_forward_proxy env net p u config rc w = (r, w') \<and>
    dispatch_forward_proxy env (logged net) p u config rc (w, l) = (r, w', l @ es) \<and> hop_events env config u rc es"
  using assms
  by (auto simp: dispatch_forward_proxy_def Let_def hop_events_def hop_event_def
      split: sum.split option.split prod.split)

lemma dispatch_request_logs:
  assumes "conn_mode_for (e_http env) config u = Inr mode"
  shows "logs (hop_events env config u rc) l (dispatch_request env net mode cached u config rc cache w)
     (dispatch_request env (logged net) mode cached u config rc cache (w, l))"
  using assms
  by (auto simp: logs_def dispatch_request_def Let_def hop_events_def hop_event_def
      split: sum.split option.split prod.split)

lemma hop_exchange_logs:
  "logs (hop_events env config u rc) l (hop_exchange env net config u rc cache w)
     (hop_exchange env (logged net) config u rc cache (w, l))"
proof (cases "conn_mode_for (e_http env) config u")
  case (Inl e)
  then show ?thesis by (simp add: hop_exchange_def logs_def hop_events_def)
next
  case (Inr mode)
  have pooled: "logs (hop_events env config u rc) l
      (case get_or_build env config mode cache of Inl e \<Rightarrow> (Inl e, cache, w)
        | Inr (cached, cache) \<Rightarrow> (case dispatch_request env net mode cached u config rc cache w of
             (r, cache, w) \<Rightarrow> (map_sum id (\<lambda>resp. (resp, Some mode)) r, cache, w)))
      (case get_or_build env config mode cache of Inl e \<Rightarrow> (Inl e, cache, w, l)
        | Inr (cached, cache) \<Rightarrow> (case dispatch_request env (logged net) mode cached u config rc cache (w, l) of
             (r, cache, w) \<Rightarrow> (map_sum id (\<lambda>resp. (resp, Some mode)) r, cache, w)))"
  proof (cases "get_or_build env config mode cache")
    case (Inr cc)
    then obtain cached cache' where cc: "cc = (cached, cache')" by fastforce
    from dispatch_request_logs [OF \<open>conn_mode_for (e_http env) config u = Inr mode\<close>, of rc l net cached cache' w]
    show ?thesis by (auto simp: Inr cc logs_def)
  qed (simp add: logs_def hop_events_def)
  show ?thesis
  proof (cases mode)
    case (ForwardProxy p)
    with dispatch_forward_proxy_logs [of env config u p net rc w l] Inr show ?thesis
      by (auto simp: hop_exchange_def logs_def)
  next
    case (Direct t)
    show ?thesis using pooled [unfolded Direct] by (simp add: hop_exchange_def Inr Direct)
  next
    case (Tunnel p t)
    show ?thesis using pooled [unfolded Tunnel] by (simp add: hop_exchange_def Inr Tunnel)
  next
    case (Socks5 p t)
    show ?thesis using pooled [unfolded Socks5] by (simp add: hop_exchange_def Inr Socks5)
  qed
qed

section \<open>The cookies of a chain\<close>

text \<open>
  What the loop needs of a cookie jar: storing keeps the jar's invariant, and a jar in its invariant
  only yields headers that are allowed for the URI they are made for.
\<close>

locale hop_jar =
  fixes store :: "'j \<Rightarrow> 'h \<Rightarrow> 'u \<Rightarrow> 'j option" and header :: "'j \<Rightarrow> 'u \<Rightarrow> 'c option"
    and inv :: "'j \<Rightarrow> bool" and allowed :: "'u \<Rightarrow> 'c \<Rightarrow> bool"
  assumes store_inv: "inv j \<Longrightarrow> store j hs u = Some j' \<Longrightarrow> inv j'"
    and header_allowed: "inv j \<Longrightarrow> header j u = Some c \<Longrightarrow> allowed u c"
begin

lemma next_hop:
  assumes "inv j" "store j hs u = Some j'"
  shows "inv j' \<and> (\<forall>c. header j' v = Some c \<longrightarrow> allowed v c)"
  using store_inv [OF assms] header_allowed by blast

text \<open>Any number of hops, each with its response headers, its URI and the next one.\<close>

lemma along_chain:
  "inv j \<Longrightarrow> foldl (\<lambda>s (hs, u). Option.bind s (\<lambda>j. store j hs u)) (Some j) hops = Some j' \<Longrightarrow>
     header j' v = Some c \<Longrightarrow> allowed v c"
proof (induction hops arbitrary: j)
  case (Cons h hops)
  obtain hs u where h: "h = (hs, u)" by fastforce
  have none: "foldl (\<lambda>s (hs, u). Option.bind s (\<lambda>j. store j hs u)) None hops = None"
    by (induction hops) auto
  with Cons.prems(2) h obtain k where "store j hs u = Some k" by (cases "store j hs u") auto
  with Cons h store_inv [OF Cons.prems(1)] show ?case by auto
qed (simp add: header_allowed)

end

text \<open>A jar that also keeps count of where its items come from: each is one of the responses stored.\<close>

locale hop_sources = hop_jar store header inv allowed
  for store :: "'j \<Rightarrow> 'h \<Rightarrow> 'u \<Rightarrow> 'j option" and header :: "'j \<Rightarrow> 'u \<Rightarrow> 'c option"
    and inv :: "'j \<Rightarrow> bool" and allowed :: "'u \<Rightarrow> 'c \<Rightarrow> bool" +
  fixes item_set :: "'j \<Rightarrow> 'i set" and came :: "'u \<times> 'h \<Rightarrow> 'i \<Rightarrow> bool"
  assumes store_items: "store j hs u = Some j' \<Longrightarrow> i \<in> item_set j' \<Longrightarrow> i \<in> item_set j \<or> came (u, hs) i"
begin

definition sourced :: "('u \<times> 'h) list \<Rightarrow> 'j \<Rightarrow> bool" where
  "sourced hist j \<longleftrightarrow> (\<forall>i \<in> item_set j. \<exists>p \<in> set hist. came p i)"

lemma sourced_store: "sourced hist j \<Longrightarrow> store j hs u = Some j' \<Longrightarrow> sourced (hist @ [(u, hs)]) j'"
  using store_items unfolding sourced_def by fastforce

end

definition jar_store :: "env \<Rightarrow> int \<Rightarrow> chain_cookies \<Rightarrow> header_list \<Rightarrow> uri \<Rightarrow> chain_cookies option" where
  "jar_store env now ch hs u = (case chain_store (e_psl env) now ch hs u of Done (ch, _) \<Rightarrow> Some ch | Panic \<Rightarrow> None)"

text \<open>
  A \<open>Cookie\<close> value of the chain: pairs of stored cookies that apply to the URI, none of a name the
  caller owns, within the size limit.
\<close>

definition chain_header :: "string list \<Rightarrow> uri \<Rightarrow> string \<Rightarrow> bool" where
  "chain_header owned u h \<longleftrightarrow> (\<exists>host cs. u_host u = Some host \<and> cs \<noteq> [] \<and>
     h = join ''; '' (map (\<lambda>c. c_name c @ ''='' @ c_value c) cs) \<and> length h \<le> MAX_CHAIN_BYTES \<and>
     (\<forall>c \<in> set cs. c_name c \<notin> set owned \<and>
        cookie_applies (canonical_host host) (u_path u) (u_scheme u = Some ''https'') c))"

lemma header_for_cookiesE:
  assumes "chain_inv ch" "header_for ch u = Some h"
  obtains host cs where "u_host u = Some host" "cs \<noteq> []" "h = join ''; '' (map (\<lambda>c. c_name c @ ''='' @ c_value c) cs)"
    "length h \<le> MAX_CHAIN_BYTES" "\<forall>c \<in> set cs. c \<in> set (cookies ch) \<and> c_name c \<notin> set (caller_names ch) \<and>
      cookie_applies (canonical_host host) (u_path u) (u_scheme u = Some ''https'') c"
proof -
  let ?k = "\<lambda>c. - int (length (c_path c))"
  from assms(2) obtain host cs where h: "u_host u = Some host"
    "h = join ''; '' (map (\<lambda>c. c_name c @ ''='' @ c_value c) cs)" "cs \<noteq> []"
    "cs = sort_key ?k (filter (cookie_applies (canonical_host host) (u_path u) (u_scheme u = Some ''https'')) (cookies ch))"
    by (rule header_forE)
  let ?m = "filter (cookie_applies (canonical_host host) (u_path u) (u_scheme u = Some ''https'')) (cookies ch)"
  have m: "mset cs = mset ?m" unfolding h(4) by simp
  have "length h \<le> chain_bytes ?m" using header_length [of cs] chain_bytes_mset [OF m] h(2) by simp
  also have "\<dots> \<le> chain_bytes (cookies ch)" by (rule chain_bytes_filter)
  also have "\<dots> \<le> MAX_CHAIN_BYTES" using assms(1) by (simp add: chain_inv_def)
  finally have "length h \<le> MAX_CHAIN_BYTES" .
  moreover have "set cs = set ?m" unfolding h(4) by simp
  ultimately show thesis using h(1-3) assms(1) by (intro that [of host cs]) (auto simp: chain_inv_def)
qed

lemma header_for_chain_header:
  "chain_inv ch \<Longrightarrow> header_for ch u = Some h \<Longrightarrow> chain_header (caller_names ch) u h"
  by (erule (1) header_for_cookiesE) (auto simp: chain_header_def)

lemma chain_store_keeps:
  "chain_inv ch \<Longrightarrow> chain_store psl now ch hs u = Done (ch', rej) \<Longrightarrow> chain_inv ch' \<and> caller_names ch' = caller_names ch"
  using store_loop_inv by (auto simp: chain_store_def Let_def split: option.splits)

interpretation jar: hop_jar "jar_store env now" header_for "\<lambda>ch. chain_inv ch \<and> caller_names ch = owned"
  "chain_header owned" for env now owned
  by unfold_locales (auto simp: jar_store_def header_for_chain_header dest: chain_store_keeps split: outcome.splits)

text \<open>The state of the loop's cookies.\<close>

definition owned_names :: "request_config \<Rightarrow> string list" where
  "owned_names config = caller_cookie_names (unwrap_or (rc_headers config) [])"

definition cookies_inv :: "request_config \<Rightarrow> loop_state \<Rightarrow> bool" where
  "cookies_inv config lp \<longleftrightarrow>
     (lp_jar lp \<noteq> None \<longleftrightarrow> should_forward_redirect_cookies config) \<and>
     (\<forall>ch. lp_jar lp = Some ch \<longrightarrow> chain_inv ch \<and> caller_names ch = owned_names config) \<and>
     (\<forall>h. lp_cookies lp = Some h \<longrightarrow> should_forward_redirect_cookies config \<and> chain_header (owned_names config) (lp_uri lp) h)"

lemma cookies_inv_initial: "cookies_inv config (initial_loop config u)"
  by (auto simp: cookies_inv_def initial_loop_def initial_jar_def owned_names_def chain_inv_def
      with_caller_cookies_def MAX_CHAIN_BYTES_def)

lemma cookies_inv_follow:
  assumes "cookies_inv config lp" "follow_redirect env config now resp peer_ip lp = Inr lp'"
  shows "cookies_inv config lp'"
proof -
  have f: "follow_cookies env now (lp_jar lp) (lp_cookies lp) (sr_headers resp) (lp_uri lp) (lp_uri lp') =
      Inr (lp_jar lp', lp_cookies lp')"
    using follow_redirect_Inr [OF assms(2)] by blast
  show ?thesis
  proof (cases "lp_jar lp")
    case None
    then show ?thesis using f assms(1) by (auto simp: follow_cookies_def cookies_inv_def)
  next
    case (Some ch)
    with f obtain ch' rej where st: "chain_store (e_psl env) now ch (sr_headers resp) (lp_uri lp) = Done (ch', rej)"
      and lp': "lp_jar lp' = Some ch'" "lp_cookies lp' = header_for ch' (lp_uri lp')"
      by (auto simp: follow_cookies_def split: outcome.splits)
    have ch': "jar_store env now ch (sr_headers resp) (lp_uri lp) = Some ch'" by (simp add: jar_store_def st)
    have "chain_inv ch \<and> caller_names ch = owned_names config" using assms(1) Some by (simp add: cookies_inv_def)
    from jar.next_hop [OF this ch', of "lp_uri lp'"] lp' assms(1) Some show ?thesis
      by (simp add: cookies_inv_def)
  qed
qed

section \<open>The loop observed\<close>

text \<open>
  The paths of the loop: each hop exchanged, found to be a redirect and followed, with the URIs gone
  through and the headers they answered.
\<close>

inductive hop_path ::
  "env \<Rightarrow> 'w net \<Rightarrow> request_config \<Rightarrow> uri \<Rightarrow> client_cache \<Rightarrow> 'w \<Rightarrow> (uri \<times> header_list) list \<Rightarrow> loop_state
    \<Rightarrow> client_cache \<Rightarrow> 'w \<Rightarrow> bool"
  for env net config u cache0 w0 where
  start: "hop_path env net config u cache0 w0 [] (initial_loop config u) cache0 w0"
| follow: "hop_path env net config u cache0 w0 hist lp cache w \<Longrightarrow>
    hop_exchange env net config (lp_uri lp) (lp_cookies lp) cache w = (Inr (resp, used), cache', w') \<Longrightarrow>
    is_redirect (sr_status resp) \<Longrightarrow> should_follow_redirects config \<Longrightarrow>
    follow_redirect env config (n_now net w') resp (peer_ip_of_hop cache' used (lp_uri lp)) lp = Inr lp' \<Longrightarrow>
    hop_path env net config u cache0 w0 (hist @ [(lp_uri lp, sr_headers resp)]) lp' cache' w'"

text \<open>
  A \<open>Cookie\<close> value made up of cookies that earlier hops set: none of a name the caller owns, within
  the size limit, each in the scope of its path and of the host that set it, secure ones over https.
\<close>

definition set_by :: "(string \<Rightarrow> string option) \<Rightarrow> uri \<times> header_list \<Rightarrow> cookie \<Rightarrow> bool" where
  "set_by psl p c \<longleftrightarrow> (\<exists>host. u_host (fst p) = Some host \<and>
     set_by_headers psl (canonical_host host) (u_path (fst p)) (snd p) c)"

definition confined :: "(string \<Rightarrow> string option) \<Rightarrow> string list \<Rightarrow> (uri \<times> header_list) list \<Rightarrow> uri \<Rightarrow> string \<Rightarrow> bool" where
  "confined psl owned hist u h \<longleftrightarrow> (\<exists>host cs. u_host u = Some host \<and> cs \<noteq> [] \<and>
     h = join ''; '' (map (\<lambda>c. c_name c @ ''='' @ c_value c) cs) \<and> length h \<le> MAX_CHAIN_BYTES \<and>
     (\<forall>c \<in> set cs. c_name c \<notin> set owned \<and> (c_secure c \<longrightarrow> u_scheme u = Some ''https'') \<and> path_matches (u_path u) (c_path c) \<and>
        (\<exists>p from. p \<in> set hist \<and> set_by psl p c \<and> u_host (fst p) = Some from \<and>
           cookie_reaches psl (canonical_host from) (canonical_host host) c)))"

interpretation jar_sources: hop_sources "jar_store env now" header_for "\<lambda>ch. chain_inv ch \<and> caller_names ch = owned"
  "chain_header owned" "\<lambda>ch. set (cookies ch)" "set_by (e_psl env)" for env now owned
  by unfold_locales (auto simp: jar_store_def set_by_def chain_store_def Let_def
      dest: store_loop_sources split: outcome.splits option.splits)

abbreviation jar_from :: "env \<Rightarrow> (uri \<times> header_list) list \<Rightarrow> chain_cookies \<Rightarrow> bool" where
  "jar_from env \<equiv> hop_sources.sourced (\<lambda>ch. set (cookies ch)) (set_by (e_psl env))"

lemma header_for_confined:
  assumes "chain_inv ch" "header_for ch u = Some h" "jar_from env hist ch"
  shows "confined (e_psl env) (caller_names ch) hist u h"
proof -
  obtain host cs where h: "u_host u = Some host" "cs \<noteq> []" "h = join ''; '' (map (\<lambda>c. c_name c @ ''='' @ c_value c) cs)"
    "length h \<le> MAX_CHAIN_BYTES" and cs: "\<forall>c \<in> set cs. c \<in> set (cookies ch) \<and> c_name c \<notin> set (caller_names ch) \<and>
      cookie_applies (canonical_host host) (u_path u) (u_scheme u = Some ''https'') c"
    by (rule header_for_cookiesE [OF assms(1,2)])
  have src: "\<exists>p from. p \<in> set hist \<and> set_by (e_psl env) p c \<and> u_host (fst p) = Some from \<and>
      cookie_reaches (e_psl env) (canonical_host from) (canonical_host host) c" and "(c_secure c \<longrightarrow> u_scheme u = Some ''https'') \<and> path_matches (u_path u) (c_path c)"
    if "c \<in> set cs" for c
  proof -
    from that cs have c: "c \<in> set (cookies ch)"
      "cookie_applies (canonical_host host) (u_path u) (u_scheme u = Some ''https'') c" by auto
    from c(1) assms(3) obtain p where p: "p \<in> set hist" "set_by (e_psl env) p c"
      by (auto simp: jar_sources.sourced_def)
    from p(2) obtain h0 where h0: "u_host (fst p) = Some h0"
      "set_by_headers (e_psl env) (canonical_host h0) (u_path (fst p)) (snd p) c" by (auto simp: set_by_def)
    note reach = cookie_applies_reaches [OF set_by_headers_scoped [OF h0(2)] c(2)]
    then show "(c_secure c \<longrightarrow> u_scheme u = Some ''https'') \<and> path_matches (u_path u) (c_path c)" by blast
    from reach p h0(1) show "\<exists>p from. p \<in> set hist \<and> set_by (e_psl env) p c \<and> u_host (fst p) = Some from \<and>
      cookie_reaches (e_psl env) (canonical_host from) (canonical_host host) c" by blast
  qed
  then show ?thesis unfolding confined_def using h cs by (intro exI [of _ host] exI [of _ cs] conjI ballI) simp_all
qed

definition path_inv :: "env \<Rightarrow> request_config \<Rightarrow> (uri \<times> header_list) list \<Rightarrow> loop_state \<Rightarrow> bool" where
  "path_inv env config hist lp \<longleftrightarrow> cookies_inv config lp \<and>
     (\<forall>ch. lp_jar lp = Some ch \<longrightarrow> jar_from env hist ch) \<and>
     (\<forall>h. lp_cookies lp = Some h \<longrightarrow> (\<exists>ch. lp_jar lp = Some ch \<and> header_for ch (lp_uri lp) = Some h))"

lemma path_inv_follow:
  assumes "path_inv env config hist lp" "follow_redirect env config now resp peer_ip lp = Inr lp'"
  shows "path_inv env config (hist @ [(lp_uri lp, sr_headers resp)]) lp'"
proof -
  have f: "follow_cookies env now (lp_jar lp) (lp_cookies lp) (sr_headers resp) (lp_uri lp) (lp_uri lp') =
      Inr (lp_jar lp', lp_cookies lp')"
    using follow_redirect_Inr [OF assms(2)] by blast
  have inv: "cookies_inv config lp'" using assms cookies_inv_follow by (auto simp: path_inv_def)
  show ?thesis
  proof (cases "lp_jar lp")
    case None
    then show ?thesis using f assms(1) inv by (auto simp: follow_cookies_def path_inv_def)
  next
    case (Some ch)
    with f obtain ch' rej where st: "chain_store (e_psl env) now ch (sr_headers resp) (lp_uri lp) = Done (ch', rej)"
      and lp': "lp_jar lp' = Some ch'" "lp_cookies lp' = header_for ch' (lp_uri lp')"
      by (auto simp: follow_cookies_def split: outcome.splits)
    have "jar_store env now ch (sr_headers resp) (lp_uri lp) = Some ch'" by (simp add: jar_store_def st)
    from jar_sources.sourced_store [OF _ this] assms(1) Some lp' inv show ?thesis by (auto simp: path_inv_def)
  qed
qed

lemma hop_path_inv: "hop_path env net config u cache0 w0 hist lp cache w \<Longrightarrow> path_inv env config hist lp"
proof (induction rule: hop_path.induct)
  case start
  show ?case using cookies_inv_initial
    by (simp add: path_inv_def initial_loop_def initial_jar_def with_caller_cookies_def jar_sources.sourced_def)
qed (rule path_inv_follow)

lemma hop_path_confined:
  assumes "hop_path env net config u cache0 w0 hist lp cache w" "lp_cookies lp = Some h"
  shows "should_forward_redirect_cookies config \<and> confined (e_psl env) (owned_names config) hist (lp_uri lp) h"
proof -
  note inv = hop_path_inv [OF assms(1)]
  then obtain ch where "lp_jar lp = Some ch" "header_for ch (lp_uri lp) = Some h"
    using assms(2) by (auto simp: path_inv_def)
  with inv assms(2) header_for_confined [of ch "lp_uri lp" h env hist] show ?thesis
    by (auto simp: path_inv_def cookies_inv_def)
qed

text \<open>
  An event of the loop: what the hop at the end of some path may do, its chain cookies sent only if
  asked for and confined to where they belong.
\<close>

definition loop_event :: "env \<Rightarrow> 'w net \<Rightarrow> request_config \<Rightarrow> uri \<Rightarrow> client_cache \<Rightarrow> 'w \<Rightarrow> event \<Rightarrow> bool" where
  "loop_event env net config u cache0 w0 e \<longleftrightarrow> (\<exists>hist lp cache w. hop_path env net config u cache0 w0 hist lp cache w \<and>
     hop_event env config (lp_uri lp) (lp_cookies lp) e \<and>
     (\<forall>h. lp_cookies lp = Some h \<longrightarrow> should_forward_redirect_cookies config \<and>
        confined (e_psl env) (owned_names config) hist (lp_uri lp) h))"

definition loop_events :: "env \<Rightarrow> 'w net \<Rightarrow> request_config \<Rightarrow> uri \<Rightarrow> client_cache \<Rightarrow> 'w \<Rightarrow> nat \<Rightarrow> event list \<Rightarrow> bool" where
  "loop_events env net config u cache0 w0 n es \<longleftrightarrow> (\<forall>e \<in> set es. loop_event env net config u cache0 w0 e) \<and> length (filter is_request es) \<le> n"

text \<open>The events of a loop whose states satisfy an invariant, kept from one exchange to the next.\<close>

definition inv_events ::
  "env \<Rightarrow> request_config \<Rightarrow> (loop_state \<Rightarrow> client_cache \<Rightarrow> 'w \<Rightarrow> bool) \<Rightarrow> nat \<Rightarrow> event list \<Rightarrow> bool" where
  "inv_events env config I n es \<longleftrightarrow>
     (\<forall>e \<in> set es. \<exists>lp cache w. I lp cache w \<and> hop_event env config (lp_uri lp) (lp_cookies lp) e) \<and>
     length (filter is_request es) \<le> n"

lemma inv_events_append:
  "inv_events env config I n es \<Longrightarrow> inv_events env config I m es' \<Longrightarrow> inv_events env config I (n + m) (es @ es')"
  by (auto simp: inv_events_def)

lemma redirect_loop_logs_inv:
  fixes net :: "'w net" and I :: "loop_state \<Rightarrow> client_cache \<Rightarrow> 'w \<Rightarrow> bool"
  assumes "I lp cache w" "lp_hops lp \<le> redirect_limit config"
    and "\<And>lp cache w resp used cache' w' lp'. I lp cache w \<Longrightarrow>
      hop_exchange env net config (lp_uri lp) (lp_cookies lp) cache w = (Inr (resp, used), cache', w') \<Longrightarrow>
      is_redirect (sr_status resp) \<Longrightarrow> should_follow_redirects config \<Longrightarrow>
      follow_redirect env config (n_now net w') resp (peer_ip_of_hop cache' used (lp_uri lp)) lp = Inr lp' \<Longrightarrow>
      I lp' cache' w'"
  shows "logs (inv_events env config I (Suc (unat (redirect_limit config)) - unat (lp_hops lp))) l
     (redirect_loop env net config lp cache w) (redirect_loop env (logged net) config lp cache (w, l))"
  using assms
proof (induction env net config lp cache w arbitrary: l rule: redirect_loop.induct)
  case (1 env net config lp cache w)
  note start = "1.prems"(1,2) and step = "1.prems"(3)
  let ?n = "Suc (unat (redirect_limit config)) - unat (lp_hops lp)"
  obtain r c w' es where x: "hop_exchange env net config (lp_uri lp) (lp_cookies lp) cache w = (r, c, w')"
    "hop_exchange env (logged net) config (lp_uri lp) (lp_cookies lp) cache (w, l) = (r, c, w', l @ es)"
    "hop_events env config (lp_uri lp) (lp_cookies lp) es"
    using hop_exchange_logs [of env config "lp_uri lp" "lp_cookies lp" l net cache w] by (auto simp: logs_def)
  have hops: "unat (lp_hops lp) \<le> unat (redirect_limit config)" using start(2) by (simp add: word_le_nat_alt)
  have es: "inv_events env config I 1 es" using x(3) start(1) unfolding hop_events_def inv_events_def by blast
  then have es': "inv_events env config I ?n es" using hops by (auto simp: inv_events_def)
  note unfold = redirect_loop.simps [of env net config lp cache w] redirect_loop.simps [of env "logged net" config lp cache "(w, l)"]
  show ?case
  proof (cases r)
    case (Inl e)
    with x es' show ?thesis by (simp add: unfold logs_def)
  next
    case (Inr ru)
    obtain resp used where ru: "ru = (resp, used)" by fastforce
    let ?p = "peer_ip_of_hop c used (lp_uri lp)"
    consider "\<not> (is_redirect (sr_status resp) \<and> should_follow_redirects config)"
      | e where "is_redirect (sr_status resp) \<and> should_follow_redirects config"
          "follow_redirect env config (n_now net w') resp ?p lp = Inl e"
      | lp' where "is_redirect (sr_status resp) \<and> should_follow_redirects config"
          "follow_redirect env config (n_now net w') resp ?p lp = Inr lp'"
      by (cases "follow_redirect env config (n_now net w') resp ?p lp") blast+
    then show ?thesis
    proof cases
      case 1
      with x es' Inr ru show ?thesis by (auto simp: unfold logs_def Let_def finish_response_def)
    next
      case 2
      with x es' Inr ru show ?thesis by (simp add: unfold logs_def Let_def)
    next
      case redir: (3 lp')
      have "I lp' c w'" using redir by (intro step [OF start(1) x(1) [unfolded Inr ru] _ _ redir(2)]) simp_all
      then have "logs (inv_events env config I (Suc (unat (redirect_limit config)) - unat (lp_hops lp'))) (l @ es)
          (redirect_loop env net config lp' c w') (redirect_loop env (logged net) config lp' c (w', l @ es))"
      proof (rule "1.IH" [OF x(1) [symmetric] Inr ru [symmetric] refl refl redir])
        show "lp_hops lp' \<le> redirect_limit config" using follow_redirect_Inr [OF redir(2)] by simp
      qed (rule step)
      then obtain r'' c'' w'' es'' where
        y: "redirect_loop env net config lp' c w' = (r'', c'', w'')"
          "redirect_loop env (logged net) config lp' c (w', l @ es) = (r'', c'', w'', l @ es @ es'')"
          "inv_events env config I (Suc (unat (redirect_limit config)) - unat (lp_hops lp')) es''"
        by (auto simp: logs_def)
      have "?n = 1 + (Suc (unat (redirect_limit config)) - unat (lp_hops lp'))"
        using follow_redirect_Inr [OF redir(2)] hops by (simp add: word_le_nat_alt Suc_diff_le)
      with inv_events_append [OF es y(3)] have "inv_events env config I ?n (es @ es'')" by simp
      with x y Inr ru redir show ?thesis by (simp add: unfold logs_def Let_def)
    qed
  qed
qed

lemma redirect_loop_logs:
  fixes net :: "'w net"
  shows "logs (loop_events env net config u cache0 w0 (Suc (unat (redirect_limit config)))) l
     (redirect_loop env net config (initial_loop config u) cache0 w0)
     (redirect_loop env (logged net) config (initial_loop config u) cache0 (w0, l))"
proof -
  let ?I = "\<lambda>lp cache w. \<exists>hist. hop_path env net config u cache0 w0 hist lp cache w"
  have event: "?I lp cache w \<Longrightarrow> hop_event env config (lp_uri lp) (lp_cookies lp) e \<Longrightarrow> loop_event env net config u cache0 w0 e" for lp cache w e
    unfolding loop_event_def using hop_path_confined [of env net config u cache0 w0 _ lp cache w] by (elim exE) (intro exI conjI, auto)
  have events: "loop_events env net config u cache0 w0 n es" if "inv_events env config ?I n es" for n es
  proof -
    have "loop_event env net config u cache0 w0 e" if e: "e \<in> set es" for e
    proof -
      from \<open>inv_events env config ?I n es\<close> e obtain lp cache w
        where "?I lp cache w" "hop_event env config (lp_uri lp) (lp_cookies lp) e" unfolding inv_events_def by blast
      then show ?thesis by (rule event)
    qed
    with that show ?thesis by (simp add: inv_events_def loop_events_def)
  qed
  have "logs (inv_events env config ?I (Suc (unat (redirect_limit config)) - unat (lp_hops (initial_loop config u)))) l
     (redirect_loop env net config (initial_loop config u) cache0 w0)
     (redirect_loop env (logged net) config (initial_loop config u) cache0 (w0, l))"
  proof (rule redirect_loop_logs_inv)
    show "\<exists>hist. hop_path env net config u cache0 w0 hist (initial_loop config u) cache0 w0" by (rule exI, rule hop_path.start)
  next
    fix lp cache w resp used cache' w' lp'
    assume "\<exists>hist. hop_path env net config u cache0 w0 hist lp cache w"
      "hop_exchange env net config (lp_uri lp) (lp_cookies lp) cache w = (Inr (resp, used), cache', w')"
      "is_redirect (sr_status resp)" "should_follow_redirects config"
      "follow_redirect env config (n_now net w') resp (peer_ip_of_hop cache' used (lp_uri lp)) lp = Inr lp'"
    then show "\<exists>hist. hop_path env net config u cache0 w0 hist lp' cache' w'" by (elim exE) (rule exI, erule (4) hop_path.follow)
  qed (simp add: initial_loop_def)
  with events show ?thesis unfolding logs_def initial_loop_def by auto
qed

text \<open>The ways the loop ends, an invariant of its states holding in the state of its last exchange.\<close>

lemma redirect_loop_cases [consumes 0, case_names start step failed stopped returned]:
  assumes "I lp cache w"
    and "\<And>lp cache w resp used cache' w' lp'. I lp cache w \<Longrightarrow>
      hop_exchange env net config (lp_uri lp) (lp_cookies lp) cache w = (Inr (resp, used), cache', w') \<Longrightarrow>
      is_redirect (sr_status resp) \<Longrightarrow> should_follow_redirects config \<Longrightarrow>
      follow_redirect env config (n_now net w') resp (peer_ip_of_hop cache' used (lp_uri lp)) lp = Inr lp' \<Longrightarrow>
      I lp' cache' w'"
  obtains (failed) lp1 cache1 w1 e c w' where "I lp1 cache1 w1"
      "hop_exchange env net config (lp_uri lp1) (lp_cookies lp1) cache1 w1 = (Inl e, c, w')"
      "redirect_loop env net config lp cache w = (Inl e, c, w')"
  | (stopped) lp1 cache1 w1 resp used e c w' where "I lp1 cache1 w1"
      "hop_exchange env net config (lp_uri lp1) (lp_cookies lp1) cache1 w1 = (Inr (resp, used), c, w')"
      "is_redirect (sr_status resp)" "should_follow_redirects config"
      "follow_redirect env config (n_now net w') resp (peer_ip_of_hop c used (lp_uri lp1)) lp1 = Inl e"
      "redirect_loop env net config lp cache w = (Inl e, c, w')"
  | (returned) lp1 cache1 w1 resp used c w' where "I lp1 cache1 w1"
      "hop_exchange env net config (lp_uri lp1) (lp_cookies lp1) cache1 w1 = (Inr (resp, used), c, w')"
      "\<not> (is_redirect (sr_status resp) \<and> should_follow_redirects config)"
      "redirect_loop env net config lp cache w =
        (Inr (finish_response env net config resp (lp_uri lp1) (lp_chain lp1) (cert_of_hop c used)
           (peer_ip_of_hop c used (lp_uri lp1)) w'), c, w')"
  using assms
proof (induction env net config lp cache w rule: redirect_loop.induct)
  case (1 env net config lp cache w)
  note IH = "1.IH" and failed = "1.prems"(1) and stopped = "1.prems"(2) and returned = "1.prems"(3)
    and start = "1.prems"(4) and step = "1.prems"(5)
  obtain r c w' where x: "hop_exchange env net config (lp_uri lp) (lp_cookies lp) cache w = (r, c, w')"
    using prod_cases3 by blast
  note unfold = redirect_loop.simps [of env net config lp cache w, unfolded x]
  show ?case
  proof (cases r)
    case (Inl e)
    show ?thesis by (rule failed [OF start x [unfolded Inl]]) (simp add: unfold Inl)
  next
    case (Inr ru)
    obtain resp used where ru: "ru = (resp, used)" by fastforce
    note x = x [unfolded Inr ru]
    let ?p = "peer_ip_of_hop c used (lp_uri lp)"
    show ?thesis
    proof (cases "is_redirect (sr_status resp) \<and> should_follow_redirects config")
      case False
      show ?thesis by (rule returned [OF start x False]) (simp add: unfold Inr ru False Let_def)
    next
      case True
      show ?thesis
      proof (cases "follow_redirect env config (n_now net w') resp ?p lp")
        case (Inl e)
        show ?thesis using True Inl by (intro stopped [OF start x]) (simp_all add: unfold Inr ru Let_def)
      next
        case next_hop: (Inr lp')
        have eq: "redirect_loop env net config lp cache w = redirect_loop env net config lp' c w'"
          by (simp add: unfold Inr ru True next_hop Let_def)
        note rec = IH [OF x [symmetric] refl refl refl refl True next_hop]
        show ?thesis
        proof (rule rec)
          show "I lp' c w'" using True by (intro step [OF start x _ _ next_hop]) simp_all
        qed (erule (2) failed [unfolded eq], erule (5) stopped [unfolded eq], erule (3) returned [unfolded eq], erule (4) step)
      qed
    qed
  qed
qed

section \<open>Attempts and retries observed\<close>

definition direct_request :: "request_config \<Rightarrow> bool" where
  "direct_request config \<longleftrightarrow> rc_resolve_ip config \<noteq> None \<or> rc_request_target config \<noteq> None"

definition direct_event :: "env \<Rightarrow> request_config \<Rightarrow> uri \<Rightarrow> event \<Rightarrow> bool" where
  "direct_event env config u e = (case e of
       Dialed a \<Rightarrow> \<exists>proxy. (case effective_proxy config (unwrap_or (u_host u) []) of
           Some p \<Rightarrow> \<exists>pc. parse_proxy_url p = Inr pc \<and> proxy = Some pc | None \<Rightarrow> proxy = None) \<and>
         a = connect_address proxy config (unwrap_or (u_host u) []) (target_port u)
     | Sent h2 r \<Rightarrow> \<exists>ru. (case rc_request_target config of
           Some rt \<Rightarrow> l_uri_parse (e_http env) rt = Inr ru \<and> \<not> h2 | None \<Rightarrow> ru = u) \<and>
         build_request (e_http env) ru config (\<not> h2 \<and> rc_request_target config = None) (\<not> h2) None = Inr r
     | _ \<Rightarrow> False)"

lemma tls_layer_logs:
  "\<exists>r w'. tls_layer env net config host t ip w = (r, w') \<and> tls_layer env (logged net) config host t ip (w, l) = (r, w', l)"
  by (auto simp: tls_layer_def split: sum.split prod.split handshake.split)

lemma connect_stream_logs:
  "\<exists>r w' es. connect_stream env net u config w = (r, w') \<and> connect_stream env (logged net) u config (w, l) = (r, w', l @ es) \<and>
     (\<forall>e \<in> set es. direct_event env config u e) \<and> filter is_request es = []"
proof (cases "validate_proxy config")
  case (Inl m)
  then show ?thesis by (simp add: connect_stream_def)
next
  case (Inr x)
  let ?host = "unwrap_or (u_host u) []"
  define pr where "pr = (case effective_proxy config ?host of Some p \<Rightarrow> map_sum id Some (parse_proxy_url p) | None \<Rightarrow> Inr None)"
  show ?thesis
  proof (cases pr)
    case (Inl e)
    then show ?thesis using Inr by (simp add: connect_stream_def Let_def flip: pr_def)
  next
    case proxy: (Inr proxy)
    let ?addr = "connect_address proxy config ?host (target_port u)"
    obtain t w1 where tcp: "n_tcp net ?addr w = (t, w1)" by fastforce
    have ev: "direct_event env config u (Dialed ?addr)"
      using proxy by (auto simp: direct_event_def pr_def map_sum_def split: option.splits sum.splits)
    show ?thesis
    proof (cases "\<exists>peer sock. t = Inr (peer, sock) \<and> \<not> n_late net (config_timeout config) w w1")
      case False
      then show ?thesis using Inr proxy tcp ev
        by (cases t) (auto simp: connect_stream_def Let_def simp flip: pr_def)
    next
      case True
      then obtain peer sock where t: "t = Inr (peer, sock)" and late: "\<not> n_late net (config_timeout config) w w1" by blast
      let ?ip = "if proxy \<noteq> None then None else peer"
      obtain r s w2 where hs: "(case proxy of None \<Rightarrow> (Inr (), sock, w1)
          | Some p \<Rightarrow> (case proxy_handshake p ?host (target_port u) sock of (r, t) \<Rightarrow>
              (if n_late net (config_timeout config) w1 (n_pass net w1)
               then Inl (Client (err_timeout ((case px_scheme p of
                   ProxyHttp \<Rightarrow> ''proxy CONNECT to '' @ ?host @ '':'' @ show_nat (unat (target_port u))
                 | ProxySocks5 \<Rightarrow> ''SOCKS5 handshake'') @ '' timed out after '' @
                   show_nat (unat (config_timeout config)) @ ''s''))) else r, t, n_pass net w1))) = (r, s, w2)"
        using prod_cases3 by blast
      have hs': "(case proxy of None \<Rightarrow> (Inr (), sock, (w1, l'))
          | Some p \<Rightarrow> (case proxy_handshake p ?host (target_port u) sock of (r, t) \<Rightarrow>
              (if n_late (logged net) (config_timeout config) (w1, l') (n_pass (logged net) (w1, l'))
               then Inl (Client (err_timeout ((case px_scheme p of
                   ProxyHttp \<Rightarrow> ''proxy CONNECT to '' @ ?host @ '':'' @ show_nat (unat (target_port u))
                 | ProxySocks5 \<Rightarrow> ''SOCKS5 handshake'') @ '' timed out after '' @
                   show_nat (unat (config_timeout config)) @ ''s''))) else r, t, n_pass (logged net) (w1, l')))) = (r, s, w2, l')" for l'
        using hs by (cases proxy) (auto split: prod.splits)
      obtain r' w' where tl: "tls_layer env net config ?host s ?ip w2 = (r', w')"
        "tls_layer env (logged net) config ?host s ?ip (w2, l @ [Dialed ?addr]) = (r', w', l @ [Dialed ?addr])"
        using tls_layer_logs [of env net config ?host s ?ip w2 "l @ [Dialed ?addr]"] by blast
      show ?thesis
        using Inr proxy tcp t late ev tl
        by (cases r) (auto simp: connect_stream_def Let_def hs hs' simp flip: pr_def)
    qed
  qed
qed

lemma dispatch_direct_logs:
  "\<exists>r w' es. dispatch_direct env net u config w = (r, w') \<and> dispatch_direct env (logged net) u config (w, l) = (r, w', l @ es) \<and>
     (\<forall>e \<in> set es. direct_event env config u e) \<and> length (filter is_request es) \<le> 1"
proof -
  obtain r w1 es where c: "connect_stream env net u config w = (r, w1)"
    "connect_stream env (logged net) u config (w, l) = (r, w1, l @ es)"
    "\<forall>e \<in> set es. direct_event env config u e" "filter is_request es = []"
    using connect_stream_logs [of env net u config w l] by blast
  show ?thesis
  proof (cases r)
    case (Inl e)
    with c show ?thesis by (auto simp: dispatch_direct_def)
  next
    case (Inr stream)
    let ?h2 = "op_alpn stream = Some ''h2''"
    show ?thesis
    proof (cases "?h2 \<and> rc_request_target config \<noteq> None")
      case True
      with c Inr show ?thesis by (auto simp: dispatch_direct_def)
    next
      case False
      obtain hr w2 where h: "n_handshake net ?h2 w1 = (hr, w2)" by fastforce
      define ru where "ru = (case rc_request_target config of
          Some rt \<Rightarrow> lift_err (\<lambda>e. Client (err_invalid_url (''invalid request_target '' @ [CHR 0x27] @ rt @ [CHR 0x27] @ '': '' @ e)))
            (l_uri_parse (e_http env) rt)
        | None \<Rightarrow> Inr u)"
      show ?thesis
      proof (cases "\<exists>v req. hr = None \<and> ru = Inr v \<and>
          build_request (e_http env) v config (\<not> ?h2 \<and> rc_request_target config = None) (\<not> ?h2) None = Inr req")
        case True
        then obtain v req where v: "hr = None" "ru = Inr v"
          "build_request (e_http env) v config (\<not> ?h2 \<and> rc_request_target config = None) (\<not> ?h2) None = Inr req" by blast
        obtain x w3 where snd: "n_send net ?h2 req w2 = (x, w3)" by fastforce
        have b: "(if ?h2 then build_request (e_http env) v config False False None
            else build_request (e_http env) v config (rc_request_target config = None) True None) = Inr req"
          using v(3) by (cases ?h2) simp_all
        have ev: "direct_event env config u (Sent ?h2 req)"
          using v False by (auto simp: direct_event_def ru_def split: option.splits)
        show ?thesis
          using c Inr False h v(1,2) snd b ev
          by (simp add: dispatch_direct_def Let_def flip: ru_def)
      next
        case fails: False
        show ?thesis
        proof (cases hr)
          case (Some e)
          with c Inr False h show ?thesis by (simp add: dispatch_direct_def Let_def)
        next
          case None
          note hr = None
          show ?thesis
          proof (cases ru)
            case (Inl e)
            with c \<open>r = Inr stream\<close> False h hr show ?thesis by (simp add: dispatch_direct_def Let_def flip: ru_def)
          next
            case v: (Inr v)
            obtain e where "(if ?h2 then build_request (e_http env) v config False False None
                else build_request (e_http env) v config (rc_request_target config = None) True None) = Inl e"
              using fails hr v
              by (cases "if ?h2 then build_request (e_http env) v config False False None
                else build_request (e_http env) v config (rc_request_target config = None) True None")
                (auto split: if_splits)
            with c \<open>r = Inr stream\<close> False h hr v show ?thesis by (simp add: dispatch_direct_def Let_def flip: ru_def)
          qed
        qed
      qed
    qed
  qed
qed

text \<open>What one attempt may do, on the fresh-connection path or in the redirect loop.\<close>

definition attempt_event :: "env \<Rightarrow> 'w net \<Rightarrow> request_config \<Rightarrow> client_cache \<Rightarrow> 'w \<Rightarrow> event \<Rightarrow> bool" where
  "attempt_event env net config cache w e \<longleftrightarrow>
     (\<exists>u. l_uri_parse (e_http env) (sanitize_uri (rc_url config)) = Inr u \<and>
        (if direct_request config then direct_event env config u e else loop_event env net config u cache w e))"

definition attempt_events :: "env \<Rightarrow> 'w net \<Rightarrow> request_config \<Rightarrow> client_cache \<Rightarrow> 'w \<Rightarrow> nat \<Rightarrow> event list \<Rightarrow> bool" where
  "attempt_events env net config cache w n es \<longleftrightarrow> (\<forall>e \<in> set es. attempt_event env net config cache w e) \<and> length (filter is_request es) \<le> n"

lemma send_inner_logs:
  "logs (attempt_events env net config cache w (Suc (unat (redirect_limit config)))) l
     (send_inner env net config cache w) (send_inner env (logged net) config cache (w, l))"
proof (cases "l_uri_parse (e_http env) (sanitize_uri (rc_url config))")
  case (Inl e)
  then show ?thesis by (simp add: send_inner_def logs_def attempt_events_def)
next
  case (Inr u)
  show ?thesis
  proof (cases "direct_request config")
    case True
    obtain r w' es where d: "dispatch_direct env net u config w = (r, w')"
      "dispatch_direct env (logged net) u config (w, l) = (r, w', l @ es)"
      "\<forall>e \<in> set es. direct_event env config u e" "length (filter is_request es) \<le> 1"
      using dispatch_direct_logs [of env net u config w l] by blast
    then show ?thesis using Inr True
      by (auto simp: send_inner_def logs_def attempt_events_def attempt_event_def direct_request_def finish_response_def
          split: sum.split)
  next
    case False
    have "logs (loop_events env net config u cache w (Suc (unat (redirect_limit config)))) l
      (redirect_loop env net config (initial_loop config u) cache w)
      (redirect_loop env (logged net) config (initial_loop config u) cache (w, l))"
      by (rule redirect_loop_logs)
    with Inr False show ?thesis
      by (auto simp: send_inner_def logs_def attempt_events_def attempt_event_def direct_request_def loop_events_def initial_loop_def)
  qed
qed

definition is_sleep :: "event \<Rightarrow> bool" where
  "is_sleep e = (case e of Slept _ \<Rightarrow> True | _ \<Rightarrow> False)"

lemma retry_backoff_le: "retry_backoff a mn mx \<le> mx"
  by (simp add: retry_backoff_def Let_def)

text \<open>The world at the start of an attempt: after the pause, from the second attempt on.\<close>

definition attempt_start :: "'w net \<Rightarrow> request_config \<Rightarrow> nat \<Rightarrow> 'w \<Rightarrow> 'w" where
  "attempt_start net config attempt w = (if attempt > 0 then n_sleep net (retry_backoff (of_nat (attempt - 1))
     (wait_ns (retry_wait_min config)) (wait_ns (retry_wait_max config))) w else w)"

text \<open>What follows an attempt: the result to return, or the error to go on with.\<close>

definition attempt_verdict ::
  "'w net \<Rightarrow> request_config \<Rightarrow> nat \<Rightarrow> 'w \<Rightarrow> 'w \<Rightarrow> failure + response \<Rightarrow> (failure + response) + failure" where
  "attempt_verdict net config attempt w w' r =
     (if n_late net (config_timeout config) w w'
      then Inl (Inl (Client (err_timeout (''request timed out after '' @ show_nat (unat (config_timeout config)) @ ''s''))))
      else (case r of
          Inr resp \<Rightarrow>
            if is_retryable (Status (rs_status resp)) \<and> attempt < unat (max_retries config)
            then Inr (Client (err_status (rs_status resp) (''server returned '' @ show_nat (unat (rs_status resp)) @
                    '' for '' @ rc_url config)))
            else Inl (Inr resp)
        | Inl e \<Rightarrow>
            if (case failure_kind e of Some k \<Rightarrow> is_retryable k | None \<Rightarrow> False) \<and> attempt < unat (max_retries config)
            then Inr e else Inl (Inl e)))"

text \<open>The attempts of a call from the \<open>k\<close>-th on: the pool and the world each starts with.\<close>

inductive attempt_starts ::
  "env \<Rightarrow> 'w net \<Rightarrow> request_config \<Rightarrow> nat \<Rightarrow> client_cache \<Rightarrow> 'w \<Rightarrow> client_cache \<Rightarrow> 'w \<Rightarrow> bool"
  for env net config where
  this_one: "attempt_starts env net config k cache w cache (attempt_start net config k w)"
| later: "send_inner env net config cache (attempt_start net config k w) = (r, cache', w') \<Longrightarrow>
    attempt_verdict net config k (attempt_start net config k w) w' r = Inr e \<Longrightarrow>
    attempt_starts env net config (k + 1) cache' w' cache0 w0 \<Longrightarrow> attempt_starts env net config k cache w cache0 w0"

text \<open>
  The events of a call from its \<open>k\<close>-th attempt on, with \<open>n\<close> attempts left: pauses within the maximum,
  and those of the attempts.
\<close>

definition send_event :: "env \<Rightarrow> 'w net \<Rightarrow> request_config \<Rightarrow> nat \<Rightarrow> client_cache \<Rightarrow> 'w \<Rightarrow> event \<Rightarrow> bool" where
  "send_event env net config k cache w e = (case e of
       Slept d \<Rightarrow> d \<le> wait_ns (retry_wait_max config)
     | _ \<Rightarrow> \<exists>cache0 w0. attempt_starts env net config k cache w cache0 w0 \<and> attempt_event env net config cache0 w0 e)"

definition send_events ::
  "env \<Rightarrow> 'w net \<Rightarrow> request_config \<Rightarrow> nat \<Rightarrow> client_cache \<Rightarrow> 'w \<Rightarrow> nat \<Rightarrow> nat \<Rightarrow> event list \<Rightarrow> bool" where
  "send_events env net config k cache w n m es \<longleftrightarrow> (\<forall>e \<in> set es. send_event env net config k cache w e) \<and>
     length (filter is_request es) \<le> n * Suc (unat (redirect_limit config)) \<and> length (filter is_sleep es) \<le> m"

lemma attempt_not_sleep:
  fixes net :: "'w net"
  shows "attempt_event env net config cache w e \<Longrightarrow> \<not> is_sleep e"
  by (auto simp: attempt_event_def direct_event_def loop_event_def hop_event_def is_sleep_def split: event.splits if_splits)

lemma attempt_send_events:
  assumes "attempt_events env net config cache (attempt_start net config k w) (Suc (unat (redirect_limit config))) es" "0 < n"
  shows "send_events env net config k cache w n m es"
proof -
  have ev: "\<not> is_sleep e \<and> attempt_event env net config cache (attempt_start net config k w) e" if "e \<in> set es" for e
    using assms(1) that attempt_not_sleep [of env net config cache "attempt_start net config k w" e] by (auto simp: attempt_events_def)
  then have "filter is_sleep es = []" by (simp add: filter_empty_conv)
  moreover have "Suc (unat (redirect_limit config)) \<le> n * Suc (unat (redirect_limit config))"
    using assms(2) by (cases n) simp_all
  moreover have "send_event env net config k cache w e" if "e \<in> set es" for e
    using ev [OF that] attempt_starts.this_one [of env net config k cache w]
    by (cases e) (auto simp: send_event_def is_sleep_def)
  ultimately show ?thesis using assms(1) by (auto simp: send_events_def attempt_events_def)
qed

lemma send_events_append:
  "send_events env net config k cache w n m es \<Longrightarrow> send_events env net config k cache w n' m' es' \<Longrightarrow>
     send_events env net config k cache w (n + n') (m + m') (es @ es')"
  by (auto simp: send_events_def algebra_simps)

lemma send_events_later:
  assumes "send_inner env net config cache (attempt_start net config k w) = (r, cache', w')"
    "attempt_verdict net config k (attempt_start net config k w) w' r = Inr e"
    "send_events env net config (k + 1) cache' w' n m es"
  shows "send_events env net config k cache w n m es"
proof -
  have "send_event env net config k cache w e" if "send_event env net config (k + 1) cache' w' e" for e
    using that attempt_starts.later [OF assms(1,2)] by (cases e) (auto simp: send_event_def)
  then show ?thesis using assms(3) by (simp add: send_events_def)
qed

lemma attempt_start_logs:
  "\<exists>es. attempt_start (logged net) config attempt (w, l) = (attempt_start net config attempt w, l @ es) \<and>
     send_events env net config attempt cache w 0 (min 1 attempt) es"
  by (auto simp: attempt_start_def send_events_def send_event_def is_sleep_def retry_backoff_le)

lemma send_loop_verdict:
  assumes "attempt \<le> unat (max_retries config)"
    "send_inner env net config cache (attempt_start net config attempt w) = (r, cache', w')"
  shows "send_loop env net config attempt err cache w =
    (case attempt_verdict net config attempt (attempt_start net config attempt w) w' r of
       Inl r \<Rightarrow> (r, cache', w') | Inr e \<Rightarrow> send_loop env net config (attempt + 1) (Some e) cache' w')"
  using assms
  by (simp add: send_loop.simps [of env net config attempt] attempt_start_def [symmetric] attempt_verdict_def Let_def
      split: sum.split)

lemma attempt_verdict_more:
  "attempt_verdict net config attempt w w' r = Inr e \<Longrightarrow> attempt < unat (max_retries config)"
  by (auto simp: attempt_verdict_def split: if_splits sum.splits)

lemma send_loop_logs:
  "attempt \<le> unat (max_retries config) \<Longrightarrow>
   logs (send_events env net config attempt cache w (Suc (unat (max_retries config)) - attempt) (Suc (unat (max_retries config)) - max 1 attempt)) l
     (send_loop env net config attempt err cache w) (send_loop env (logged net) config attempt err cache (w, l))"
proof (induction "Suc (unat (max_retries config)) - attempt" arbitrary: attempt err cache w l rule: less_induct)
  case less
  let ?n = "unat (max_retries config)"
  let ?w = "attempt_start net config attempt w"
  obtain es1 where s: "attempt_start (logged net) config attempt (w, l) = (?w, l @ es1)"
    "send_events env net config attempt cache w 0 (min 1 attempt) es1"
    using attempt_start_logs [of net config attempt w l env cache] by blast
  obtain r c w' es2 where i: "send_inner env net config cache ?w = (r, c, w')"
    "send_inner env (logged net) config cache (?w, l @ es1) = (r, c, w', (l @ es1) @ es2)"
    and e2: "attempt_events env net config cache ?w (Suc (unat (redirect_limit config))) es2"
    using send_inner_logs [of env net config cache ?w "l @ es1"] by (auto simp: logs_def)
  have i': "send_inner env (logged net) config cache (attempt_start (logged net) config attempt (w, l)) = (r, c, w', (l @ es1) @ es2)"
    using i(2) s(1) by simp
  have v: "attempt_verdict (logged net) config attempt (attempt_start (logged net) config attempt (w, l)) (w', (l @ es1) @ es2) r =
      attempt_verdict net config attempt ?w w' r" by (simp add: s(1) attempt_verdict_def)
  have e12: "send_events env net config attempt cache w 1 (min 1 attempt) (es1 @ es2)"
    using send_events_append [OF s(2) attempt_send_events [OF e2, of 1 0]] by simp
  note plain = send_loop_verdict [OF less.prems i(1), of err]
  note run = send_loop_verdict [OF less.prems i', of err, unfolded v]
  show ?case
  proof (cases "attempt_verdict net config attempt ?w w' r")
    case (Inl x)
    have "send_events env net config attempt cache w (Suc ?n - attempt) (Suc ?n - max 1 attempt) (es1 @ es2)"
      using e12 less.prems by (auto simp: send_events_def Suc_diff_le)
    with Inl plain run show ?thesis by (simp add: logs_def)
  next
    case (Inr e)
    then have lt: "attempt < ?n" by (rule attempt_verdict_more)
    have "logs (send_events env net config (attempt + 1) c w' (Suc ?n - (attempt + 1)) (Suc ?n - max 1 (attempt + 1))) ((l @ es1) @ es2)
     (send_loop env net config (attempt + 1) (Some e) c w') (send_loop env (logged net) config (attempt + 1) (Some e) c (w', (l @ es1) @ es2))"
      by (rule less.hyps) (use lt in auto)
    then obtain r' c' w'' es3 where y: "send_loop env net config (attempt + 1) (Some e) c w' = (r', c', w'')"
      "send_loop env (logged net) config (attempt + 1) (Some e) c (w', (l @ es1) @ es2) = (r', c', w'', ((l @ es1) @ es2) @ es3)"
      "send_events env net config (attempt + 1) c w' (?n - attempt) (?n - attempt) es3" by (auto simp: logs_def)
    have "1 + (?n - attempt) = Suc ?n - attempt" "min 1 attempt + (?n - attempt) = Suc ?n - max 1 attempt"
      using lt by auto
    with send_events_append [OF e12 send_events_later [OF i(1) Inr y(3)]]
    have "send_events env net config attempt cache w (Suc ?n - attempt) (Suc ?n - max 1 attempt) ((es1 @ es2) @ es3)" by metis
    with plain run Inr y(1,2) show ?thesis by (auto simp: logs_def)
  qed
qed

lemma send_logs:
  "logs (send_events env net config 0 cache w (Suc (unat (max_retries config))) (unat (max_retries config))) l
     (send env net config cache w) (send env (logged net) config cache (w, l))"
  using send_loop_logs [of 0 config env net cache w l None]
  by (auto simp: send_def logs_def send_events_def split: sum.split)

end
