(* ===== verification/Http_Pool.thy ===== *)
theory Http_Pool
  imports Http_Trace
begin

text \<open>
  The pool of clients across requests, and what a call of \<open>send\<close> promises: which TLS settings a pooled
  client has, what the client does to the network, which attempt's outcome is returned and what the
  redirect chain of a response looks like.
\<close>

section \<open>The pool\<close>

lemma build_ssl_key: "tls_key_of c = tls_key_of c' \<Longrightarrow> build_ssl os c d = build_ssl os c' d"
  by (simp add: build_ssl_def tls_key_of_def)

text \<open>
  The pool as any interleaving of requests changes it: a client is looked up or built for a request
  to some URI, or the connector of a client fills its slots.
\<close>

inductive pool_reach :: "env \<Rightarrow> client_cache \<Rightarrow> bool" for env where
  pool_empty: "pool_reach env Map.empty"
| pool_client: "pool_reach env cache \<Longrightarrow> conn_mode_for (e_http env) config u = Inr mode \<Longrightarrow>
    get_or_build env config mode cache = Inr (cached, cache') \<Longrightarrow> pool_reach env cache'"
| pool_slots: "pool_reach env cache \<Longrightarrow> cache mode = Some cached \<Longrightarrow>
    pool_reach env (cache(mode \<mapsto> cached\<lparr>cc_slots := s\<rparr>))"

definition mode_key :: "conn_mode \<Rightarrow> tls_key option" where
  "mode_key mode = (case mode of Direct k \<Rightarrow> Some k | ForwardProxy _ \<Rightarrow> None | Tunnel _ k \<Rightarrow> Some k | Socks5 _ k \<Rightarrow> Some k)"

definition client_fits :: "env \<Rightarrow> conn_mode \<Rightarrow> cached_client \<Rightarrow> bool" where
  "client_fits env mode cached \<longleftrightarrow> (\<exists>config. mode_key mode = Some (tls_key_of config) \<and>
     connector_new (e_openssl env) config = Inr (cc_connector cached))"

lemma conn_mode_key: "conn_mode_for lib config u = Inr mode \<Longrightarrow> mode_key mode \<in> {None, Some (tls_key_of config)}"
  by (auto simp: conn_mode_for_def mode_key_def and_then_eq_Inr Let_def split: option.splits if_splits)

lemma get_or_build_fresh:
  assumes "get_or_build env config mode cache = Inr (cached, cache')" "cache mode = None"
  shows "connector_new (e_openssl env) config = Inr (cc_connector cached) \<and> cache' = cache(mode \<mapsto> cached) \<and>
    (\<forall>p. mode \<noteq> ForwardProxy p)"
  using assms by (auto simp: get_or_build_def and_then_eq_Inr Let_def split: conn_mode.splits)

lemma get_or_build_cached: "cache mode = Some cached \<Longrightarrow> get_or_build env config mode cache = Inr (cached, cache)"
  by (simp add: get_or_build_def)

lemma get_or_build_entry: "get_or_build env config mode cache = Inr (cached, cache') \<Longrightarrow> cache' mode = Some cached"
  by (cases "cache mode") (auto simp: get_or_build_cached dest: get_or_build_fresh)

lemma get_or_build_fits:
  assumes "conn_mode_for (e_http env) config u = Inr mode" "get_or_build env config mode cache = Inr (cached, cache')"
    "cache mode = None"
  shows "client_fits env mode cached"
proof -
  have "mode_key mode = Some (tls_key_of config)"
    using conn_mode_key [OF assms(1)] get_or_build_fresh [OF assms(2,3)] by (auto simp: mode_key_def split: conn_mode.splits)
  with get_or_build_fresh [OF assms(2,3)] show ?thesis by (auto simp: client_fits_def)
qed

lemma pool_reach_fits: "pool_reach env cache \<Longrightarrow> cache mode = Some cached \<Longrightarrow> client_fits env mode cached"
proof (induction arbitrary: mode cached rule: pool_reach.induct)
  case (pool_client cache config u m cl cache')
  show ?case
  proof (cases "cache m")
    case None
    with pool_client get_or_build_fresh [OF pool_client.hyps(3) None] get_or_build_fits [OF pool_client.hyps(2,3) None]
    show ?thesis by (cases "mode = m") auto
  next
    case (Some x)
    with pool_client show ?thesis by (simp add: get_or_build_cached)
  qed
next
  case (pool_slots cache m cl s)
  then show ?case by (cases "mode = m") (auto simp: client_fits_def)
qed simp

lemma hop_exchange_pool: "pool_reach env cache \<Longrightarrow> pool_reach env (fst (snd (hop_exchange env net config u rc cache w)))"
proof (cases "conn_mode_for (e_http env) config u")
  case (Inr mode)
  assume p: "pool_reach env cache"
  have pooled: "pool_reach env (fst (snd (case get_or_build env config mode cache of Inl e \<Rightarrow> (Inl e, cache, w)
        | Inr (cached, cache) \<Rightarrow> (case dispatch_request env net mode cached u config rc cache w of
             (r, cache, w) \<Rightarrow> (map_sum id (\<lambda>resp. (resp, Some mode)) r, cache, w)))))"
  proof (cases "get_or_build env config mode cache")
    case built: (Inr cc)
    obtain cached cache' where cc: "cc = (cached, cache')" by fastforce
    have "pool_reach env cache'" by (rule pool_client [OF p Inr built [unfolded cc]])
    with pool_slots [OF this get_or_build_entry [OF built [unfolded cc]]] show ?thesis
      by (auto simp: built cc dispatch_request_def split: sum.split prod.split)
  qed (simp add: p)
  show ?thesis
  proof (cases mode)
    case (Direct t)
    show ?thesis using pooled [unfolded Direct] by (simp add: hop_exchange_def Inr Direct)
  next
    case (ForwardProxy q)
    then show ?thesis using p by (auto simp: hop_exchange_def Inr split: prod.split)
  next
    case (Tunnel q t)
    show ?thesis using pooled [unfolded Tunnel] by (simp add: hop_exchange_def Inr Tunnel)
  next
    case (Socks5 q t)
    show ?thesis using pooled [unfolded Socks5] by (simp add: hop_exchange_def Inr Socks5)
  qed
qed (simp add: hop_exchange_def)

lemma redirect_loop_pool:
  assumes "pool_reach env cache"
  shows "pool_reach env (fst (snd (redirect_loop env net config lp cache w)))"
proof -
  have step: "hop_exchange env net config u hc cache w = (r, cache', w') \<Longrightarrow> pool_reach env cache \<Longrightarrow> pool_reach env cache'"
    for cache u hc w r cache' w'
    using hop_exchange_pool [of env cache net config u hc w] by simp
  show ?thesis
    by (rule redirect_loop_cases [of "\<lambda>_ cache _. pool_reach env cache" lp cache w env net config])
      (use assms step in auto)
qed

lemma send_inner_pool: "pool_reach env cache \<Longrightarrow> pool_reach env (fst (snd (send_inner env net config cache w)))"
  by (auto simp: send_inner_def redirect_loop_pool split: sum.split prod.split)

lemma send_loop_pool:
  fixes net :: "'w net" and w :: 'w
  shows "pool_reach env cache \<Longrightarrow> pool_reach env (fst (snd (send_loop env net config attempt err cache w)))"
proof (induction "Suc (unat (max_retries config)) - attempt" arbitrary: attempt err cache w rule: less_induct)
  case (less attempt err cache w)
  let ?w = "attempt_start net config attempt w"
  obtain r c w' where i: "send_inner env net config cache ?w = (r, c, w')" using prod_cases3 by blast
  have c: "pool_reach env c" using send_inner_pool [OF less.prems, of net config ?w] i by simp
  show ?case
  proof (cases "attempt \<le> unat (max_retries config)")
    case True
    show ?thesis using less.hyps [of "attempt + 1" c] c True
      by (auto simp: send_loop_verdict [OF True i] split: sum.split)
  qed (simp add: send_loop.simps [of env net config attempt] less.prems)
qed

lemma send_pool: "pool_reach env cache \<Longrightarrow> pool_reach env (fst (snd (send env net config cache w)))"
  by (auto simp: send_def send_loop_pool split: sum.split)

text \<open>
  The connect timeout of a client is that of the request that built it: the cache key has the TLS
  settings only, so a later request with another timeout gets the client as it is.
\<close>

lemma pool_keeps_connect_timeout:
  assumes "get_or_build env config mode cache = Inr (cached, cache')" "cache mode = None"
  shows "get_or_build env (config\<lparr>rc_timeout_seconds := t\<rparr>) mode cache' = Inr (cached, cache') \<and>
    conn_mode_for lib (config\<lparr>rc_timeout_seconds := t\<rparr>) u = conn_mode_for lib config u \<and>
    cn_connect_timeout (cc_connector cached) = config_timeout config"
  using get_or_build_fresh [OF assms]
  by (auto simp: get_or_build_cached conn_mode_for_def tls_key_of_def effective_proxy_def should_verify_certs_def
      connector_new_def and_then_eq_Inr Let_def cong: option.case_cong) (metis connector.select_convs(2))

text \<open>
  The certificate slot of a client is not cleared: connections in plain HTTP leave it as it was, and
  the response that comes over them reports the certificate of an earlier HTTPS host.
\<close>

lemma record_events_plain:
  "\<forall>(u, _) \<in> set es. u_scheme u \<noteq> Some ''https'' \<Longrightarrow> sl_cert (record_events os cn es s) = sl_cert s"
  by (induction os cn es s rule: record_events.induct)
    (auto simp: connector_call_def record_peer_def Let_def split: sum.split option.split)

lemma plain_http_keeps_cert:
  assumes "cache (Direct k) = Some cached" "conn_mode_for (e_http env) config u = Inr (Direct k)"
    "hop_exchange env net config u rc cache w = (Inr (resp, used), cache', w')"
    "build_request (e_http env) u config False False rc = Inr req"
    "n_pool net (Direct k) (cc_connector cached) req w = ((wire, events), w1)"
    "\<forall>(v, _) \<in> set events. u_scheme v \<noteq> Some ''https''"
  shows "cert_of_hop cache' used = sl_cert (cc_slots cached)"
  using assms
  by (auto simp: hop_exchange_def get_or_build_cached dispatch_request_def cert_of_hop_def slots_of_def
      record_events_plain map_sum_def split: sum.splits)

section \<open>The redirect chain of a response\<close>

text \<open>Hops from one URI to another: each a redirect, each next URI what some \<open>Location\<close> resolves to.\<close>

fun chain_from :: "http_lib \<Rightarrow> uri \<Rightarrow> redirect_hop list \<Rightarrow> uri \<Rightarrow> bool" where
  "chain_from lib u [] v \<longleftrightarrow> u = v"
| "chain_from lib u (h # hs) v \<longleftrightarrow> hop_url h = l_uri_show lib u \<and> is_redirect (hop_status h) \<and>
     (\<exists>location next. resolve_redirect lib u location = Inr next \<and> chain_from lib next hs v)"

lemma chain_from_snoc:
  "chain_from lib u (hs @ [h]) v \<longleftrightarrow> (\<exists>m location. chain_from lib u hs m \<and> hop_url h = l_uri_show lib m \<and>
     is_redirect (hop_status h) \<and> resolve_redirect lib m location = Inr v)"
  by (induction hs arbitrary: u) auto

definition chain_inv_from :: "env \<Rightarrow> request_config \<Rightarrow> uri \<Rightarrow> loop_state \<Rightarrow> bool" where
  "chain_inv_from env config u lp \<longleftrightarrow> chain_from (e_http env) u (lp_chain lp) (lp_uri lp) \<and>
     length (lp_chain lp) = unat (lp_hops lp) \<and> lp_hops lp \<le> redirect_limit config \<and>
     (lp_chain lp \<noteq> [] \<longrightarrow> should_follow_redirects config)"

lemma chain_inv_from_follow:
  assumes "chain_inv_from env config u lp" "is_redirect (sr_status resp)" "should_follow_redirects config"
    "follow_redirect env config now resp peer_ip lp = Inr lp'"
  shows "chain_inv_from env config u lp'"
  using assms follow_redirect_Inr [OF assms(4)] by (auto simp: chain_inv_from_def chain_from_snoc)

definition response_of :: "env \<Rightarrow> request_config \<Rightarrow> response \<Rightarrow> bool" where
  "response_of env config resp \<longleftrightarrow>
     (\<exists>u v. l_uri_parse (e_http env) (sanitize_uri (rc_url config)) = Inr u \<and>
        chain_from (e_http env) u (rs_redirect_chain resp) v \<and> rs_url resp = l_uri_show (e_http env) v) \<and>
     length (rs_redirect_chain resp) \<le> unat (redirect_limit config) \<and>
     (rs_redirect_chain resp \<noteq> [] \<longrightarrow> should_follow_redirects config \<and> \<not> direct_request config) \<and>
     (is_redirect (rs_status resp) \<longrightarrow> \<not> should_follow_redirects config \<or> direct_request config) \<and>
     rs_request_url resp = rc_url config \<and> rs_request_method resp = config_method config"

lemma send_inner_response:
  assumes "send_inner env net config cache w = (Inr resp, cache', w')"
  shows "response_of env config resp"
proof (cases "l_uri_parse (e_http env) (sanitize_uri (rc_url config))")
  case (Inl e)
  then show ?thesis using assms by (simp add: send_inner_def)
next
  case (Inr u)
  show ?thesis
  proof (cases "direct_request config")
    case True
    then show ?thesis using assms Inr
      by (auto simp: send_inner_def direct_request_def response_of_def finish_response_def split: sum.splits prod.splits)
  next
    case False
    have eq: "redirect_loop env net config (initial_loop config u) cache w = (Inr resp, cache', w')"
      using assms Inr False by (simp add: send_inner_def direct_request_def)
    show ?thesis
    proof (rule redirect_loop_cases [of "\<lambda>lp _ _. chain_inv_from env config u lp" "initial_loop config u" cache w env net config])
      show "chain_inv_from env config u (initial_loop config u)"
        by (simp add: chain_inv_from_def initial_loop_def)
      show "chain_inv_from env config u lp'"
        if "chain_inv_from env config u lp" "is_redirect (sr_status resp)" "should_follow_redirects config"
          "follow_redirect env config (n_now net w') resp (peer_ip_of_hop cache' used (lp_uri lp)) lp = Inr lp'"
        for lp resp used cache' w' lp'
        using that by (rule chain_inv_from_follow)
    qed (use eq Inr False in \<open>auto simp: response_of_def chain_inv_from_def finish_response_def word_le_nat_alt\<close>)
  qed
qed

section \<open>The attempts of a call\<close>

text \<open>The pool and the world after so many attempts, each one tried whatever the last one gave.\<close>

primrec after_attempts :: "env \<Rightarrow> 'w net \<Rightarrow> request_config \<Rightarrow> client_cache \<Rightarrow> 'w \<Rightarrow> nat \<Rightarrow> client_cache \<times> 'w" where
  "after_attempts env net config cache w 0 = (cache, w)"
| "after_attempts env net config cache w (Suc n) =
     (case after_attempts env net config cache w n of (cache, w) \<Rightarrow>
        snd (send_inner env net config cache (attempt_start net config n w)))"

definition verdict_of :: "env \<Rightarrow> 'w net \<Rightarrow> request_config \<Rightarrow> client_cache \<Rightarrow> 'w \<Rightarrow> nat \<Rightarrow> (failure + response) + failure" where
  "verdict_of env net config cache w n =
     (case after_attempts env net config cache w n of (cache, w) \<Rightarrow>
      case send_inner env net config cache (attempt_start net config n w) of (r, _, w') \<Rightarrow>
        attempt_verdict net config n (attempt_start net config n w) w' r)"

lemma send_loop_first_final:
  assumes "after_attempts env net config cache w k = (ck, wk)" "k \<le> unat (max_retries config)"
  shows "\<exists>n r. k \<le> n \<and> n \<le> unat (max_retries config) \<and> (\<forall>i. k \<le> i \<and> i < n \<longrightarrow> (\<exists>e. verdict_of env net config cache w i = Inr e)) \<and>
    verdict_of env net config cache w n = Inl r \<and>
    send_loop env net config k err ck wk = (r, after_attempts env net config cache w (Suc n))"
  using assms
proof (induction "Suc (unat (max_retries config)) - k" arbitrary: k err ck wk rule: less_induct)
  case (less k err ck wk)
  let ?w = "attempt_start net config k wk"
  obtain r c w' where i: "send_inner env net config ck ?w = (r, c, w')" using prod_cases3 by blast
  have next_state: "after_attempts env net config cache w (Suc k) = (c, w')" by (simp add: less.prems(1) i)
  have v: "verdict_of env net config cache w k = attempt_verdict net config k ?w w' r"
    by (simp add: verdict_of_def less.prems(1) i)
  note loop = send_loop_verdict [OF less.prems(2) i, of err]
  show ?case
  proof (cases "attempt_verdict net config k ?w w' r")
    case (Inl x)
    then show ?thesis using less.prems(2) v next_state loop by (intro exI [of _ k]) auto
  next
    case (Inr e)
    then have lt: "k < unat (max_retries config)" by (rule attempt_verdict_more)
    have "Suc (unat (max_retries config)) - (k + 1) < Suc (unat (max_retries config)) - k"
      "after_attempts env net config cache w (k + 1) = (c, w')" "k + 1 \<le> unat (max_retries config)"
      using next_state lt by auto
    from less.hyps [OF this, of "Some e"] obtain n r where n: "k + 1 \<le> n" "n \<le> unat (max_retries config)"
      "\<forall>i. k + 1 \<le> i \<and> i < n \<longrightarrow> (\<exists>e. verdict_of env net config cache w i = Inr e)"
      "verdict_of env net config cache w n = Inl r"
      "send_loop env net config (k + 1) (Some e) c w' = (r, after_attempts env net config cache w (Suc n))"
      by blast
    moreover have "\<forall>i. k \<le> i \<and> i < n \<longrightarrow> (\<exists>e. verdict_of env net config cache w i = Inr e)"
      using n(3) v Inr by (metis Suc_eq_plus1 le_SucE le_antisym not_less_eq_eq)
    ultimately show ?thesis using loop Inr by (intro exI [of _ n] exI [of _ r]) (auto simp del: after_attempts.simps)
  qed
qed

lemma attempt_verdict_ok: "attempt_verdict net config n w w' r = Inl (Inr resp) \<Longrightarrow> r = Inr resp"
  by (auto simp: attempt_verdict_def split: if_splits sum.splits)

text \<open>What every attempt's response has, every response of \<open>send\<close> has.\<close>

lemma send_response_rule:
  assumes "send env net config cache w = (Inr resp, cache', w')"
    and "\<And>c w r d w'. send_inner env net config c w = (Inr r, d, w') \<Longrightarrow> P r"
  shows "P resp"
proof (cases "validate_proxy config")
  case (Inr x)
  obtain n where n: "verdict_of env net config cache w n = Inl (Inr resp)"
    using send_loop_first_final [of env net config cache w 0 cache w None] assms(1) by (auto simp: send_def Inr)
  obtain c v where a: "after_attempts env net config cache w n = (c, v)" by fastforce
  obtain r d v' where i: "send_inner env net config c (attempt_start net config n v) = (r, d, v')" using prod_cases3 by blast
  from n have "r = Inr resp" by (auto simp: verdict_of_def a i dest: attempt_verdict_ok)
  with i assms(2) show ?thesis by metis
qed (use assms(1) in \<open>simp add: send_def\<close>)

lemma send_response: "send env net config cache w = (Inr resp, cache', w') \<Longrightarrow> response_of env config resp"
  by (erule send_response_rule) (rule send_inner_response)

section \<open>Properties\<close>

text \<open>
  C1: What a call to \<open>send\<close> does to the network, and nothing else: at most one request per hop and
  attempt, so at most \<open>(max_retries + 1) * (redirect_limit + 1)\<close>, at most \<open>max_retries\<close> pauses and none
  longer than the maximum wait. Each request is made by a hop at the end of a path of redirects that
  this network really gave, from the call's own URL; it is the one \<open>build_request\<close> makes for the hop's URI
  and is sent through the pool or proxy that \<open>conn_mode_for\<close> decides for it. With \<open>resolve_ip\<close> or
  \<open>request_target\<close> there is one hop, and the address dialled is the forced one or the proxy.
\<close>

theorem send_observed:
  "\<exists>r cache' w' es. send env net config cache w = (r, cache', w') \<and>
     send env (logged net) config cache (w, []) = (r, cache', w', es) \<and>
     list_all (send_event env net config 0 cache w) es \<and>
     length (filter is_request es) \<le> (unat (max_retries config) + 1) * (unat (redirect_limit config) + 1) \<and>
     length (filter is_sleep es) \<le> unat (max_retries config)"
  using send_logs [of env net config cache w "[]"] by (simp add: logs_def send_events_def list_all_iff)

text \<open>
  C2: \<open>send\<close> returns what its first final attempt gave: attempts go on, each from the pool and the
  world the last one left, as long as the verdict is to retry, and no later than the last one allowed.
  A verdict to retry is exactly a result in time with a retryable status or error and an attempt left.
\<close>

theorem send_first_final:
  "(case validate_proxy config of
      Inl m \<Rightarrow> send env net config cache w = (Inl (Client (err_other m)), cache, w)
    | Inr _ \<Rightarrow> \<exists>n r. n \<le> unat (max_retries config) \<and>
        list_all (\<lambda>i. \<exists>e. verdict_of env net config cache w i = Inr e) [0..<n] \<and>
        verdict_of env net config cache w n = Inl r \<and>
        send env net config cache w = (r, after_attempts env net config cache w (n + 1)))"
proof (cases "validate_proxy config")
  case (Inr x)
  obtain n r where "n \<le> unat (max_retries config)" "\<forall>i < n. \<exists>e. verdict_of env net config cache w i = Inr e"
    "verdict_of env net config cache w n = Inl r"
    "send_loop env net config 0 None cache w = (r, after_attempts env net config cache w (Suc n))"
    using send_loop_first_final [of env net config cache w 0 cache w None] by auto
  moreover from this have "list_all (\<lambda>i. \<exists>e. verdict_of env net config cache w i = Inr e) [0..<n]"
    by (simp add: list_all_iff)
  ultimately show ?thesis unfolding Inr send_def sum.case Suc_eq_plus1 by blast
qed (simp add: send_def)

text \<open>
  C3: A response accounts for the redirects that led to it: its chain starts at the URL of the
  request, every entry is a redirect whose successor is what a \<open>Location\<close> resolved to, it ends at the
  response's own URL and is no longer than the limit. The response itself is a redirect only when
  following was off or the request went over a connection of its own.
\<close>

theorem send_redirect_chain:
  assumes "send env net config cache w = (Inr resp, cache', w')"
  shows "(\<exists>u v. l_uri_parse (e_http env) (sanitize_uri (rc_url config)) = Inr u \<and>
        chain_from (e_http env) u (rs_redirect_chain resp) v \<and> rs_url resp = l_uri_show (e_http env) v) \<and>
     length (rs_redirect_chain resp) \<le> unat (redirect_limit config) \<and>
     (rs_redirect_chain resp \<noteq> [] \<longrightarrow> should_follow_redirects config \<and> \<not> direct_request config) \<and>
     (is_redirect (rs_status resp) \<longrightarrow> \<not> should_follow_redirects config \<or> direct_request config) \<and>
     rs_request_url resp = rc_url config \<and> rs_request_method resp = config_method config"
  using send_response [OF assms] by (simp add: response_of_def)

text \<open>A network with one redirect, from \<open>a\<close> to \<open>b\<close>.\<close>

definition example_env :: env where
  "example_env = \<lparr>e_http = example_lib, e_openssl = example_openssl, e_decoders = (\<lambda>_ b. (b, None)), e_psl = example_psl\<rparr>"

definition example_net :: "unit net" where
  "example_net = \<lparr>
     n_pool = (\<lambda>m cn r w. ((Inr (if u_path (hq_uri r) = ''a''
       then \<lparr>wr_status = 302, wr_headers = [(''location'', str_bytes ''b'')], wr_body = []\<rparr>
       else \<lparr>wr_status = 200, wr_headers = [], wr_body = [Data [104, 105]]\<rparr>), []), w)),
     n_tcp = (\<lambda>a w. (Inl ''refused'', w)), n_tls = (\<lambda>c t w. (HandshakeTimeout, w)), n_pass = id,
     n_handshake = (\<lambda>h w. (None, w)), n_send = (\<lambda>h r w. (Inl ''closed'', w)), n_sleep = (\<lambda>d w. w),
     n_late = (\<lambda>s w w'. False), n_elapsed_ms = (\<lambda>w. 7), n_now = (\<lambda>w. 0)\<rparr>"

definition example_config :: request_config where
  "example_config = (config_new ''a'')\<lparr>rc_follow_redirects := Some True, rc_max_redirects := Some 3, rc_redirect_cookies := Some False\<rparr>"

lemma example_fields [simp]:
  "e_http example_env = example_lib" "e_openssl example_env = example_openssl" "e_decoders example_env = (\<lambda>_ b. (b, None))"
  "l_uri_parse example_lib s = Inr \<lparr>u_scheme = Some ''http'', u_authority = Some ''h'', u_host = Some ''h'',
      u_port = None, u_path = s, u_query = None\<rparr>"
  "l_uri_show example_lib = u_path" "l_to_str example_lib b = Some (bytes_str b)" "l_request_error example_lib method u hs = None"
  "n_pool example_net m cn r w = ((Inr (if u_path (hq_uri r) = ''a''
       then \<lparr>wr_status = 302, wr_headers = [(''location'', str_bytes ''b'')], wr_body = []\<rparr>
       else \<lparr>wr_status = 200, wr_headers = [], wr_body = [Data [104, 105]]\<rparr>), []), w)"
  "n_late example_net t w w' = False" "rc_max_body_size example_config = None" "rc_url example_config = ''a''"
  "max_retries example_config = 1" "should_follow_redirects example_config" "redirect_limit example_config = 3"
  "rc_resolve_ip example_config = None" "rc_request_target example_config = None"
  "validate_proxy example_config = Inr ()" "should_forward_redirect_cookies example_config = False"
  by (simp_all add: example_env_def example_lib_def example_net_def example_config_def config_new_def max_retries_def
      should_follow_redirects_def redirect_limit_def validate_proxy_def should_forward_redirect_cookies_def unwrap_or_def)

lemma example_mode [simp]:
  "conn_mode_for example_lib (example_config\<lparr>rc_timeout_seconds := t\<rparr>) u = Inr (Direct (tls_key_of example_config))"
  by (simp add: conn_mode_for_def effective_proxy_def example_config_def config_new_def tls_key_of_def
      should_verify_certs_def Let_def)

lemma example_client:
  "get_or_build example_env (example_config\<lparr>rc_timeout_seconds := t\<rparr>) (Direct (tls_key_of example_config)) Map.empty =
     (let cached = \<lparr>cc_connector = \<lparr>cn_ssl = \<lparr>sb_security_level = 0, sb_trust = None, sb_ciphers = None, sb_min = None,
          sb_max = None, sb_alpn = default_pool_alpn\<rparr>, cn_connect_timeout = unwrap_or t 10\<rparr>,
        cc_slots = \<lparr>sl_cert = None, sl_peers = Map.empty\<rparr>\<rparr> in
      Inr (cached, [Direct (tls_key_of example_config) \<mapsto> cached]))"
  by (simp add: get_or_build_def connector_new_def build_ssl_def should_verify_certs_def set_version_def check_def
      config_timeout_def Let_def example_config_def config_new_def example_openssl_def unwrap_or_def)

lemma example_hop:
  assumes "cache = Map.empty \<or> (\<exists>cc. cache = [Direct (tls_key_of example_config) \<mapsto> cc])" "u_path u = p"
  shows "\<exists>cache'. (\<exists>cc. cache' = [Direct (tls_key_of example_config) \<mapsto> cc]) \<and>
    hop_exchange example_env example_net example_config u None cache () =
      (Inr (if p = ''a'' then \<lparr>sr_status = 302, sr_headers = [(''location'', ''b'')], sr_body = [],
               sr_location = Some ''b'', sr_decode_error = None\<rparr>
            else \<lparr>sr_status = 200, sr_headers = [], sr_body = [104, 105], sr_location = None, sr_decode_error = None\<rparr>,
         Some (Direct (tls_key_of example_config))), cache', ())"
proof -
  have mode: "conn_mode_for example_lib example_config u = Inr (Direct (tls_key_of example_config))"
    using example_mode [of None u] by (simp add: example_config_def config_new_def)
  obtain cached cache1 where c: "get_or_build example_env example_config (Direct (tls_key_of example_config)) cache = Inr (cached, cache1)"
    "cache1 = [Direct (tls_key_of example_config) \<mapsto> cached]"
    using assms(1) example_client [of None] by (auto simp: get_or_build_cached Let_def example_config_def config_new_def)
  show ?thesis
    using assms(2)
    by (auto simp: hop_exchange_def mode c dispatch_request_def build_request_def Let_def respond_def parse_response_def
        read_body_def max_body_def decode_body_def content_encoding_def header_values_def location_header_def
        max_body_def unwrap_or_def)
qed

lemma example_send:
  "\<exists>resp cache'. send example_env example_net example_config Map.empty () = (Inr resp, cache', ()) \<and>
     map hop_url (rs_redirect_chain resp) = [''a''] \<and> rs_status resp = 200 \<and> rs_body_bytes resp = [104, 105] \<and>
     rs_url resp = ''b''"
proof -
  let ?u = "\<lambda>s. \<lparr>u_scheme = Some ''http'', u_authority = Some ''h'', u_host = Some ''h'', u_port = None, u_path = s, u_query = None\<rparr>"
  let ?lp = "initial_loop example_config (?u ''a'')"
  have lp: "lp_uri ?lp = ?u ''a''" "lp_cookies ?lp = None" "lp_jar ?lp = None" "lp_hops ?lp = 0" "lp_chain ?lp = []"
    by (simp_all add: initial_loop_def initial_jar_def)
  obtain c1 cc1 where h1: "c1 = [Direct (tls_key_of example_config) \<mapsto> cc1]"
    "hop_exchange example_env example_net example_config (?u ''a'') None Map.empty () =
      (Inr (\<lparr>sr_status = 302, sr_headers = [(''location'', ''b'')], sr_body = [], sr_location = Some ''b'', sr_decode_error = None\<rparr>,
         Some (Direct (tls_key_of example_config))), c1, ())"
    using example_hop [of Map.empty "?u ''a''" "''a''"] by auto
  obtain c2 where h2: "hop_exchange example_env example_net example_config (?u ''b'') None c1 () =
      (Inr (\<lparr>sr_status = 200, sr_headers = [], sr_body = [104, 105], sr_location = None, sr_decode_error = None\<rparr>,
         Some (Direct (tls_key_of example_config))), c2, ())"
    using example_hop [of c1 "?u ''b''" "''b''"] h1(1) by auto
  have plain: "sanitize_byte CHR ''b'' = ''b''" "sanitize_byte CHR ''a'' = ''a''" by code_simp+
  obtain ip where f: "follow_redirect example_env example_config (n_now example_net ())
      \<lparr>sr_status = 302, sr_headers = [(''location'', ''b'')], sr_body = [], sr_location = Some ''b'', sr_decode_error = None\<rparr>
      (peer_ip_of_hop c1 (Some (Direct (tls_key_of example_config))) (?u ''a'')) ?lp =
    Inr \<lparr>lp_uri = ?u ''b'', lp_hops = 1, lp_chain = [\<lparr>hop_url = ''a'', hop_status = 302, hop_peer_ip = ip\<rparr>], lp_jar = None, lp_cookies = None\<rparr>"
    by (simp add: follow_redirect_def lp ok_or_def resolve_redirect_def plain follow_cookies_def Let_def)
  obtain resp where loop: "redirect_loop example_env example_net example_config ?lp Map.empty () = (Inr resp, c2, ())"
    "map hop_url (rs_redirect_chain resp) = [''a'']" "rs_status resp = 200" "rs_body_bytes resp = [104, 105]" "rs_url resp = ''b''"
    by (simp add: redirect_loop.simps [of _ _ _ ?lp] lp h1(2) f Let_def is_redirect_def)
      (simp add: redirect_loop.simps h2 is_redirect_def finish_response_def Let_def)
  then have "send_inner example_env example_net example_config Map.empty () = (Inr resp, c2, ())"
    by (simp add: send_inner_def plain)
  then have "send example_env example_net example_config Map.empty () = (Inr resp, c2, ())"
    using loop(3) by (simp add: send_def send_loop.simps Let_def is_retryable_def)
  with loop show ?thesis by (intro exI [of _ resp] exI [of _ c2]) simp
qed

lemma send_redirect_chain_witness:
  "\<exists>resp cache' v h. send example_env example_net example_config Map.empty () = (Inr resp, cache', ()) \<and>
     rs_redirect_chain resp = [h] \<and> is_redirect (hop_status h) \<and> hop_url h = ''a'' \<and>
     \<not> is_redirect (rs_status resp) \<and> rs_url resp = ''b'' \<and> rs_request_url resp = ''a''"
proof -
  obtain resp cache' where r: "send example_env example_net example_config Map.empty () = (Inr resp, cache', ())"
    "map hop_url (rs_redirect_chain resp) = [''a'']" "rs_url resp = ''b''" using example_send by (elim exE conjE)
  then obtain h where h: "rs_redirect_chain resp = [h]" "hop_url h = ''a''" by auto
  with send_redirect_chain [OF r(1)] r show ?thesis by (fastforce simp: direct_request_def)
qed

text \<open>
  C5: A pooled client never carries another request's TLS settings. In any pool that the client can
  reach, the client that a request is given has exactly the settings that \<open>build_ssl\<close> makes of that
  request's own configuration, whoever built it; and every call of \<open>send\<close> leaves a pool it can reach.
\<close>

theorem pool_tls_settings:
  assumes "pool_reach env cache" "conn_mode_for (e_http env) config u = Inr mode"
    "get_or_build env config mode cache = Inr (cached, cache')"
  shows "build_ssl (e_openssl env) config default_pool_alpn = Inr (cn_ssl (cc_connector cached)) \<and>
    cache' mode = Some cached \<and> pool_reach env cache' \<and>
    pool_reach env (fst (snd (send env net config' cache w)))"
proof -
  have "client_fits env mode cached"
  proof (cases "cache mode")
    case None
    with assms show ?thesis by (intro get_or_build_fits)
  next
    case (Some c)
    with assms(1,3) show ?thesis by (auto simp: get_or_build_cached intro: pool_reach_fits)
  qed
  then obtain config0 where c0: "mode_key mode = Some (tls_key_of config0)"
    "connector_new (e_openssl env) config0 = Inr (cc_connector cached)" by (auto simp: client_fits_def)
  then have "tls_key_of config = tls_key_of config0" using conn_mode_key [OF assms(2)] by auto
  from build_ssl_key [OF this] c0(2)
  have "build_ssl (e_openssl env) config default_pool_alpn = Inr (cn_ssl (cc_connector cached))"
    by (cases "cc_connector cached") (auto simp: connector_new_def and_then_eq_Inr)
  then show ?thesis using get_or_build_entry [OF assms(3)] pool_client [OF assms] send_pool [OF assms(1)] by (intro conjI)
qed

lemma pool_tls_settings_witness:
  "\<exists>cached cache' u. conn_mode_for example_lib (example_config\<lparr>rc_timeout_seconds := Some 3\<rparr>) u = Inr (Direct (tls_key_of example_config)) \<and>
     get_or_build example_env (example_config\<lparr>rc_timeout_seconds := Some 3\<rparr>) (Direct (tls_key_of example_config)) Map.empty =
       Inr (cached, cache') \<and>
     build_ssl example_openssl (example_config\<lparr>rc_timeout_seconds := Some 3\<rparr>) default_pool_alpn = Inr (cn_ssl (cc_connector cached)) \<and>
     pool_reach example_env (fst (snd (send example_env example_net example_config Map.empty ())))"
proof -
  let ?c = "example_config\<lparr>rc_timeout_seconds := Some 3\<rparr>" and ?u = "\<lparr>u_scheme = Some ''http'', u_authority = Some ''h'', u_host = Some ''h'', u_port = None, u_path = [], u_query = None\<rparr>"
  obtain cached cache' where g: "get_or_build example_env ?c (Direct (tls_key_of example_config)) Map.empty = Inr (cached, cache')"
    using example_client [of "Some 3"] by (auto simp: Let_def)
  have m: "conn_mode_for (e_http example_env) ?c ?u = Inr (Direct (tls_key_of example_config))" by simp
  from pool_tls_settings [OF pool_empty m g, of example_net example_config "()"] m g show ?thesis by auto
qed

end
