(* ===== verification/Http_Body.thy ===== *)
theory Http_Body
  imports Http_Pool
begin

text \<open>
  Where the responses of \<open>send\<close> come from: each is the parse of one response that the network gave to
  a request, through any of the three dispatch paths.
\<close>

definition network_gave :: "'w net \<Rightarrow> wire_response \<Rightarrow> bool" where
  "network_gave net wire \<longleftrightarrow>
     (\<exists>mode cn request w events w'. n_pool net mode cn request w = ((Inr wire, events), w')) \<or>
     (\<exists>h2 request w w'. n_send net h2 request w = (Inr wire, w'))"

definition parsed_by :: "env \<Rightarrow> 'w net \<Rightarrow> request_config \<Rightarrow> single_response \<Rightarrow> bool" where
  "parsed_by env net config sr \<longleftrightarrow>
     (\<exists>wire. network_gave net wire \<and> parse_response (e_decoders env) (l_to_str (e_http env)) config wire = Inr sr)"

lemma parsed_byI:
  assumes "parse_response (e_decoders env) (l_to_str (e_http env)) config wire = Inr sr"
  shows "n_pool net mode cn request w = ((Inr wire, events), w') \<Longrightarrow> parsed_by env net config sr"
    and "n_send net h2 request w = (Inr wire, w') \<Longrightarrow> parsed_by env net config sr"
  using assms unfolding parsed_by_def network_gave_def by metis+

lemma map_sum_eq_Inr: "map_sum f g r = Inr y \<longleftrightarrow> (\<exists>x. r = Inr x \<and> y = g x)"
  by (cases r) auto

lemma respond_Inr:
  "respond env config wrap r = Inr sr \<longleftrightarrow>
     (\<exists>wire. r = Inr wire \<and> parse_response (e_decoders env) (l_to_str (e_http env)) config wire = Inr sr)"
  by (auto simp: respond_def and_then_eq_Inr)

lemma dispatch_request_parsed:
  "dispatch_request env net mode cached u config c cache w = (Inr sr, cache', w') \<Longrightarrow> parsed_by env net config sr"
  by (auto simp: dispatch_request_def respond_Inr split: sum.splits prod.splits intro: parsed_byI)

lemma dispatch_forward_proxy_parsed:
  "dispatch_forward_proxy env net p u config c w = (Inr sr, w') \<Longrightarrow> parsed_by env net config sr"
  by (auto simp: dispatch_forward_proxy_def respond_Inr Let_def
      split: sum.splits prod.splits option.splits intro: parsed_byI)

lemma dispatch_direct_parsed:
  "dispatch_direct env net u config w = (Inr (sr, cert, peer), w') \<Longrightarrow> parsed_by env net config sr"
  by (auto simp: dispatch_direct_def respond_Inr and_then_eq_Inr Let_def
      split: sum.splits prod.splits option.splits if_splits intro: parsed_byI)

lemma hop_exchange_parsed:
  assumes "hop_exchange env net config u c cache w = (Inr (sr, used), cache', w')"
  shows "parsed_by env net config sr"
  using assms by (auto simp: hop_exchange_def map_sum_eq_Inr split: sum.splits prod.splits conn_mode.splits
      dest: dispatch_request_parsed dispatch_forward_proxy_parsed)

text \<open>A response with the status, headers and body of a parsed one.\<close>

definition carries :: "response \<Rightarrow> single_response \<Rightarrow> bool" where
  "carries resp sr \<longleftrightarrow> rs_status resp = sr_status sr \<and> rs_headers resp = sr_headers sr \<and>
     rs_body_bytes resp = sr_body sr \<and> rs_decode_error resp = sr_decode_error sr"

lemma finish_response_carries [simp]: "carries (finish_response env net config sr u ch cert peer w) sr"
  by (simp add: carries_def finish_response_def)

lemma send_inner_parsed:
  assumes "send_inner env net config cache w = (Inr resp, cache', w')"
  shows "\<exists>sr. parsed_by env net config sr \<and> carries resp sr"
proof (cases "l_uri_parse (e_http env) (sanitize_uri (rc_url config))")
  case (Inr u)
  show ?thesis
  proof (cases "direct_request config")
    case True
    with assms Inr show ?thesis
      by (auto simp: send_inner_def direct_request_def split: sum.splits prod.splits
          dest!: dispatch_direct_parsed intro: finish_response_carries)
  next
    case False
    then have "redirect_loop env net config (initial_loop config u) cache w = (Inr resp, cache', w')"
      using assms Inr by (simp add: send_inner_def direct_request_def)
    then show ?thesis
      by (cases rule: redirect_loop_cases [of "\<lambda>_ _ _. True" "initial_loop config u" cache w env net config])
        (auto dest!: hop_exchange_parsed)
  qed
qed (use assms in \<open>simp add: send_inner_def\<close>)

lemma send_parsed:
  assumes "send env net config cache w = (Inr resp, cache', w')"
  shows "\<exists>sr. parsed_by env net config sr \<and> carries resp sr"
  using assms by (rule send_response_rule) (rule send_inner_parsed)

lemma parsed_body: "parsed_by env net config sr \<Longrightarrow> length (sr_body sr) \<le> max_body config"
  using parse_response_bounded [where dec = "e_decoders env" and to_str = "l_to_str (e_http env)" and config = config]
  by (fastforce simp: parsed_by_def split: sum.splits)

lemma send_body_limit:
  "send env net config cache w = (Inr resp, cache', w') \<Longrightarrow> length (rs_body_bytes resp) \<le> max_body config"
  using send_parsed parsed_body unfolding carries_def by metis

text \<open>
  C18: A response is what the network sent, no more than asked for. Every response of \<open>send\<close> has the
  status and the header names, in order, of one response the network gave; its body is the decoded
  body of that response and never longer than the limit of the request, whatever its codings inflate
  to and however many retries and redirects came before.
\<close>

theorem send_body_bounded:
  assumes "send env net config cache w = (Inr resp, cache', w')"
  shows "length (rs_body_bytes resp) \<le> max_body config \<and>
    (\<exists>wire sr. network_gave net wire \<and>
      parse_response (e_decoders env) (l_to_str (e_http env)) config wire = Inr sr \<and> carries resp sr \<and>
      rs_status resp = wr_status wire \<and> map fst (rs_headers resp) = map fst (wr_headers wire))"
proof -
  from send_parsed [OF assms] obtain sr where sr: "parsed_by env net config sr" "carries resp sr" by (elim exE conjE)
  from sr(1) obtain wire where wire: "network_gave net wire"
    "parse_response (e_decoders env) (l_to_str (e_http env)) config wire = Inr sr" by (auto simp: parsed_by_def)
  have "length (sr_body sr) \<le> max_body config \<and> sr_status sr = wr_status wire \<and> map fst (sr_headers sr) = map fst (wr_headers wire)"
    using parse_response_bounded [where dec = "e_decoders env" and to_str = "l_to_str (e_http env)" and config = config and r = wire] unfolding wire(2) sum.case .
  with sr(2) have "length (rs_body_bytes resp) \<le> max_body config" "rs_status resp = wr_status wire"
    "map fst (rs_headers resp) = map fst (wr_headers wire)" unfolding carries_def by metis+
  with wire sr(2) show ?thesis by (intro conjI exI)
qed

lemma send_body_bounded_witness:
  "\<exists>resp cache'. send example_env example_net example_config Map.empty () = (Inr resp, cache', ()) \<and>
    length (rs_body_bytes resp) \<le> 10485760"
proof -
  obtain resp cache' where r: "send example_env example_net example_config Map.empty () = (Inr resp, cache', ())"
    using example_send by (elim exE conjE)
  with send_body_bounded [OF r] show ?thesis
    by (auto simp: max_body_def example_config_def config_new_def unwrap_or_def)
qed

end
