(* ===== verification/Raw_Connection.thy ===== *)
theory Raw_Connection
  imports Http_Client
begin

text \<open>
  Raw connections, \<^verbatim>\<open>src/client/raw.rs\<close>: a stream to the target with no framing, and the calls that
  write, read and close it. The stream is what the application sees: the socket itself, or, above TLS,
  a parameter. How long a read waits for something to arrive is an argument of the read; a read that
  is cut by its timeout leaves the stream as it was.
\<close>

section \<open>Operations\<close>

record raw_stream =
  rw_io :: tcp
  rw_flush_err :: "string option"

record raw_connection =
  rw_stream :: "raw_stream option"
  rw_cert_info :: "cert_info option"
  rw_negotiated_alpn :: "string option"
  rw_peer_ip :: "string option"

text \<open>The stream above what \<open>connect_stream\<close> opened; \<open>above_tls\<close> is the plaintext side of TLS.\<close>

definition opened_stream :: "(opened \<Rightarrow> raw_stream) \<Rightarrow> opened \<Rightarrow> raw_stream" where
  "opened_stream above_tls op =
     (if op_tls op = None then \<lparr>rw_io = op_tcp op, rw_flush_err = None\<rparr> else above_tls op)"

definition raw_connect ::
  "env \<Rightarrow> 'w net \<Rightarrow> (opened \<Rightarrow> raw_stream) \<Rightarrow> string \<Rightarrow> request_config \<Rightarrow> 'w \<Rightarrow> (failure + raw_connection) \<times> 'w" where
  "raw_connect env net above_tls uri_str config w =
     (case l_uri_parse (e_http env) uri_str of
        Inl e \<Rightarrow> (Inl (Client (err_invalid_url (''invalid URL '' @ [CHR 0x27] @ uri_str @ [CHR 0x27] @ '': '' @ e))), w)
      | Inr u \<Rightarrow>
          (case connect_stream env net u config w of
             (Inl e, w) \<Rightarrow> (Inl e, w)
           | (Inr op, w) \<Rightarrow>
               (Inr \<lparr>rw_stream = Some (opened_stream above_tls op), rw_cert_info = op_cert op,
                     rw_negotiated_alpn = op_alpn op, rw_peer_ip = op_peer_ip op\<rparr>, w)))"

definition closed_error :: failure where
  "closed_error = Client (err_connection ''connection is closed'')"

definition send_bytes :: "bytes \<Rightarrow> raw_connection \<Rightarrow> (failure + unit) \<times> raw_connection" where
  "send_bytes data c =
     (case rw_stream c of
        None \<Rightarrow> (Inl closed_error, c)
      | Some s \<Rightarrow>
          (case tcp_write_all (rw_io s) data of
             (Inl e, io) \<Rightarrow> (Inl (Client (err_connection (''write failed: '' @ e))), c\<lparr>rw_stream := Some (s\<lparr>rw_io := io\<rparr>)\<rparr>)
           | (Inr _, io) \<Rightarrow>
               (case rw_flush_err s of
                  Some e \<Rightarrow> Inl (Client (err_connection (''flush failed: '' @ e)))
                | None \<Rightarrow> Inr (), c\<lparr>rw_stream := Some (s\<lparr>rw_io := io\<rparr>)\<rparr>)))"

text \<open>
  \<open>arrives_in\<close>: the milliseconds until bytes, an error or the end of the stream is there to be read. The
  model is of calls that return: a read without a timeout from a peer that stays silent for ever does not,
  and is in no session. Asked for no bytes, a read returns at once.
\<close>

definition read_raw :: "nat \<Rightarrow> u64 option \<Rightarrow> nat \<Rightarrow> raw_connection \<Rightarrow> (failure + bytes) \<times> raw_connection" where
  "read_raw max_bytes timeout_ms arrives_in c =
     (case rw_stream c of
        None \<Rightarrow> (Inl closed_error, c)
      | Some s \<Rightarrow>
          if max_bytes = 0 then (Inr [], c)
          else if (case timeout_ms of Some ms \<Rightarrow> unat ms < arrives_in | None \<Rightarrow> False) then (Inr [], c)
          else (case tcp_read (t_in (rw_io s)) max_bytes of (r, ds) \<Rightarrow>
            (lift_err (\<lambda>e. Client (err_connection (''read failed: '' @ e))) r,
             c\<lparr>rw_stream := Some (s\<lparr>rw_io := (rw_io s)\<lparr>t_in := ds\<rparr>\<rparr>)\<rparr>)))"

text \<open>Closing gives up the stream, which is then shut down.\<close>

definition raw_close :: "raw_connection \<Rightarrow> raw_stream option \<times> raw_connection" where
  "raw_close c = (rw_stream c, c\<lparr>rw_stream := None\<rparr>)"

section \<open>Sessions\<close>

datatype raw_op = SendBytes bytes | ReadRaw nat "u64 option" nat | CloseRaw

text \<open>The bytes a call returned, the connection, and the stream that was shut down if one was.\<close>

definition raw_call :: "raw_op \<Rightarrow> raw_connection \<Rightarrow> (failure + bytes) \<times> raw_connection \<times> raw_stream option" where
  "raw_call op c =
     (case op of
        SendBytes data \<Rightarrow> (case send_bytes data c of (r, c) \<Rightarrow> (map_sum id (\<lambda>_. []) r, c, None))
      | ReadRaw n ms a \<Rightarrow> (case read_raw n ms a c of (r, c) \<Rightarrow> (r, c, None))
      | CloseRaw \<Rightarrow> (case raw_close c of (s, c) \<Rightarrow> (Inr [], c, s)))"

fun raw_session ::
  "raw_op list \<Rightarrow> raw_connection \<Rightarrow> (failure + bytes) list \<times> raw_connection \<times> raw_stream option" where
  "raw_session [] c = ([], c, None)"
| "raw_session (op # ops) c =
     (case raw_call op c of (r, c, s) \<Rightarrow>
        (case raw_session ops c of (rs, c, s') \<Rightarrow> (r # rs, c, if s = None then s' else s)))"

text \<open>What the calls before the first close should write, and what reads returned.\<close>

fun sent_data :: "raw_op list \<Rightarrow> bytes" where
  "sent_data [] = []"
| "sent_data (SendBytes data # ops) = data @ sent_data ops"
| "sent_data (ReadRaw _ _ _ # ops) = sent_data ops"
| "sent_data (CloseRaw # ops) = []"

definition returned :: "failure + bytes \<Rightarrow> bytes" where
  "returned r = (case r of Inr b \<Rightarrow> b | Inl _ \<Rightarrow> [])"

text \<open>The result that a call on a closed connection gets.\<close>

definition after_close :: "raw_op \<Rightarrow> failure + bytes" where
  "after_close op = (if op = CloseRaw then Inr [] else Inl closed_error)"

lemma close_closed [simp]: "rw_stream c = None \<Longrightarrow> c\<lparr>rw_stream := None\<rparr> = c"
  by (cases c) simp

lemma session_closed: "rw_stream c = None \<Longrightarrow> raw_session ops c = (map after_close ops, c, None)"
  by (induction ops)
    (auto simp: raw_call_def send_bytes_def read_raw_def raw_close_def after_close_def split: raw_op.split)

lemma tcp_read_sends:
  assumes "sends s t" "0 < n" "tcp_read (t_in t) n = (r, ds)"
  shows "\<exists>b rest. r = Inr b \<and> s = b @ rest \<and> sends rest (t\<lparr>t_in := ds\<rparr>) \<and> length b \<le> n \<and> (b = [] \<longrightarrow> s = [])"
proof -
  from assms(1) obtain cs where cs: "t_write_err t = None" "t_in t = map Bytes cs" "[] \<notin> set cs" "concat cs = s"
    by (auto simp: sends_def)
  show ?thesis
  proof (cases cs)
    case Nil
    with assms(3) cs show ?thesis by (auto simp: tcp_read_def sends_def)
  next
    case (Cons b cs')
    show ?thesis
    proof (cases "length b \<le> n")
      case True
      with assms(3) cs Cons show ?thesis by (intro exI [of _ b] exI [of _ "concat cs'"]) (auto simp: tcp_read_def sends_def)
    next
      case False
      then have "t_in (t\<lparr>t_in := ds\<rparr>) = map Bytes (drop n b # cs')" "[] \<notin> set (drop n b # cs')"
        using assms(3) cs Cons by (auto simp: tcp_read_def)
      moreover have "r = Inr (take n b)" using False assms(3) cs Cons by (simp add: tcp_read_def)
      ultimately show ?thesis using cs Cons False assms(2)
        by (intro exI [of _ "take n b"] exI [of _ "drop n b @ concat cs'"])
          (auto simp: sends_def intro!: exI [of _ "drop n b # cs'"])
    qed
  qed
qed

text \<open>A connection that works: writes and flushes succeed and the peer sends \<open>s\<close>.\<close>

definition works :: "bytes \<Rightarrow> raw_stream \<Rightarrow> bool" where
  "works s st \<longleftrightarrow> sends s (rw_io st) \<and> rw_flush_err st = None"

text \<open>The call of a session that came to nothing: a read whose timeout ran out, or of no bytes.\<close>

definition gave_up :: "raw_op \<Rightarrow> bool" where
  "gave_up op = (case op of ReadRaw n ms a \<Rightarrow> n = 0 \<or> (\<exists>t. ms = Some t \<and> unat t < a) | _ \<Rightarrow> False)"

lemma open_call:
  assumes "rw_stream c = Some st" "works s st" "op \<noteq> CloseRaw"
  shows "\<exists>b rest c' st'. raw_call op c = (Inr b, c', None) \<and> rw_stream c' = Some st' \<and> s = b @ rest \<and> works rest st' \<and>
    t_out (rw_io st') = t_out (rw_io st) @ sent_data [op] \<and>
    (case op of ReadRaw n _ _ \<Rightarrow> length b \<le> n \<and> (b = [] \<longrightarrow> gave_up op \<or> s = []) | _ \<Rightarrow> b = [])"
proof (cases op)
  case (SendBytes data)
  from assms have "tcp_write_all (rw_io st) data = (Inr (), (rw_io st)\<lparr>t_out := t_out (rw_io st) @ data\<rparr>)"
    "sends s ((rw_io st)\<lparr>t_out := t_out (rw_io st) @ data\<rparr>)"
    using tcp_write_all_sends [of s "rw_io st" data] by (simp_all add: works_def)
  with assms SendBytes show ?thesis by (simp add: raw_call_def send_bytes_def works_def)
next
  case (ReadRaw n ms a)
  show ?thesis
  proof (cases "gave_up op")
    case True
    with assms ReadRaw show ?thesis by (auto simp: raw_call_def read_raw_def gave_up_def works_def)
  next
    case False
    obtain r ds where r: "tcp_read (t_in (rw_io st)) n = (r, ds)" by (metis surj_pair)
    from False ReadRaw have "0 < n" by (simp add: gave_up_def)
    with tcp_read_sends [OF assms(2) [unfolded works_def, THEN conjunct1] this r] obtain b rest where
      b: "r = Inr b" "s = b @ rest" "sends rest ((rw_io st)\<lparr>t_in := ds\<rparr>)" "length b \<le> n" "b = [] \<longrightarrow> s = []"
      by blast
    have "raw_call op c = (Inr b, c\<lparr>rw_stream := Some (st\<lparr>rw_io := (rw_io st)\<lparr>t_in := ds\<rparr>\<rparr>)\<rparr>, None)"
      using False ReadRaw assms(1) r b(1)
      by (auto simp: raw_call_def read_raw_def gave_up_def split: option.splits)
    with b assms(2) ReadRaw show ?thesis by (auto simp: works_def)
  qed
qed (use assms in simp)

section \<open>Properties\<close>

lemma session_until_close:
  assumes "rw_stream c = Some st" "works s st" "raw_session ops c = (rs, c', shut)"
  shows "\<exists>rest st'. s = concat (map returned rs) @ rest \<and> works rest st' \<and>
    t_out (rw_io st') = t_out (rw_io st) @ sent_data ops \<and>
    (if CloseRaw \<in> set ops then shut = Some st' \<and> rw_stream c' = None else shut = None \<and> rw_stream c' = Some st') \<and>
    length rs = length ops \<and> drop (length (takeWhile (\<lambda>op. op \<noteq> CloseRaw) ops)) rs =
      map after_close (dropWhile (\<lambda>op. op \<noteq> CloseRaw) ops) \<and>
    list_all (\<lambda>r. \<exists>b. r = Inr b) (take (length (takeWhile (\<lambda>op. op \<noteq> CloseRaw) ops)) rs)"
  using assms
proof (induction ops arbitrary: c st s rs)
  case Nil
  then show ?case by simp
next
  case (Cons op ops)
  show ?case
  proof (cases "op = CloseRaw")
    case True
    have "map returned (map after_close ops) = map (\<lambda>_. []) ops"
      by (simp add: after_close_def returned_def)
    then have none: "concat (map returned (Inr [] # map after_close ops)) = []"
      by (simp add: returned_def del: map_map)
    have rs: "rs = Inr [] # map after_close ops" "c' = c\<lparr>rw_stream := None\<rparr>" "shut = Some st"
      using True Cons.prems by (simp_all add: raw_call_def raw_close_def session_closed)
    show ?thesis unfolding none rs
      using Cons.prems(2) True by (simp add: after_close_def)
  next
    case False
    obtain b rest c1 st1 where call: "raw_call op c = (Inr b, c1, None)" "rw_stream c1 = Some st1" "s = b @ rest"
      "works rest st1" "t_out (rw_io st1) = t_out (rw_io st) @ sent_data [op]"
      using open_call [OF Cons.prems(1,2) False] by blast
    obtain rs1 where rs: "raw_session ops c1 = (rs1, c', shut)" "rs = Inr b # rs1"
      using Cons.prems(3) call(1) by (auto split: prod.splits)
    have "sent_data (op # ops) = sent_data [op] @ sent_data ops" using False by (cases op) simp_all
    with Cons.IH [OF call(2,4) rs(1)] call rs(2) False show ?thesis by (auto simp: returned_def)
  qed
qed

text \<open>
  C17: A raw connection is a faithful pipe, whatever sequence of calls is made on it. Up to the first
  close, every call succeeds, what goes out is exactly the data of the writes in order, and what the
  reads return, end to end, is exactly the beginning of what the peer sends; what was not read is
  still there. The first close shuts the stream down, and every later write or read is an error and
  touches nothing.
\<close>

theorem raw_session_pipe:
  assumes "rw_stream c = Some st" "works s st"
  shows "\<exists>rs c' shut rest st'. raw_session ops c = (rs, c', shut) \<and>
    s = concat (map returned rs) @ rest \<and> works rest st' \<and>
    t_out (rw_io st') = t_out (rw_io st) @ sent_data ops \<and>
    (if CloseRaw \<in> set ops then shut = Some st' \<and> rw_stream c' = None else shut = None \<and> rw_stream c' = Some st') \<and>
    list_all (\<lambda>r. \<exists>b. r = Inr b) (take (length (takeWhile (\<lambda>op. op \<noteq> CloseRaw) ops)) rs) \<and>
    drop (length (takeWhile (\<lambda>op. op \<noteq> CloseRaw) ops)) rs = map after_close (dropWhile (\<lambda>op. op \<noteq> CloseRaw) ops)"
proof -
  obtain rs c' shut where r: "raw_session ops c = (rs, c', shut)" by (metis surj_pair)
  from session_until_close [OF assms r] obtain rest st' where
    "s = concat (map returned rs) @ rest" "works rest st'" "t_out (rw_io st') = t_out (rw_io st) @ sent_data ops"
    "if CloseRaw \<in> set ops then shut = Some st' \<and> rw_stream c' = None else shut = None \<and> rw_stream c' = Some st'"
    "list_all (\<lambda>r. \<exists>b. r = Inr b) (take (length (takeWhile (\<lambda>op. op \<noteq> CloseRaw) ops)) rs)"
    "drop (length (takeWhile (\<lambda>op. op \<noteq> CloseRaw) ops)) rs = map after_close (dropWhile (\<lambda>op. op \<noteq> CloseRaw) ops)"
    by (elim exE conjE)
  with r show ?thesis by (intro exI conjI)
qed

definition example_stream :: raw_stream where
  "example_stream = \<lparr>rw_io = \<lparr>t_in = [Bytes [1, 2, 3], Bytes [4]], t_out = [], t_write_err = None\<rparr>, rw_flush_err = None\<rparr>"

lemma raw_session_pipe_witness:
  "\<exists>rs c' shut rest st'. raw_session [SendBytes [7, 8], ReadRaw 2 None 0, ReadRaw 5 (Some 10) 99, CloseRaw, SendBytes [9]]
      \<lparr>rw_stream = Some example_stream, rw_cert_info = None, rw_negotiated_alpn = None, rw_peer_ip = None\<rparr> = (rs, c', shut) \<and>
    [1, 2, 3, 4] = concat (map returned rs) @ rest \<and> shut = Some st' \<and> t_out (rw_io st') = [7, 8] \<and> works rest st'"
proof -
  have "works [1, 2, 3, 4] example_stream"
    by (auto simp: works_def sends_def example_stream_def intro!: exI [of _ "[[1, 2, 3], [4]]"])
  with raw_session_pipe [of "\<lparr>rw_stream = Some example_stream, rw_cert_info = None, rw_negotiated_alpn = None, rw_peer_ip = None\<rparr>"
      example_stream "[1, 2, 3, 4]" "[SendBytes [7, 8], ReadRaw 2 None 0, ReadRaw 5 (Some 10) 99, CloseRaw, SendBytes [9]]"]
  show ?thesis by (simp del: raw_session.simps) (fastforce simp: example_stream_def)
qed

end
