(* ===== verification/Rate_Limiter.thy ===== *)
theory Rate_Limiter
  imports Blast_Prelude Complex_Main
begin

text \<open>
  The rate limiter of \<^verbatim>\<open>src/batch.rs\<close>: its interval from a rate in binary64, the choice between two
  limiters, and \<open>acquire\<close> as a step relation of any number of tasks that race on the one atomic cursor.

  Times are nanoseconds since the limiter was made. The rounding of binary64 quotients is the
  parameter \<open>fl\<close>. A relaxed load may return any value the cursor has had; a compare-exchange acts on
  the latest value and, being the weak one, may also fail without reason.
\<close>

section \<open>Binary64 and durations\<close>

datatype f64 = NaN | PosInf | NegInf | Finite real

text \<open>A positive number divided by a float; the two zeros are not told apart.\<close>

definition f64_div :: "(real \<Rightarrow> f64) \<Rightarrow> real \<Rightarrow> f64 \<Rightarrow> f64" where
  "f64_div fl a r = (case r of NaN \<Rightarrow> NaN | PosInf \<Rightarrow> Finite 0 | NegInf \<Rightarrow> Finite 0
     | Finite y \<Rightarrow> if y = 0 then PosInf else fl (a / y))"

definition round_away :: "real \<Rightarrow> int" where
  "round_away x = (if x \<ge> 0 then \<lfloor>x + 1 / 2\<rfloor> else \<lceil>x - 1 / 2\<rceil>)"

text \<open>\<open>.round().max(1.0) as u64\<close>: the maximum drops a NaN and the cast saturates.\<close>

definition interval_of_f64 :: "f64 \<Rightarrow> u64" where
  "interval_of_f64 x = (case x of
       NaN \<Rightarrow> 1 | NegInf \<Rightarrow> 1 | PosInf \<Rightarrow> - 1
     | Finite y \<Rightarrow> (let n = max 1 (round_away y) in if n \<ge> 2 ^ 64 then - 1 else word_of_int n))"

definition round_even :: "real \<Rightarrow> int" where
  "round_even x = (let n = \<lfloor>x\<rfloor>; d = x - of_int n in
     if d < 1 / 2 then n else if d > 1 / 2 then n + 1 else if even n then n else n + 1)"

text \<open>\<open>Duration::from_secs_f64\<close>, in nanoseconds.\<close>

definition duration_from_secs :: "f64 \<Rightarrow> nat outcome" where
  "duration_from_secs x = (case x of
       Finite y \<Rightarrow> if y < 0 then Panic
         else (let ns = round_even (y * 10 ^ 9) in if ns \<ge> 2 ^ 64 * 10 ^ 9 then Panic else Done (nat ns))
     | _ \<Rightarrow> Panic)"

definition f64_positive :: "f64 \<Rightarrow> bool" where
  "f64_positive x = (case x of NaN \<Rightarrow> False | PosInf \<Rightarrow> True | NegInf \<Rightarrow> False | Finite y \<Rightarrow> y > 0)"

section \<open>The limiter\<close>

record rate_limiter =
  rl_interval_ns :: u64
  rl_next_ns :: u64

definition limiter_new :: "(real \<Rightarrow> f64) \<Rightarrow> f64 \<Rightarrow> rate_limiter outcome" where
  "limiter_new fl requests_per_second =
     (if \<not> f64_positive requests_per_second then Panic
      else Done \<lparr>rl_interval_ns = interval_of_f64 (f64_div fl (10 ^ 9) requests_per_second), rl_next_ns = 0\<rparr>)"

definition interval :: "rate_limiter \<Rightarrow> nat" where
  "interval l = unat (rl_interval_ns l)"

definition merge_limiters :: "(real \<Rightarrow> f64) \<Rightarrow> rate_limiter option \<Rightarrow> f64 option \<Rightarrow> rate_limiter option outcome" where
  "merge_limiters fl shared per_call =
     (case (shared, per_call) of
        (Some shared, Some per_call_rps) \<Rightarrow>
          on_done (duration_from_secs (f64_div fl 1 per_call_rps)) (\<lambda>per_call_interval.
            if per_call_interval > interval shared
            then on_done (limiter_new fl per_call_rps) (\<lambda>l. Done (Some l))
            else Done (Some shared))
      | (Some shared, None) \<Rightarrow> Done (Some shared)
      | (None, Some rps) \<Rightarrow> on_done (limiter_new fl rps) (\<lambda>l. Done (Some l))
      | (None, None) \<Rightarrow> Done None)"

section \<open>Acquiring\<close>

definition saturating_add :: "u64 \<Rightarrow> u64 \<Rightarrow> u64" where
  "saturating_add a b = (if unat a + unat b \<ge> 2 ^ 64 then - 1 else a + b)"

text \<open>The slot taken and the new cursor.\<close>

definition bump :: "u64 \<Rightarrow> u64 \<Rightarrow> u64 \<Rightarrow> u64 \<times> u64" where
  "bump interval_ns current now_ns = (let base = max current now_ns in (base, saturating_add base interval_ns))"

definition SUB_MS_SKIP_THRESHOLD_NS :: u64 where
  "SUB_MS_SKIP_THRESHOLD_NS = 1000000"

definition sleep_ns :: "u64 \<Rightarrow> u64 \<Rightarrow> nat" where
  "sleep_ns slot_ns now_ns =
     (if slot_ns \<le> now_ns then 0
      else (let deficit_ns = slot_ns - now_ns in
            if deficit_ns \<ge> SUB_MS_SKIP_THRESHOLD_NS then unat deficit_ns else 0))"

text \<open>
  A task in \<open>acquire\<close>: at the head of the loop, with the cursor loaded, with the clock read, holding the
  permit of that number, or asleep until a time. \<open>called\<close> is the time of the call.
\<close>

datatype acquire_pc = Out | Loop nat | Loaded nat u64 | Clocked nat u64 u64 | Holding nat | Asleep nat nat

text \<open>A permit: its slot, when the call was made and when it returned.\<close>

record permit =
  pm_slot :: u64
  pm_called :: nat
  pm_returned :: "nat option"

record race =
  rc_interval :: u64
  rc_cursors :: "u64 list"
  rc_clock :: nat
  rc_pcs :: "nat \<Rightarrow> acquire_pc"
  rc_permits :: "permit list"

text \<open>The cursor's values, latest first; the permits, earliest first.\<close>

definition race_new :: "rate_limiter \<Rightarrow> race" where
  "race_new l = \<lparr>rc_interval = rl_interval_ns l, rc_cursors = [rl_next_ns l], rc_clock = 0,
     rc_pcs = (\<lambda>_. Out), rc_permits = []\<rparr>"

definition set_pc :: "nat \<Rightarrow> acquire_pc \<Rightarrow> race \<Rightarrow> race" where
  "set_pc t pc s = s\<lparr>rc_pcs := (rc_pcs s)(t := pc)\<rparr>"

inductive acquire_step :: "race \<Rightarrow> race \<Rightarrow> bool" where
  tick: "rc_clock s \<le> c \<Longrightarrow> acquire_step s (s\<lparr>rc_clock := c\<rparr>)"
| call: "rc_pcs s t = Out \<Longrightarrow> acquire_step s (set_pc t (Loop (rc_clock s)) s)"
| load: "rc_pcs s t = Loop a \<Longrightarrow> current \<in> set (rc_cursors s) \<Longrightarrow> acquire_step s (set_pc t (Loaded a current) s)"
| elapsed: "rc_pcs s t = Loaded a current \<Longrightarrow>
    acquire_step s (set_pc t (Clocked a current (of_nat (rc_clock s))) s)"
| exchange: "rc_pcs s t = Clocked a current now_ns \<Longrightarrow> hd (rc_cursors s) = current \<Longrightarrow>
    bump (rc_interval s) current now_ns = (base, next) \<Longrightarrow>
    acquire_step s (set_pc t (Holding (length (rc_permits s)))
      (s\<lparr>rc_cursors := next # rc_cursors s,
         rc_permits := rc_permits s @ [\<lparr>pm_slot = base, pm_called = a, pm_returned = None\<rparr>]\<rparr>))"
| retry: "rc_pcs s t = Clocked a current now_ns \<Longrightarrow> acquire_step s (set_pc t (Loop a) s)"
| check: "rc_pcs s t = Holding k \<Longrightarrow>
    acquire_step s (set_pc t (Asleep k (rc_clock s + sleep_ns (pm_slot (rc_permits s ! k)) (of_nat (rc_clock s)))) s)"
| return: "rc_pcs s t = Asleep k wake \<Longrightarrow> wake \<le> rc_clock s \<Longrightarrow>
    acquire_step s (set_pc t Out (s\<lparr>rc_permits := (rc_permits s)[k := (rc_permits s ! k)\<lparr>pm_returned := Some (rc_clock s)\<rparr>]\<rparr>))"

definition race_reach :: "rate_limiter \<Rightarrow> race \<Rightarrow> bool" where
  "race_reach l s \<longleftrightarrow> acquire_step\<^sup>*\<^sup>* (race_new l) s"

section \<open>Slots\<close>

text \<open>Two slots an interval apart, unless the cursor has saturated.\<close>

definition apart :: "nat \<Rightarrow> u64 \<Rightarrow> u64 \<Rightarrow> bool" where
  "apart i x y \<longleftrightarrow> unat x + i \<le> unat y \<or> y = - 1"

lemma unat_max_u64: "unat (- 1 :: u64) = 2 ^ 64 - 1"
  by (simp add: unat_eq_nat_uint unsigned_minus_1_eq_mask mask_eq_exp_minus_1)

lemma apart_mono: "apart i x y \<Longrightarrow> y \<le> z \<Longrightarrow> apart i x z"
proof -
  assume a: "apart i x y" and z: "y \<le> z"
  have "z = - 1" if "y = - 1" using z word_n1_ge [of z] unfolding that by (rule order.antisym [rotated])
  with a z show ?thesis by (auto simp: apart_def word_le_nat_alt)
qed

lemma saturating_add_le: "b \<le> saturating_add b i"
proof (cases "unat b + unat i \<ge> 2 ^ 64")
  case False
  then have "unat (b + i) = unat b + unat i" by (simp add: unat_add_lem [THEN iffD1])
  then show ?thesis using False by (simp add: saturating_add_def word_le_nat_alt)
qed (simp add: saturating_add_def)

lemma apart_bump: "bump i c n = (base, nxt) \<Longrightarrow> apart (unat i) base nxt \<and> c \<le> base \<and> n \<le> base \<and> base \<le> nxt"
proof -
  assume b: "bump i c n = (base, nxt)"
  have "unat (base + i) = unat base + unat i" if "unat base + unat i < 2 ^ 64"
    using that by (simp add: unat_add_lem [THEN iffD1])
  with b saturating_add_le [of base i] show ?thesis
    by (auto simp: bump_def apart_def saturating_add_def Let_def split: if_splits)
qed

lemma unat_clock: "c < 2 ^ 64 \<Longrightarrow> unat (of_nat c :: u64) = c"
  by (simp add: unat_of_nat take_bit_nat_eq_self)

lemma sleep_reaches:
  assumes "c < 2 ^ 64"
  shows "unat slot < c + sleep_ns slot (of_nat c) + 10 ^ 6"
proof (cases "slot \<le> of_nat c")
  case True
  then show ?thesis using unat_clock [OF assms] by (simp add: sleep_ns_def word_le_nat_alt)
next
  case False
  then have "unat (slot - of_nat c) = unat slot - c" "c \<le> unat slot"
    using unat_sub [of "of_nat c" slot] unat_clock [OF assms] by (simp_all add: word_le_nat_alt)
  with False show ?thesis
    by (auto simp: sleep_ns_def SUB_MS_SKIP_THRESHOLD_NS_def word_le_nat_alt Let_def not_le)
qed

text \<open>The end of a sleep is on the clock.\<close>

lemma sleep_ends:
  assumes "c < 2 ^ 64"
  shows "c + sleep_ns slot (of_nat c) < 2 ^ 64"
proof (cases "slot \<le> of_nat c")
  case False
  then have "unat (slot - of_nat c) = unat slot - c" "c \<le> unat slot"
    using unat_sub [of "of_nat c" slot] unat_clock [OF assms] by (simp_all add: word_le_nat_alt)
  moreover have "unat slot < 2 ^ 64" using unsigned_less [of slot, where ?'a = nat] by simp
  ultimately show ?thesis using False assms by (simp add: sleep_ns_def Let_def)
qed (use assms in \<open>simp add: sleep_ns_def\<close>)

section \<open>The invariant of the race\<close>

definition pc_ok :: "race \<Rightarrow> acquire_pc \<Rightarrow> bool" where
  "pc_ok s pc = (case pc of Out \<Rightarrow> True | Loop a \<Rightarrow> a \<le> rc_clock s | Loaded a _ \<Rightarrow> a \<le> rc_clock s
     | Clocked a _ n \<Rightarrow> a \<le> rc_clock s \<and> a \<le> unat n | Holding k \<Rightarrow> k < length (rc_permits s)
     | Asleep k w \<Rightarrow> k < length (rc_permits s) \<and> unat (pm_slot (rc_permits s ! k)) < w + 10 ^ 6 \<and> w < 2 ^ 64)"

definition permit_ok :: "race \<Rightarrow> permit \<Rightarrow> bool" where
  "permit_ok s p \<longleftrightarrow> apart (unat (rc_interval s)) (pm_slot p) (hd (rc_cursors s)) \<and> pm_called p \<le> unat (pm_slot p) \<and>
     (\<forall>t. pm_returned p = Some t \<longrightarrow> unat (pm_slot p) < t + 10 ^ 6)"

definition race_inv :: "race \<Rightarrow> bool" where
  "race_inv s \<longleftrightarrow> rc_cursors s \<noteq> [] \<and>
     sorted_wrt (apart (unat (rc_interval s))) (map pm_slot (rc_permits s)) \<and>
     (\<forall>p \<in> set (rc_permits s). permit_ok s p) \<and> (\<forall>t. pc_ok s (rc_pcs s t))"

lemma race_invD:
  assumes "race_inv s"
  shows "rc_cursors s \<noteq> []" "sorted_wrt (apart (unat (rc_interval s))) (map pm_slot (rc_permits s))"
    "p \<in> set (rc_permits s) \<Longrightarrow> permit_ok s p" "pc_ok s (rc_pcs s t)"
  using assms by (auto simp: race_inv_def)

lemma set_pc_simps [simp]:
  "rc_interval (set_pc t pc s) = rc_interval s" "rc_cursors (set_pc t pc s) = rc_cursors s"
  "rc_clock (set_pc t pc s) = rc_clock s" "rc_permits (set_pc t pc s) = rc_permits s"
  "rc_pcs (set_pc t pc s) = (rc_pcs s)(t := pc)"
  by (simp_all add: set_pc_def)

lemma inv_set_pc [simp]: "pc_ok (set_pc t pc s) = pc_ok s" "permit_ok (set_pc t pc s) = permit_ok s"
  by (simp_all add: pc_ok_def permit_ok_def fun_eq_iff split: acquire_pc.splits)

lemma set_pc_inv: "race_inv s \<Longrightarrow> pc_ok s pc \<Longrightarrow> race_inv (set_pc t pc s)"
  by (auto simp: race_inv_def)

lemma pc_ok_later:
  "pc_ok s pc \<Longrightarrow> rc_clock s \<le> rc_clock s' \<Longrightarrow> length (rc_permits s) \<le> length (rc_permits s') \<Longrightarrow>
   (\<And>k. k < length (rc_permits s) \<Longrightarrow> pm_slot (rc_permits s' ! k) = pm_slot (rc_permits s ! k)) \<Longrightarrow> pc_ok s' pc"
  by (auto simp: pc_ok_def split: acquire_pc.splits)

lemma acquire_step_clock: "acquire_step s s' \<Longrightarrow> rc_clock s \<le> rc_clock s' \<and> rc_interval s' = rc_interval s"
  by (induction rule: acquire_step.induct) auto

lemma acquire_step_inv:
  "acquire_step s s' \<Longrightarrow> race_inv s \<Longrightarrow> rc_clock s < 2 ^ 64 \<Longrightarrow> race_inv s'"
proof (induction rule: acquire_step.induct)
  case (tick s c)
  then show ?case by (auto simp: race_inv_def permit_ok_def intro: pc_ok_later [of s])
next
  case (call s t)
  then show ?case by (intro set_pc_inv) (simp_all add: pc_ok_def)
next
  case (load s t a current)
  then show ?case using race_invD(4) [OF load.prems(1), of t] by (intro set_pc_inv) (simp_all add: pc_ok_def)
next
  case (elapsed s t a current)
  then show ?case using race_invD(4) [OF elapsed.prems(1), of t]
    by (intro set_pc_inv) (simp_all add: pc_ok_def unat_clock)
next
  case (exchange s t a current now_ns base nxt)
  note b = apart_bump [OF exchange.hyps(3)]
  let ?i = "unat (rc_interval s)"
  let ?p = "\<lparr>pm_slot = base, pm_called = a, pm_returned = None\<rparr>"
  let ?s = "s\<lparr>rc_cursors := nxt # rc_cursors s, rc_permits := rc_permits s @ [?p]\<rparr>"
  have a: "a \<le> unat base" using race_invD(4) [OF exchange.prems(1), of t] exchange.hyps(1) b
    by (auto simp: pc_ok_def word_le_nat_alt)
  have old: "apart ?i (pm_slot p) base \<and> permit_ok ?s p" if "p \<in> set (rc_permits s)" for p
    using race_invD(3) [OF exchange.prems(1) that] b exchange.hyps(2)
    by (auto simp: permit_ok_def intro: apart_mono)
  have "sorted_wrt (apart ?i) (map pm_slot (rc_permits ?s))"
    using race_invD(2) [OF exchange.prems(1)] old by (auto simp: sorted_wrt_append)
  moreover have "permit_ok ?s ?p" using a b by (simp add: permit_ok_def)
  then have "\<forall>p \<in> set (rc_permits ?s). permit_ok ?s p" using old by auto
  moreover have "pc_ok ?s (rc_pcs ?s j)" for j
    by (rule pc_ok_later [of s]) (use race_invD(4) [OF exchange.prems(1)] in \<open>simp_all add: nth_append\<close>)
  ultimately have "race_inv ?s" unfolding race_inv_def by simp
  then show ?case by (intro set_pc_inv) (simp_all add: pc_ok_def)
next
  case (retry s t a current now_ns)
  then show ?case using race_invD(4) [OF retry.prems(1), of t] by (intro set_pc_inv) (simp_all add: pc_ok_def)
next
  case (check s t k)
  then show ?case using race_invD(4) [OF check.prems(1), of t] sleep_reaches [OF check.prems(2)]
      sleep_ends [OF check.prems(2)]
    by (intro set_pc_inv) (simp_all add: pc_ok_def)
next
  case (return s t k wake)
  let ?s = "s\<lparr>rc_permits := (rc_permits s)[k := (rc_permits s ! k)\<lparr>pm_returned := Some (rc_clock s)\<rparr>]\<rparr>"
  have k: "k < length (rc_permits s)" "unat (pm_slot (rc_permits s ! k)) < rc_clock s + 10 ^ 6"
    using race_invD(4) [OF return.prems(1), of t] return.hyps by (auto simp: pc_ok_def)
  have slots: "map pm_slot (rc_permits ?s) = map pm_slot (rc_permits s)"
    using k(1) by (simp add: map_update list_update_same_conv)
  have slot: "pm_slot (rc_permits ?s ! j) = pm_slot (rc_permits s ! j)" if "j < length (rc_permits s)" for j
    using arg_cong [OF slots, of "\<lambda>l. l ! j"] that by simp
  have "permit_ok ?s p" if "p \<in> set (rc_permits ?s)" for p
  proof -
    from that set_update_subset_insert [of "rc_permits s" k "(rc_permits s ! k)\<lparr>pm_returned := Some (rc_clock s)\<rparr>"]
    consider "p \<in> set (rc_permits s)" | "p = (rc_permits s ! k)\<lparr>pm_returned := Some (rc_clock s)\<rparr>" by auto
    then show ?thesis
      using race_invD(3) [OF return.prems(1)] race_invD(3) [OF return.prems(1) nth_mem [OF k(1)]] k(2)
      by cases (simp_all add: permit_ok_def)
  qed
  moreover have "pc_ok ?s (rc_pcs ?s j)" for j
    by (rule pc_ok_later [of s]) (use race_invD(4) [OF return.prems(1)] slot in simp_all)
  ultimately have "race_inv ?s" using race_invD(1,2) [OF return.prems(1)] slots by (simp add: race_inv_def)
  then show ?case by (intro set_pc_inv) (simp_all add: pc_ok_def)
qed

lemma race_reach_inv:
  assumes "race_reach l s" "rc_clock s < 2 ^ 64"
  shows "race_inv s \<and> rc_interval s = rl_interval_ns l"
proof -
  have "acquire_step\<^sup>*\<^sup>* (race_new l) s \<Longrightarrow> rc_clock s < 2 ^ 64 \<Longrightarrow> race_inv s \<and> rc_interval s = rl_interval_ns l" for s
  proof (induction rule: rtranclp_induct)
    case base
    show ?case by (simp add: race_new_def race_inv_def pc_ok_def)
  next
    case (step s s')
    then show ?case using acquire_step_clock [OF step.hyps(2)] acquire_step_inv [OF step.hyps(2)] by auto
  qed
  with assms show ?thesis by (simp add: race_reach_def)
qed

section \<open>Counting\<close>

text \<open>Slots an interval apart within a window are few.\<close>

lemma apart_window:
  assumes "sorted_wrt (apart i) xs" "\<forall>x \<in> set xs. a \<le> unat x \<and> unat x < c" "c < 2 ^ 64" "xs \<noteq> []"
  shows "(length xs - 1) * i + a < c"
  using assms
proof (induction xs arbitrary: a)
  case (Cons x xs)
  show ?case
  proof (cases xs)
    case Nil
    then show ?thesis using Cons.prems by simp
  next
    case (Cons y ys)
    have "unat x + i \<le> unat z" if "z \<in> set xs" for z
    proof -
      have "unat z \<noteq> 2 ^ 64 - 1" using Cons.prems(2,3) that by fastforce
      then have "z \<noteq> - 1" using unat_max_u64 by auto
      then show ?thesis using Cons.prems(1) that by (auto simp: apart_def)
    qed
    then have "(length xs - 1) * i + (a + i) < c"
      using Cons.prems Cons by (intro Cons.IH) (auto intro: order_trans [of "a + i" "unat x + i"])
    then show ?thesis using Cons by (simp add: algebra_simps)
  qed
qed simp

text \<open>
  Two ways to count permits between two times: those of calls made and returned there, and those
  returned there at most \<open>d\<close> after their slots.
\<close>

definition calls_within :: "race \<Rightarrow> nat \<Rightarrow> nat \<Rightarrow> nat" where
  "calls_within s a b = length (filter (\<lambda>p. a \<le> pm_called p \<and> (\<exists>t \<le> b. pm_returned p = Some t)) (rc_permits s))"

definition returns_within :: "nat \<Rightarrow> race \<Rightarrow> nat \<Rightarrow> nat \<Rightarrow> nat" where
  "returns_within d s a b = length (filter
     (\<lambda>p. \<exists>t. pm_returned p = Some t \<and> a \<le> t \<and> t \<le> b \<and> t \<le> unat (pm_slot p) + d) (rc_permits s))"

lemma permits_counted:
  assumes "race_inv s" "c < 2 ^ 64" "\<And>p. p \<in> set (rc_permits s) \<Longrightarrow> P p \<Longrightarrow> a \<le> unat (pm_slot p) \<and> unat (pm_slot p) < c"
  shows "length (filter P (rc_permits s)) = 0 \<or> (length (filter P (rc_permits s)) - 1) * unat (rc_interval s) + a < c"
proof -
  have "sorted_wrt (apart (unat (rc_interval s))) (map pm_slot (filter P (rc_permits s)))"
    using race_invD(2) [OF assms(1)] by (simp add: sorted_wrt_map sorted_wrt_filter)
  then show ?thesis
    using apart_window [of "unat (rc_interval s)" "map pm_slot (filter P (rc_permits s))" a c] assms(2,3)
    by (cases "filter P (rc_permits s) = []") simp_all
qed

lemma calls_counted:
  assumes "race_inv s" "b + 10 ^ 6 < 2 ^ 64"
  shows "calls_within s a b = 0 \<or> (calls_within s a b - 1) * unat (rc_interval s) + a < b + 10 ^ 6"
  unfolding calls_within_def using assms(2)
  by (intro permits_counted [OF assms(1)]) (use race_invD(3) [OF assms(1)] in \<open>fastforce simp: permit_ok_def\<close>)+

lemma returns_counted:
  assumes "race_inv s" "b + 10 ^ 6 < 2 ^ 64"
  shows "returns_within d s a b = 0 \<or> (returns_within d s a b - 1) * unat (rc_interval s) + a < b + d + 10 ^ 6"
proof -
  have "a - d \<le> unat (pm_slot p) \<and> unat (pm_slot p) < b + 10 ^ 6"
    if "p \<in> set (rc_permits s)" "\<exists>t. pm_returned p = Some t \<and> a \<le> t \<and> t \<le> b \<and> t \<le> unat (pm_slot p) + d" for p
    using race_invD(3) [OF assms(1) that(1)] that(2) by (fastforce simp: permit_ok_def)
  then have "returns_within d s a b = 0 \<or>
      (returns_within d s a b - 1) * unat (rc_interval s) + (a - d) < b + 10 ^ 6"
    unfolding returns_within_def by (rule permits_counted [OF assms])
  then show ?thesis by linarith
qed

section \<open>Intervals\<close>

text \<open>
  What is relied on of binary64 division: in the normal range a quotient is rounded with a relative
  error of at most \<open>2 ^ -53\<close>.
\<close>

definition fl_ok :: "(real \<Rightarrow> f64) \<Rightarrow> bool" where
  "fl_ok fl \<longleftrightarrow> (\<forall>x. 1 / 2 ^ 1000 \<le> x \<and> x \<le> 2 ^ 1000 \<longrightarrow> (\<exists>y. fl x = Finite y \<and> \<bar>y - x\<bar> \<le> x / 2 ^ 53))"

lemma round_away_near:
  assumes "0 \<le> y"
  shows "\<bar>of_int (round_away y) - y\<bar> \<le> 1 / 2"
proof -
  have "round_away y = \<lfloor>y + 1 / 2\<rfloor>" using assms by (simp add: round_away_def)
  moreover have "of_int \<lfloor>y + 1 / 2\<rfloor> \<le> y + 1 / 2" "y + 1 / 2 < of_int \<lfloor>y + 1 / 2\<rfloor> + 1" by linarith+
  ultimately show ?thesis unfolding abs_le_iff by linarith
qed

lemma positive_near: "0 < z \<Longrightarrow> \<bar>y - z\<bar> \<le> z / 2 ^ 53 \<Longrightarrow> 0 < (y :: real)"
  by (simp add: abs_le_iff) (smt (verit))

lemma round_even_near: "\<bar>of_int (round_even y) - y\<bar> \<le> 1 / 2"
  unfolding round_even_def Let_def using floor_correct [of y] by (auto split: if_splits)

text \<open>Rates between one request in \<open>2 ^ 20\<close> seconds and one in a nanosecond.\<close>

definition sane_rate :: "real \<Rightarrow> bool" where
  "sane_rate r \<longleftrightarrow> 1 / 2 ^ 20 \<le> r \<and> r \<le> 10 ^ 9"

lemma sane_quotient:
  assumes "sane_rate r"
  shows "0 < r" "1 \<le> 10 ^ 9 / r" "10 ^ 9 / r \<le> 2 ^ 50" "1 / 10 ^ 9 \<le> 1 / r" "1 / r \<le> 2 ^ 20"
proof -
  show r: "0 < r" using assms by (simp add: sane_rate_def order.strict_trans2 [of 0 "1 / 2 ^ 20"])
  show "1 \<le> 10 ^ 9 / r" "1 / 10 ^ 9 \<le> 1 / r" using assms r by (simp_all add: sane_rate_def field_simps)
  show q: "1 / r \<le> 2 ^ 20" using assms r by (simp add: sane_rate_def field_simps)
  have "10 ^ 9 / r = 10 ^ 9 * (1 / r)" by simp
  also have "\<dots> \<le> 10 ^ 9 * 2 ^ 20" using q by (intro mult_left_mono) simp_all
  finally show "10 ^ 9 / r \<le> 2 ^ 50" by simp
qed

lemma interval_near:
  assumes "fl_ok fl" "sane_rate r"
  shows "\<bar>real (unat (interval_of_f64 (f64_div fl (10 ^ 9) (Finite r)))) - 10 ^ 9 / r\<bar> \<le> 5 / 8"
proof -
  note q = sane_quotient [OF assms(2)]
  have "1 / 2 ^ 1000 \<le> 10 ^ 9 / r" "10 ^ 9 / r \<le> 2 ^ 1000"
    using q by (auto intro: order_trans [of _ 1] order_trans [of _ "2 ^ 50"])
  then obtain y where y: "fl (10 ^ 9 / r) = Finite y" "\<bar>y - 10 ^ 9 / r\<bar> \<le> (10 ^ 9 / r) / 2 ^ 53"
    using assms(1) unfolding fl_ok_def by blast
  have "(10 ^ 9 / r) / 2 ^ 53 \<le> 2 ^ 50 / 2 ^ 53" using q(3) by (intro divide_right_mono) simp_all
  then have e: "\<bar>y - 10 ^ 9 / r\<bar> \<le> 1 / 8" using y(2) by simp
  have y0: "1 - 1 / 8 \<le> y" "y \<le> 2 ^ 50 + 1" using e q(2,3) by linarith+
  have r: "\<bar>of_int (round_away y) - y\<bar> \<le> 1 / 2" using y0 by (intro round_away_near) simp
  then have "0 < real_of_int (round_away y)" "real_of_int (round_away y) < 2 ^ 50 + 2" using y0 by linarith+
  then have n: "1 \<le> round_away y" "round_away y < 2 ^ 64" by simp_all
  have "f64_div fl (10 ^ 9) (Finite r) = Finite y" using q(1) y(1) by (auto simp: f64_div_def)
  then have "interval_of_f64 (f64_div fl (10 ^ 9) (Finite r)) = word_of_int (round_away y)"
    using n by (simp add: interval_of_f64_def)
  moreover have "unat (word_of_int (round_away y) :: u64) = nat (round_away y)"
    using n by (simp add: unat_eq_nat_uint uint_word_of_int)
  ultimately have "real (unat (interval_of_f64 (f64_div fl (10 ^ 9) (Finite r)))) = of_int (round_away y)"
    using n by simp
  with r e show ?thesis by linarith
qed

lemma duration_near:
  assumes "fl_ok fl" "sane_rate r"
  shows "\<exists>d. duration_from_secs (f64_div fl 1 (Finite r)) = Done d \<and> \<bar>real d - 10 ^ 9 / r\<bar> \<le> 5 / 8"
proof -
  note q = sane_quotient [OF assms(2)]
  have "1 / 2 ^ 1000 \<le> 1 / r" "1 / r \<le> 2 ^ 1000"
    using q by (auto intro: order_trans [of _ "1 / 10 ^ 9"] order_trans [of _ "2 ^ 20"])
  then obtain y where y: "fl (1 / r) = Finite y" "\<bar>y - 1 / r\<bar> \<le> (1 / r) / 2 ^ 53"
    using assms(1) unfolding fl_ok_def by blast
  have "0 < 1 / r" using q(1) by simp
  then have y0: "0 < y" using y(2) by (rule positive_near)
  have "y * 10 ^ 9 - 10 ^ 9 / r = (y - 1 / r) * 10 ^ 9" by (simp add: left_diff_distrib)
  then have "\<bar>y * 10 ^ 9 - 10 ^ 9 / r\<bar> = \<bar>y - 1 / r\<bar> * 10 ^ 9" by (simp only: abs_mult) simp
  also have "\<dots> \<le> (1 / r) / 2 ^ 53 * 10 ^ 9" using y(2) by (intro mult_right_mono) simp_all
  also have "\<dots> = (10 ^ 9 / r) / 2 ^ 53" by simp
  also have "\<dots> \<le> 2 ^ 50 / 2 ^ 53" using q(3) by (intro divide_right_mono) simp_all
  finally have e: "\<bar>y * 10 ^ 9 - 10 ^ 9 / r\<bar> \<le> 1 / 8" by simp
  note r = round_even_near [of "y * 10 ^ 9"]
  have "0 < real_of_int (round_even (y * 10 ^ 9))" "real_of_int (round_even (y * 10 ^ 9)) < 2 ^ 50 + 2"
    using r e q(2,3) unfolding abs_le_iff by linarith+
  then have n: "0 < round_even (y * 10 ^ 9)" "round_even (y * 10 ^ 9) < 2 ^ 51" by simp_all
  have "duration_from_secs (f64_div fl 1 (Finite r)) = Done (nat (round_even (y * 10 ^ 9)))"
    using q(1) y0 n by (simp add: f64_div_def duration_from_secs_def y(1) Let_def)
  moreover have "real (nat (round_even (y * 10 ^ 9))) = of_int (round_even (y * 10 ^ 9))" using n by simp
  ultimately show ?thesis using r e by (intro exI conjI) (assumption, linarith)
qed

section \<open>Properties\<close>

text \<open>
  The slots handed out are an interval apart, until the cursor saturates after 584 years; no slot is
  before the call that got it, and a call returns less than a millisecond before its slot or later.
\<close>

theorem permits_spaced:
  assumes "race_reach l s" "rc_clock s < 2 ^ 64"
  shows "sorted_wrt (apart (interval l)) (map pm_slot (rc_permits s)) \<and>
    (\<forall>p \<in> set (rc_permits s). pm_called p \<le> unat (pm_slot p) \<and>
      (\<forall>t. pm_returned p = Some t \<longrightarrow> unat (pm_slot p) < t + 10 ^ 6))"
  using race_reach_inv [OF assms] race_invD(2,3) [of s] by (auto simp: interval_def permit_ok_def)

text \<open>
  C8: The limiter holds its rate against any race, however the tasks interleave, whatever stale cursor
  values they load and however often an exchange fails. The slots it hands out are an interval apart;
  none is before the call that got it, and no call returns a millisecond or more ahead of its slot.
  So two counts of the permits between times \<open>a\<close> and \<open>b\<close> are bounded. Of the calls made from \<open>a\<close> on,
  the number returned by \<open>b\<close>, less one, times the interval, is less than the window and the
  millisecond below which the limiter does not sleep: an idle time leaves no stock of permits, and with
  \<open>a\<close> the time of the first call this bounds all that have ever returned. And of the permits returned
  in the window, whenever their calls were made, those returned no more than \<open>d\<close> after their slots obey
  the same bound with \<open>d\<close> added. The second bound cannot do without \<open>d\<close>: tasks that the scheduler
  wakes late, long after their slots, may all return at one instant.
\<close>

theorem rate_limit_window:
  assumes "race_reach l s" "rc_clock s < 2 ^ 64" "b + 10 ^ 6 < 2 ^ 64"
  shows "sorted_wrt (apart (interval l)) (map pm_slot (rc_permits s)) \<and>
    (\<forall>p \<in> set (rc_permits s). pm_called p \<le> unat (pm_slot p) \<and>
      (\<forall>t. pm_returned p = Some t \<longrightarrow> unat (pm_slot p) < t + 10 ^ 6)) \<and>
    (calls_within s a b = 0 \<or> (calls_within s a b - 1) * interval l + a < b + 10 ^ 6) \<and>
    (returns_within d s a b = 0 \<or> (returns_within d s a b - 1) * interval l + a < b + d + 10 ^ 6)"
  using permits_spaced [OF assms(1,2)] race_reach_inv [OF assms(1,2)] calls_counted [OF _ assms(3), of s a]
    returns_counted [OF _ assms(3), of s d a]
  by (simp add: interval_def)

text \<open>A run of one task: it takes slot 0, does not sleep and returns.\<close>

definition example_limiter :: rate_limiter where
  "example_limiter = \<lparr>rl_interval_ns = 10, rl_next_ns = 0\<rparr>"

definition example_race :: race where
  "example_race = \<lparr>rc_interval = 10, rc_cursors = [10, 0], rc_clock = 0, rc_pcs = (\<lambda>_. Out),
     rc_permits = [\<lparr>pm_slot = 0, pm_called = 0, pm_returned = Some 0\<rparr>]\<rparr>"

text \<open>The states of a task \<open>t\<close> on its way to slot 0.\<close>

definition example_state :: "nat \<Rightarrow> acquire_pc \<Rightarrow> u64 list \<Rightarrow> permit list \<Rightarrow> race" where
  "example_state t pc cs ps = \<lparr>rc_interval = 10, rc_cursors = cs, rc_clock = 0, rc_pcs = (\<lambda>_. Out)(t := pc), rc_permits = ps\<rparr>"

definition example_permit :: "nat option \<Rightarrow> permit" where
  "example_permit r = \<lparr>pm_slot = 0, pm_called = 0, pm_returned = r\<rparr>"

lemma example_state_pc [simp]: "rc_pcs (example_state t pc cs ps) t = pc" "rc_clock (example_state t pc cs ps) = 0"
  by (simp_all add: example_state_def)

lemma example_acquire:
  "example_state t (Loop 0) [0] [] = set_pc t (Loop 0) (race_new example_limiter)"
  "acquire_step (race_new example_limiter) (example_state t (Loop 0) [0] [])"
  "acquire_step (example_state t (Loop 0) [0] []) (example_state t (Loaded 0 0) [0] [])"
  "acquire_step (example_state t (Loaded 0 0) [0] []) (example_state t (Clocked 0 0 0) [0] [])"
  "acquire_step (example_state t (Clocked 0 0 0) [0] []) (example_state t (Holding 0) [10, 0] [example_permit None])"
  "acquire_step (example_state t (Holding 0) [10, 0] [example_permit None]) (example_state t (Asleep 0 0) [10, 0] [example_permit None])"
  "acquire_step (example_state t (Asleep 0 0) [10, 0] [example_permit None]) example_race"
proof -
  note defs = example_state_def example_permit_def set_pc_def
  show c: "example_state t (Loop 0) [0] [] = set_pc t (Loop 0) (race_new example_limiter)"
    by (simp add: race_new_def example_limiter_def defs)
  show "acquire_step (race_new example_limiter) (example_state t (Loop 0) [0] [])"
    using call [of "race_new example_limiter" t] by (simp add: c race_new_def)
  show "acquire_step (example_state t (Loop 0) [0] []) (example_state t (Loaded 0 0) [0] [])"
    using load [of "example_state t (Loop 0) [0] []" t 0 0] by (simp add: defs)
  show "acquire_step (example_state t (Loaded 0 0) [0] []) (example_state t (Clocked 0 0 0) [0] [])"
    using elapsed [of "example_state t (Loaded 0 0) [0] []" t 0 0] by (simp add: defs)
  show "acquire_step (example_state t (Clocked 0 0 0) [0] []) (example_state t (Holding 0) [10, 0] [example_permit None])"
    using exchange [of "example_state t (Clocked 0 0 0) [0] []" t 0 0 0 0 10]
    by (simp add: defs bump_def saturating_add_def)
  show "acquire_step (example_state t (Holding 0) [10, 0] [example_permit None]) (example_state t (Asleep 0 0) [10, 0] [example_permit None])"
    using check [of "example_state t (Holding 0) [10, 0] [example_permit None]" t 0] by (simp add: defs sleep_ns_def)
  show "acquire_step (example_state t (Asleep 0 0) [10, 0] [example_permit None]) example_race"
    using return [of "example_state t (Asleep 0 0) [10, 0] [example_permit None]" t 0 0]
    by (simp add: defs example_race_def fun_upd_idem)
qed

lemma example_race_reach: "race_reach example_limiter example_race"
proof -
  note step = rtranclp.rtrancl_into_rtrancl [of acquire_step]
  note run = r_into_rtranclp [of acquire_step, OF example_acquire(2)]
  show ?thesis unfolding race_reach_def
    using step [OF step [OF step [OF step [OF step [OF run example_acquire(3)] example_acquire(4)] example_acquire(5)]
      example_acquire(6)] example_acquire(7)] .
qed

lemma rate_limit_window_witness:
  "rc_permits example_race \<noteq> [] \<and> sorted_wrt (apart 10) (map pm_slot (rc_permits example_race)) \<and>
   calls_within example_race 0 5 = 1 \<and> (1 - 1) * interval example_limiter + 0 < 5 + 10 ^ 6 \<and>
   returns_within 0 example_race 0 5 = 1 \<and> (1 - 1) * interval example_limiter + 0 < 5 + 0 + 10 ^ 6"
  using rate_limit_window [OF example_race_reach, of 5 0 0]
  by (simp add: example_race_def calls_within_def returns_within_def example_limiter_def interval_def)

lemma permits_spaced_witness:
  "sorted_wrt (apart 10) (map pm_slot (rc_permits example_race)) \<and> rc_permits example_race \<noteq> []"
  using permits_spaced [OF example_race_reach] by (simp add: example_race_def example_limiter_def interval_def)

text \<open>
  Of a shared limit and one for the call the tighter holds. For any rate within
  \<open>sane_rate\<close> the limiter chosen is the shared one, untouched, or a new one, and its interval is at
  least the shared interval and at least that of the rate asked for, up to a rounded nanosecond.
\<close>

theorem merge_limiters_restrictive:
  assumes "fl_ok fl" "sane_rate r"
  shows "\<exists>l. merge_limiters fl (Some shared) (Some (Finite r)) = Done (Some l) \<and>
    interval shared \<le> interval l \<and> 10 ^ 9 / r - 5 / 8 \<le> interval l \<and>
    (l = shared \<or> limiter_new fl (Finite r) = Done l \<and> rl_next_ns l = 0)"
proof -
  obtain d where d: "duration_from_secs (f64_div fl 1 (Finite r)) = Done d" "\<bar>real d - 10 ^ 9 / r\<bar> \<le> 5 / 8"
    using duration_near [OF assms] by blast
  define l where "l = \<lparr>rl_interval_ns = interval_of_f64 (f64_div fl (10 ^ 9) (Finite r)), rl_next_ns = 0\<rparr>"
  have new: "limiter_new fl (Finite r) = Done l"
    using sane_quotient(1) [OF assms(2)] by (simp add: limiter_new_def f64_positive_def l_def)
  have near: "\<bar>real (interval l) - 10 ^ 9 / r\<bar> \<le> 5 / 8"
    using interval_near [OF assms] by (simp add: l_def interval_def)
  show ?thesis
  proof (cases "d > interval shared")
    case True
    then have "real (interval shared) + 1 \<le> real d" by linarith
    then have "real (interval shared) - 1 / 4 \<le> real (interval l)" using d(2) near unfolding abs_le_iff by linarith
    then have "interval shared \<le> interval l" by linarith
    then show ?thesis using True d(1) new near unfolding abs_le_iff
      by (intro exI [of _ l]) (auto simp: merge_limiters_def l_def)
  next
    case False
    then have "10 ^ 9 / r - 5 / 8 \<le> real (interval shared)" using d(2) unfolding abs_le_iff by linarith
    then show ?thesis using False d(1) by (auto simp: merge_limiters_def)
  qed
qed

lemma merge_limiters_restrictive_witness:
  "\<exists>l. merge_limiters Finite (Some example_limiter) (Some (Finite 4)) = Done (Some l) \<and> 10 ^ 9 / 4 - 5 / 8 \<le> real (interval l)"
proof -
  have "fl_ok Finite" by (auto simp: fl_ok_def intro: order_trans [of 0 "1 / 2 ^ 1000"])
  moreover have "sane_rate 4" by (simp add: sane_rate_def)
  ultimately show ?thesis using merge_limiters_restrictive [of Finite 4 example_limiter] by blast
qed

end
