(* ===== verification/Batch.thy ===== *)
theory Batch
  imports Rate_Limiter Http_Client "HOL-Library.Multiset"
begin

text \<open>
  Batches, \<^verbatim>\<open>src/batch.rs\<close>: \<open>send_batch\<close> and \<open>send_batch_stream\<close> as step relations over the tasks they
  spawn, with the semaphore that bounds them (locale \<open>permits\<close>). What a request returns, in what order
  tasks run and whether one panics is up to the steps. Waiting at the rate limiter only delays a
  dispatch and has a theory of its own.
\<close>

section \<open>The shared contract\<close>

text \<open>A system whose steps hand permits from a semaphore to holders and back.\<close>

locale permits =
  fixes start :: 's and step :: "'s \<Rightarrow> 's \<Rightarrow> bool" and free :: "'s \<Rightarrow> nat" and holders :: "'s \<Rightarrow> nat" and capacity :: nat
  assumes start_full: "free start + holders start = capacity"
    and step_keeps: "step s s' \<Longrightarrow> free s' + holders s' = free s + holders s"
begin

lemma conserved: "step\<^sup>*\<^sup>* start s \<Longrightarrow> free s + holders s = capacity"
  by (induction rule: rtranclp_induct) (auto simp: start_full step_keeps)

lemma bounded: "step\<^sup>*\<^sup>* start s \<Longrightarrow> holders s \<le> capacity"
  using conserved by fastforce

end

section \<open>Results\<close>

record batch_result =
  br_url :: string
  br_result :: "failure + response"

datatype task = Queued | InFlight | Finished batch_result | Crashed string

definition in_flight :: "task list \<Rightarrow> nat" where
  "in_flight ts = length (filter (\<lambda>t. t = InFlight) ts)"

text \<open>What \<open>handle.await\<close> makes of a task that has ended.\<close>

definition joined :: "task \<Rightarrow> batch_result option" where
  "joined t = (case t of
       Finished r \<Rightarrow> Some r
     | Crashed e \<Rightarrow> Some \<lparr>br_url = ''<unknown>'', br_result = Inl (Client (err_other (''task panicked: '' @ e)))\<rparr>
     | _ \<Rightarrow> None)"

section \<open>The whole batch at once\<close>

text \<open>
  The tasks are those dispatched so far, in the order of the configurations; a queued one waits for a
  permit. Results are collected once all are dispatched.
\<close>

record batch =
  ba_tasks :: "task list"
  ba_free :: nat
  ba_results :: "batch_result list"

definition batch_start :: "nat \<Rightarrow> batch" where
  "batch_start concurrency = \<lparr>ba_tasks = [], ba_free = concurrency, ba_results = []\<rparr>"

inductive batch_step :: "request_config list \<Rightarrow> batch \<Rightarrow> batch \<Rightarrow> bool" for configs where
  dispatch: "length (ba_tasks s) < length configs \<Longrightarrow>
    batch_step configs s (s\<lparr>ba_tasks := ba_tasks s @ [Queued]\<rparr>)"
| permit: "i < length (ba_tasks s) \<Longrightarrow> ba_tasks s ! i = Queued \<Longrightarrow> 0 < ba_free s \<Longrightarrow>
    batch_step configs s (s\<lparr>ba_tasks := (ba_tasks s)[i := InFlight], ba_free := ba_free s - 1\<rparr>)"
| sent: "i < length (ba_tasks s) \<Longrightarrow> ba_tasks s ! i = InFlight \<Longrightarrow>
    batch_step configs s (s\<lparr>ba_tasks := (ba_tasks s)[i := Finished \<lparr>br_url = rc_url (configs ! i), br_result = r\<rparr>],
      ba_free := ba_free s + 1\<rparr>)"
| panic: "i < length (ba_tasks s) \<Longrightarrow> ba_tasks s ! i = InFlight \<Longrightarrow>
    batch_step configs s (s\<lparr>ba_tasks := (ba_tasks s)[i := Crashed e], ba_free := ba_free s + 1\<rparr>)"
| collect: "length (ba_tasks s) = length configs \<Longrightarrow> length (ba_results s) < length configs \<Longrightarrow>
    joined (ba_tasks s ! length (ba_results s)) = Some r \<Longrightarrow>
    batch_step configs s (s\<lparr>ba_results := ba_results s @ [r]\<rparr>)"

definition batch_reach :: "request_config list \<Rightarrow> nat \<Rightarrow> batch \<Rightarrow> bool" where
  "batch_reach configs concurrency s \<longleftrightarrow> (batch_step configs)\<^sup>*\<^sup>* (batch_start concurrency) s"

definition batch_done :: "request_config list \<Rightarrow> batch \<Rightarrow> bool" where
  "batch_done configs s \<longleftrightarrow> length (ba_results s) = length configs"

section \<open>The stream\<close>

text \<open>
  The driver takes the permit before it spawns a task; the task sends its result into the channel
  and drops the permit; the consumer takes results from the channel. A task that panics drops its
  permit and sends nothing.
\<close>

record stream =
  st_tasks :: "task list"
  st_free :: nat
  st_channel :: "batch_result list"
  st_yielded :: "batch_result list"

definition stream_start :: "nat \<Rightarrow> stream" where
  "stream_start concurrency = \<lparr>st_tasks = [], st_free = concurrency, st_channel = [], st_yielded = []\<rparr>"

inductive stream_step :: "request_config list \<Rightarrow> stream \<Rightarrow> stream \<Rightarrow> bool" for configs where
  spawn: "length (st_tasks s) < length configs \<Longrightarrow> 0 < st_free s \<Longrightarrow>
    stream_step configs s (s\<lparr>st_tasks := st_tasks s @ [InFlight], st_free := st_free s - 1\<rparr>)"
| sent: "i < length (st_tasks s) \<Longrightarrow> st_tasks s ! i = InFlight \<Longrightarrow> b = \<lparr>br_url = rc_url (configs ! i), br_result = r\<rparr> \<Longrightarrow>
    stream_step configs s (s\<lparr>st_tasks := (st_tasks s)[i := Finished b], st_channel := st_channel s @ [b], st_free := st_free s + 1\<rparr>)"
| panic: "i < length (st_tasks s) \<Longrightarrow> st_tasks s ! i = InFlight \<Longrightarrow>
    stream_step configs s (s\<lparr>st_tasks := (st_tasks s)[i := Crashed e], st_free := st_free s + 1\<rparr>)"
| yield: "st_channel s = b # bs \<Longrightarrow>
    stream_step configs s (s\<lparr>st_channel := bs, st_yielded := st_yielded s @ [b]\<rparr>)"

definition stream_reach :: "request_config list \<Rightarrow> nat \<Rightarrow> stream \<Rightarrow> bool" where
  "stream_reach configs concurrency s \<longleftrightarrow> (stream_step configs)\<^sup>*\<^sup>* (stream_start concurrency) s"

text \<open>Every sender is gone and the channel empty: the consumer sees the end.\<close>

definition stream_ended :: "request_config list \<Rightarrow> stream \<Rightarrow> bool" where
  "stream_ended configs s \<longleftrightarrow> length (st_tasks s) = length configs \<and> InFlight \<notin> set (st_tasks s) \<and> st_channel s = []"

section \<open>Permits\<close>

lemma in_flight_append [simp]: "in_flight (ts @ us) = in_flight ts + in_flight us"
  by (simp add: in_flight_def)

lemma in_flight_single [simp]: "in_flight [] = 0" "in_flight [t] = (if t = InFlight then 1 else 0)"
  by (simp_all add: in_flight_def)

lemma in_flight_update:
  "i < length ts \<Longrightarrow> in_flight (ts[i := t]) + (if ts ! i = InFlight then 1 else 0) = in_flight ts + (if t = InFlight then 1 else 0)"
proof (induction ts arbitrary: i)
  case (Cons a ts)
  show ?case using Cons.IH [of "i - 1"] Cons.prems by (cases i) (auto simp: in_flight_def)
qed simp

lemma in_flight_start:
  "i < length ts \<Longrightarrow> ts ! i = Queued \<Longrightarrow> in_flight (ts[i := InFlight]) = Suc (in_flight ts)"
  using in_flight_update [of i ts InFlight] by simp

lemma in_flight_stop:
  "i < length ts \<Longrightarrow> ts ! i = InFlight \<Longrightarrow> t \<noteq> InFlight \<Longrightarrow> Suc (in_flight (ts[i := t])) = in_flight ts"
  using in_flight_update [of i ts t] by simp

lemma batch_step_permits: "batch_step configs s s' \<Longrightarrow> ba_free s' + in_flight (ba_tasks s') = ba_free s + in_flight (ba_tasks s)"
  by (induction rule: batch_step.induct) (simp_all add: in_flight_start in_flight_stop)

lemma stream_step_permits: "stream_step configs s s' \<Longrightarrow> st_free s' + in_flight (st_tasks s') = st_free s + in_flight (st_tasks s)"
  by (induction rule: stream_step.induct) (simp_all add: in_flight_start in_flight_stop)

interpretation batch_permits: permits "batch_start concurrency" "batch_step configs" ba_free "\<lambda>s. in_flight (ba_tasks s)" concurrency
  for configs concurrency
  by unfold_locales (simp_all add: batch_start_def batch_step_permits)

interpretation stream_permits: permits "stream_start concurrency" "stream_step configs" st_free "\<lambda>s. in_flight (st_tasks s)" concurrency
  for configs concurrency
  by unfold_locales (simp_all add: stream_start_def stream_step_permits)

section \<open>The results of a batch\<close>

definition task_ok :: "request_config list \<Rightarrow> nat \<Rightarrow> task \<Rightarrow> bool" where
  "task_ok configs i t = (case t of Finished r \<Rightarrow> br_url r = rc_url (configs ! i) | _ \<Rightarrow> True)"

definition batch_inv :: "request_config list \<Rightarrow> batch \<Rightarrow> bool" where
  "batch_inv configs s \<longleftrightarrow> length (ba_tasks s) \<le> length configs \<and>
     (\<forall>i < length (ba_tasks s). task_ok configs i (ba_tasks s ! i)) \<and>
     length (ba_results s) \<le> length (ba_tasks s) \<and>
     (\<forall>i < length (ba_results s). joined (ba_tasks s ! i) = Some (ba_results s ! i))"

lemma task_ok_simps [simp]:
  "task_ok configs i Queued" "task_ok configs i InFlight" "task_ok configs i (Crashed e)"
  "task_ok configs i (Finished r) \<longleftrightarrow> br_url r = rc_url (configs ! i)"
  by (simp_all add: task_ok_def)

lemma joined_simps [simp]: "joined Queued = None" "joined InFlight = None" "joined (Finished r) = Some r"
  by (simp_all add: joined_def)

lemma joined_url: "joined t = Some r \<Longrightarrow> task_ok configs i t \<Longrightarrow> br_url r = rc_url (configs ! i) \<or> br_url r = ''<unknown>''"
  by (cases t) (auto simp: joined_def)

lemma joined_running: "joined t = None \<longleftrightarrow> t = Queued \<or> t = InFlight"
  by (simp add: joined_def split: task.split)

lemma batch_step_inv: "batch_step configs s s' \<Longrightarrow> batch_inv configs s \<Longrightarrow> batch_inv configs s'"
proof (induction rule: batch_step.induct)
  case (collect s r)
  then show ?case by (auto simp: batch_inv_def nth_append less_Suc_eq)
qed (fastforce simp: batch_inv_def nth_append nth_list_update less_Suc_eq)+

lemma batch_reach_inv: "batch_reach configs c s \<Longrightarrow> batch_inv configs s"
  unfolding batch_reach_def
proof (induction rule: rtranclp_induct)
  case base
  show ?case by (simp add: batch_start_def batch_inv_def)
qed (rule batch_step_inv)

section \<open>Progress\<close>

definition task_weight :: "task \<Rightarrow> nat" where
  "task_weight t = (case t of Queued \<Rightarrow> 2 | InFlight \<Rightarrow> 1 | _ \<Rightarrow> 0)"

definition batch_weight :: "request_config list \<Rightarrow> batch \<Rightarrow> nat" where
  "batch_weight configs s = 3 * (length configs - length (ba_tasks s)) + sum_list (map task_weight (ba_tasks s)) +
     (length configs - length (ba_results s))"

lemma weight_update:
  "i < length ts \<Longrightarrow> task_weight t < task_weight (ts ! i) \<Longrightarrow>
     sum_list (map task_weight (ts[i := t])) < sum_list (map task_weight ts)"
proof (induction ts arbitrary: i)
  case (Cons a ts)
  then show ?case by (cases i) auto
qed simp

lemma batch_step_weight: "batch_step configs s s' \<Longrightarrow> batch_weight configs s' < batch_weight configs s"
proof (induction rule: batch_step.induct)
  case (permit i s)
  then show ?case using weight_update [of i "ba_tasks s" InFlight] by (simp add: batch_weight_def task_weight_def)
next
  case (sent i s r)
  then show ?case using weight_update [of i "ba_tasks s" "Finished \<lparr>br_url = rc_url (configs ! i), br_result = r\<rparr>"]
    by (simp add: batch_weight_def task_weight_def)
next
  case (panic i s e)
  then show ?case using weight_update [of i "ba_tasks s" "Crashed e"] by (simp add: batch_weight_def task_weight_def)
qed (auto simp: batch_weight_def task_weight_def)

lemma in_flight_pos: "0 < in_flight ts \<Longrightarrow> \<exists>i < length ts. ts ! i = InFlight"
  by (auto simp: in_flight_def filter_empty_conv in_set_conv_nth)

lemma batch_progress:
  assumes "batch_reach configs c s" "0 < c" "\<not> batch_done configs s"
  shows "\<exists>s'. batch_step configs s s'"
proof -
  have inv: "batch_inv configs s" by (rule batch_reach_inv [OF assms(1)])
  have perm: "ba_free s + in_flight (ba_tasks s) = c"
    using assms(1) by (intro batch_permits.conserved) (simp add: batch_reach_def)
  consider "length (ba_tasks s) < length configs" | i where "i < length (ba_tasks s)" "ba_tasks s ! i = InFlight"
    | "length (ba_tasks s) = length configs" "in_flight (ba_tasks s) = 0"
    using in_flight_pos [of "ba_tasks s"] inv unfolding batch_inv_def by fastforce
  then show ?thesis
  proof cases
    case 3
    let ?j = "length (ba_results s)"
    have j: "?j < length (ba_tasks s)" using inv assms(3) 3(1) unfolding batch_inv_def batch_done_def by simp
    then have "ba_tasks s ! ?j \<noteq> InFlight"
      using 3(2) by (auto simp: in_flight_def filter_empty_conv)
    then consider r where "joined (ba_tasks s ! ?j) = Some r" | "ba_tasks s ! ?j = Queued"
      using joined_running by (metis not_None_eq)
    then show ?thesis using j 3 perm assms(2) by cases (use batch_step.collect batch_step.permit in \<open>fastforce+\<close>)
  qed (auto intro: batch_step.intros)
qed

lemma batch_wf: "wfp (\<lambda>s' s. batch_step configs s s')"
  by (rule wfp_if_convertible_to_nat [of _ "batch_weight configs"]) (rule batch_step_weight)

section \<open>The results of a stream\<close>

definition finished_results :: "task list \<Rightarrow> batch_result list" where
  "finished_results ts = List.map_filter (\<lambda>t. case t of Finished r \<Rightarrow> Some r | _ \<Rightarrow> None) ts"

definition stream_inv :: "request_config list \<Rightarrow> stream \<Rightarrow> bool" where
  "stream_inv configs s \<longleftrightarrow> length (st_tasks s) \<le> length configs \<and> Queued \<notin> set (st_tasks s) \<and>
     (\<forall>i < length (st_tasks s). task_ok configs i (st_tasks s ! i)) \<and>
     mset (st_yielded s) + mset (st_channel s) = mset (finished_results (st_tasks s))"

lemma finished_results_Cons [simp]:
  "finished_results [] = []"
  "finished_results (t # ts) = (case t of Finished r \<Rightarrow> [r] | _ \<Rightarrow> []) @ finished_results ts"
  by (simp_all add: finished_results_def map_filter_simps split: task.split)

lemma finished_results_append [simp]: "finished_results (ts @ us) = finished_results ts @ finished_results us"
  by (induction ts) simp_all

lemma finished_results_update:
  "i < length ts \<Longrightarrow> ts ! i = InFlight \<Longrightarrow>
     mset (finished_results (ts[i := t])) = mset (finished_results ts) + mset (finished_results [t])"
proof (induction ts arbitrary: i)
  case (Cons a ts)
  then show ?case by (cases i) (auto split: task.split)
qed simp

lemma stream_step_inv: "stream_step configs s s' \<Longrightarrow> stream_inv configs s \<Longrightarrow> stream_inv configs s'"
proof (induction rule: stream_step.induct)
  case (sent i s b r)
  then show ?case using set_update_subset_insert [of "st_tasks s" i "Finished b"]
    by (auto simp: stream_inv_def nth_list_update finished_results_update)
next
  case (panic i s e)
  then show ?case using set_update_subset_insert [of "st_tasks s" i "Crashed e"]
    by (auto simp: stream_inv_def nth_list_update finished_results_update)
qed (auto simp: stream_inv_def nth_append less_Suc_eq)

lemma stream_reach_inv: "stream_reach configs c s \<Longrightarrow> stream_inv configs s"
  unfolding stream_reach_def
proof (induction rule: rtranclp_induct)
  case base
  show ?case by (simp add: stream_start_def stream_inv_def)
qed (rule stream_step_inv)

section \<open>Properties\<close>

text \<open>
  C10: No more requests are in flight than the concurrency allows, in either kind of batch and in any
  order of events; permits are never lost, also when a task panics.
\<close>

theorem batch_concurrency:
  "(batch_reach configs c s \<longrightarrow> in_flight (ba_tasks s) \<le> c \<and> ba_free s + in_flight (ba_tasks s) = c) \<and>
   (stream_reach configs c t \<longrightarrow> in_flight (st_tasks t) \<le> c \<and> st_free t + in_flight (st_tasks t) = c)"
  using batch_permits.conserved [where configs = configs and concurrency = c and s = s]
    stream_permits.conserved [where configs = configs and concurrency = c and s = t]
  by (fastforce simp: batch_reach_def stream_reach_def)

text \<open>One request, one permit: a run to the end.\<close>

definition example_batch_result :: batch_result where
  "example_batch_result = \<lparr>br_url = ''u'', br_result = Inl Panicked\<rparr>"

lemma single_batch_run:
  assumes "br = \<lparr>br_url = rc_url cfg, br_result = r\<rparr>"
  shows "batch_reach [cfg] 1 \<lparr>ba_tasks = [InFlight], ba_free = 0, ba_results = []\<rparr>"
    "batch_reach [cfg] 1 \<lparr>ba_tasks = [Finished br], ba_free = 1, ba_results = [br]\<rparr>"
proof -
  let ?step = "batch_step [cfg]"
  let ?s = "\<lambda>ts f rs. \<lparr>ba_tasks = ts, ba_free = f, ba_results = rs\<rparr> :: batch"
  have s1: "?step (?s [] 1 []) (?s [Queued] 1 [])"
    using batch_step.dispatch [of "?s [] 1 []" "[cfg]"] by simp
  have s2: "?step (?s [Queued] 1 []) (?s [InFlight] 0 [])"
    using batch_step.permit [of 0 "?s [Queued] 1 []"] by simp
  have s3: "?step (?s [InFlight] 0 []) (?s [Finished br] 1 [])"
    using batch_step.sent [of 0 "?s [InFlight] 0 []" "[cfg]" r] by (simp add: assms)
  have s4: "?step (?s [Finished br] 1 []) (?s [Finished br] 1 [br])"
    using batch_step.collect [of "?s [Finished br] 1 []" "[cfg]"] by simp
  note then_step = rtranclp.rtrancl_into_rtrancl [of ?step]
  show fl: "batch_reach [cfg] 1 (?s [InFlight] 0 [])"
    using then_step [OF r_into_rtranclp [of ?step, OF s1] s2] by (simp add: batch_reach_def batch_start_def)
  then show "batch_reach [cfg] 1 (?s [Finished br] 1 [br])"
    unfolding batch_reach_def by (intro then_step [OF then_step [OF _ s3] s4])
qed

lemma example_batch_run:
  "batch_reach [config_new ''u''] 1 \<lparr>ba_tasks = [InFlight], ba_free = 0, ba_results = []\<rparr>"
  "batch_reach [config_new ''u''] 1 \<lparr>ba_tasks = [Finished example_batch_result], ba_free = 1, ba_results = [example_batch_result]\<rparr>"
  using single_batch_run [of example_batch_result "config_new ''u''" "Inl Panicked"]
  by (simp_all add: example_batch_result_def config_new_def)

lemma batch_concurrency_witness:
  "batch_reach [config_new ''u''] 1 \<lparr>ba_tasks = [InFlight], ba_free = 0, ba_results = []\<rparr> \<and> in_flight [InFlight] \<le> 1"
  using batch_concurrency [of "[config_new ''u'']" 1] example_batch_run(1) by fastforce

lemma batch_done_lengths:
  assumes "batch_reach configs c s" "batch_done configs s"
  shows "length (ba_tasks s) = length configs" "length (ba_results s) = length configs"
  using batch_reach_inv [OF assms(1)] assms(2) by (simp_all add: batch_inv_def batch_done_def)

lemma batch_done_urls:
  assumes "batch_reach configs c s" "batch_done configs s" "i < length configs"
  shows "br_url (ba_results s ! i) = rc_url (configs ! i) \<or> br_url (ba_results s ! i) = ''<unknown>''"
  using batch_reach_inv [OF assms(1)] batch_done_lengths [OF assms(1,2)] assms(3)
  by (intro joined_url [of "ba_tasks s ! i"]) (auto simp: batch_inv_def)

text \<open>
  C11: A batch returns one result per configuration, in their order, whatever order the requests end in:
  each is that of its own task under the URL of its configuration, or the report that the task panicked.
\<close>

theorem batch_results:
  assumes "batch_reach configs c s" "batch_done configs s"
  shows "length (ba_tasks s) = length configs \<and> map Some (ba_results s) = map joined (ba_tasks s) \<and>
    (\<forall>i < length configs. br_url (ba_results s ! i) = rc_url (configs ! i) \<or> br_url (ba_results s ! i) = ''<unknown>'')"
proof -
  have "map Some (ba_results s) = map joined (ba_tasks s)"
    using batch_reach_inv [OF assms(1)] batch_done_lengths [OF assms]
    by (intro nth_equalityI) (simp_all add: batch_inv_def)
  with batch_done_lengths(1) [OF assms] batch_done_urls [OF assms] show ?thesis by blast
qed

lemma batch_results_witness:
  "map Some [example_batch_result] = map joined [Finished example_batch_result] \<and> br_url example_batch_result = ''u''"
  using batch_results [OF example_batch_run(2)] by (simp add: batch_done_def example_batch_result_def)

text \<open>
  C12: A batch with room for at least one request ends. No run is infinite, and a run cannot get stuck
  before every result is collected.
\<close>

theorem batch_ends:
  "wfp (\<lambda>s' s. batch_step configs s s') \<and>
   (batch_reach configs c s \<and> 0 < c \<and> \<not> batch_done configs s \<longrightarrow> (\<exists>s'. batch_step configs s s'))"
  using batch_wf batch_progress by blast

lemma batch_ends_witness:
  "\<exists>s'. batch_step [config_new ''u''] \<lparr>ba_tasks = [InFlight], ba_free = 0, ba_results = []\<rparr> s'"
  using batch_ends [of "[config_new ''u'']" 1] example_batch_run(1) by (fastforce simp: batch_done_def)

text \<open>With a concurrency of 0, which nothing rejects, a batch of any request never ends.\<close>

lemma batch_zero_hangs:
  assumes "batch_reach configs 0 s" "configs \<noteq> []"
  shows "\<not> batch_done configs s"
proof
  have "(batch_step configs)\<^sup>*\<^sup>* (batch_start 0) s \<Longrightarrow> ba_free s = 0 \<and> set (ba_tasks s) \<subseteq> {Queued} \<and> ba_results s = []" for s
  proof (induction rule: rtranclp_induct)
    case (step s s')
    from step.hyps(2) step.IH show ?case
    proof (induction rule: batch_step.induct)
      case (collect s r)
      then have "ba_tasks s ! 0 = Queued" using assms(2) by (metis length_greater_0_conv nth_mem singletonD subsetD)
      with collect show ?case by (simp add: joined_def)
    qed (auto dest: nth_mem)
  qed (simp add: batch_start_def)
  with assms show "batch_done configs s \<Longrightarrow> False" by (auto simp: batch_reach_def batch_done_def)
qed

lemma stream_ended_results:
  assumes "stream_reach configs c s" "stream_ended configs s"
  shows "mset (st_yielded s) = mset (finished_results (st_tasks s)) \<and>
    list_all2 (\<lambda>config t. case t of Finished r \<Rightarrow> br_url r = rc_url config | Crashed _ \<Rightarrow> True | _ \<Rightarrow> False) configs (st_tasks s)"
  using stream_reach_inv [OF assms(1)] assms(2)
  by (auto simp: stream_inv_def stream_ended_def list_all2_conv_all_nth in_set_conv_nth task_ok_def split: task.splits)

text \<open>The URLs of what a stream yields are URLs of its configurations, each as often at most.\<close>

lemma stream_ended_urls:
  assumes "stream_reach configs c s" "stream_ended configs s"
  shows "mset (map br_url (st_yielded s)) \<subseteq># mset (map rc_url configs)"
proof -
  have "mset (map br_url (finished_results ts)) \<subseteq># mset (map rc_url cs)"
    if "list_all2 (\<lambda>config t. case t of Finished r \<Rightarrow> br_url r = rc_url config | Crashed _ \<Rightarrow> True | _ \<Rightarrow> False) cs ts" for cs ts
    using that by (induction rule: list_all2_induct) (auto split: task.splits intro: subset_mset.order_trans)
  then show ?thesis using stream_ended_results [OF assms] by (metis mset_map)
qed

text \<open>
  C13: A stream that has ended yielded every result exactly once, in whatever order: the results are
  those of the finished tasks, one task per configuration, each under that configuration's URL.
\<close>

theorem stream_results:
  assumes "stream_reach configs c s" "stream_ended configs s"
  shows "mset (st_yielded s) = mset (finished_results (st_tasks s)) \<and>
    list_all2 (\<lambda>config t. case t of Finished r \<Rightarrow> br_url r = rc_url config | Crashed _ \<Rightarrow> True | _ \<Rightarrow> False) configs (st_tasks s)"
  by (rule stream_ended_results [OF assms])

lemma stream_results_witness:
  "stream_ended [config_new ''u''] \<lparr>st_tasks = [Finished example_batch_result], st_free = 1, st_channel = [], st_yielded = [example_batch_result]\<rparr> \<and>
   mset [example_batch_result] = mset (finished_results [Finished example_batch_result])"
proof -
  let ?step = "stream_step [config_new ''u'']"
  let ?s = "\<lambda>ts f ch ys. \<lparr>st_tasks = ts, st_free = f, st_channel = ch, st_yielded = ys\<rparr> :: stream"
  have s1: "?step (?s [] 1 [] []) (?s [InFlight] 0 [] [])"
    using stream_step.spawn [of "?s [] 1 [] []" "[config_new ''u'']"] by simp
  have s2: "?step (?s [InFlight] 0 [] []) (?s [Finished example_batch_result] 1 [example_batch_result] [])"
    using stream_step.sent [of 0 "?s [InFlight] 0 [] []" example_batch_result "[config_new ''u'']" "Inl Panicked"]
    by (simp add: example_batch_result_def config_new_def)
  have s3: "?step (?s [Finished example_batch_result] 1 [example_batch_result] []) (?s [Finished example_batch_result] 1 [] [example_batch_result])"
    using stream_step.yield [of "?s [Finished example_batch_result] 1 [example_batch_result] []"] by simp
  note then_step = rtranclp.rtrancl_into_rtrancl [of ?step]
  have "stream_reach [config_new ''u''] 1 (?s [Finished example_batch_result] 1 [] [example_batch_result])"
    using then_step [OF then_step [OF r_into_rtranclp [of ?step, OF s1] s2] s3] by (simp add: stream_reach_def stream_start_def)
  from stream_results [OF this] show ?thesis by (simp add: stream_ended_def)
qed

text \<open>The stream says nothing of a task that panicked, where \<open>send_batch\<close> reports it.\<close>

lemma stream_loses_panics:
  assumes "stream_reach configs c s" "stream_ended configs s" "Crashed e \<in> set (st_tasks s)"
  shows "length (st_yielded s) < length configs"
proof -
  have "mset (st_yielded s) = mset (finished_results (st_tasks s))" "length (st_tasks s) = length configs"
    using stream_reach_inv [OF assms(1)] assms(2) by (auto simp: stream_inv_def stream_ended_def)
  moreover have "length (finished_results ts) \<le> length ts" for ts by (induction ts) (auto split: task.split)
  then have "Crashed e \<in> set ts \<Longrightarrow> length (finished_results ts) < length ts" for ts
    by (induction ts) (auto split: task.split simp: le_imp_less_Suc less_SucI)
  ultimately show ?thesis using assms(3) by (metis size_mset)
qed

end
