(* ===== verification/Paced_Batch.thy ===== *)
theory Paced_Batch
  imports Batch
begin

text \<open>
  A batch under a rate limit, \<^verbatim>\<open>src/batch.rs\<close>: the driver of \<open>send_batch\<close> or \<open>send_batch_stream\<close> takes
  a permit of the limiter before each dispatch, while other tasks race for the same limiter. The two
  drivers are one step relation over the batch or stream they drive; the driver is task 0 of the race.
\<close>

section \<open>The driver\<close>

text \<open>Between dispatches, inside \<open>acquire\<close>, or back from it with the permit of that number.\<close>

datatype driver = Ready | Acquiring | Granted nat

text \<open>The log has the permit and the time of each dispatch, in their order.\<close>

record 'b paced =
  pa_race :: race
  pa_driver :: driver
  pa_inner :: 'b
  pa_log :: "(nat \<times> nat) list"

inductive paced_step :: "('b \<Rightarrow> 'b \<Rightarrow> bool) \<Rightarrow> ('b \<Rightarrow> nat) \<Rightarrow> nat \<Rightarrow> 'b paced \<Rightarrow> 'b paced \<Rightarrow> bool"
  for sys dispatched n where
  others: "acquire_step (pa_race s) r \<Longrightarrow> rc_pcs r 0 = rc_pcs (pa_race s) 0 \<Longrightarrow>
    paced_step sys dispatched n s (s\<lparr>pa_race := r\<rparr>)"
| enter: "pa_driver s = Ready \<Longrightarrow> dispatched (pa_inner s) < n \<Longrightarrow>
    r = set_pc 0 (Loop (rc_clock (pa_race s))) (pa_race s) \<Longrightarrow>
    paced_step sys dispatched n s (s\<lparr>pa_race := r, pa_driver := Acquiring\<rparr>)"
| inside: "pa_driver s = Acquiring \<Longrightarrow> acquire_step (pa_race s) r \<Longrightarrow> rc_pcs r 0 \<noteq> Out \<Longrightarrow>
    paced_step sys dispatched n s (s\<lparr>pa_race := r\<rparr>)"
| leave: "pa_driver s = Acquiring \<Longrightarrow> acquire_step (pa_race s) r \<Longrightarrow>
    rc_pcs (pa_race s) 0 = Asleep k wake \<Longrightarrow> rc_pcs r 0 = Out \<Longrightarrow>
    paced_step sys dispatched n s (s\<lparr>pa_race := r, pa_driver := Granted k\<rparr>)"
| dispatch: "pa_driver s = Granted k \<Longrightarrow> sys (pa_inner s) b \<Longrightarrow> dispatched b = Suc (dispatched (pa_inner s)) \<Longrightarrow>
    paced_step sys dispatched n s
      (s\<lparr>pa_driver := Ready, pa_inner := b, pa_log := pa_log s @ [(k, rc_clock (pa_race s))]\<rparr>)"
| run: "sys (pa_inner s) b \<Longrightarrow> dispatched b = dispatched (pa_inner s) \<Longrightarrow>
    paced_step sys dispatched n s (s\<lparr>pa_inner := b\<rparr>)"

text \<open>A start: a limiter that others may be using already, and the batch at its beginning.\<close>

definition paced_start :: "race \<Rightarrow> 'b \<Rightarrow> 'b paced" where
  "paced_start r b = \<lparr>pa_race = r, pa_driver = Ready, pa_inner = b, pa_log = []\<rparr>"

definition paced_batch :: "rate_limiter \<Rightarrow> request_config list \<Rightarrow> nat \<Rightarrow> batch paced \<Rightarrow> bool" where
  "paced_batch l configs concurrency s \<longleftrightarrow>
     (\<exists>r. race_reach l r \<and> rc_pcs r 0 = Out \<and>
       (paced_step (batch_step configs) (\<lambda>b. length (ba_tasks b)) (length configs))\<^sup>*\<^sup>*
         (paced_start r (batch_start concurrency)) s)"

definition paced_stream :: "rate_limiter \<Rightarrow> request_config list \<Rightarrow> nat \<Rightarrow> stream paced \<Rightarrow> bool" where
  "paced_stream l configs concurrency s \<longleftrightarrow>
     (\<exists>r. race_reach l r \<and> rc_pcs r 0 = Out \<and>
       (paced_step (stream_step configs) (\<lambda>b. length (st_tasks b)) (length configs))\<^sup>*\<^sup>*
         (paced_start r (stream_start concurrency)) s)"

text \<open>
  Whole calls: the limiter is the one that \<open>merge_limiters\<close> chooses; without one nothing paces the
  dispatches; if choosing panics, the call does nothing.
\<close>

definition send_batch_run ::
  "(real \<Rightarrow> f64) \<Rightarrow> rate_limiter option \<Rightarrow> f64 option \<Rightarrow> request_config list \<Rightarrow> nat \<Rightarrow> batch \<Rightarrow> bool" where
  "send_batch_run fl shared_limiter rate_limit configs concurrency b \<longleftrightarrow>
     (case merge_limiters fl shared_limiter rate_limit of
        Panic \<Rightarrow> False
      | Done None \<Rightarrow> batch_reach configs concurrency b
      | Done (Some l) \<Rightarrow> \<exists>s. paced_batch l configs concurrency s \<and> b = pa_inner s)"

definition send_stream_run ::
  "(real \<Rightarrow> f64) \<Rightarrow> rate_limiter option \<Rightarrow> f64 option \<Rightarrow> request_config list \<Rightarrow> nat \<Rightarrow> stream \<Rightarrow> bool" where
  "send_stream_run fl shared_limiter rate_limit configs concurrency b \<longleftrightarrow>
     (case merge_limiters fl shared_limiter rate_limit of
        Panic \<Rightarrow> False
      | Done None \<Rightarrow> stream_reach configs concurrency b
      | Done (Some l) \<Rightarrow> \<exists>s. paced_stream l configs concurrency s \<and> b = pa_inner s)"

section \<open>What a race keeps\<close>

text \<open>Permits are handed out for good: their slots and the times of their calls do not change.\<close>

lemma returned_permit [simp]:
  "pm_slot (ps[k := (ps ! k)\<lparr>pm_returned := r\<rparr>] ! j) = pm_slot (ps ! j)"
  "pm_called (ps[k := (ps ! k)\<lparr>pm_returned := r\<rparr>] ! j) = pm_called (ps ! j)"
proof -
  have "ps[k := p] ! j = (if k = j \<and> k < length ps then p else ps ! j)" for p
    by (cases "k < length ps") (auto simp: not_less list_update_beyond)
  then show "pm_slot (ps[k := (ps ! k)\<lparr>pm_returned := r\<rparr>] ! j) = pm_slot (ps ! j)"
    "pm_called (ps[k := (ps ! k)\<lparr>pm_returned := r\<rparr>] ! j) = pm_called (ps ! j)" by simp_all
qed

lemma acquire_step_permits:
  assumes "acquire_step s s'"
  shows "length (rc_permits s) \<le> length (rc_permits s') \<and> rc_clock s \<le> rc_clock s' \<and>
    (\<forall>k < length (rc_permits s). pm_slot (rc_permits s' ! k) = pm_slot (rc_permits s ! k) \<and>
       pm_called (rc_permits s' ! k) = pm_called (rc_permits s ! k))"
  using assms by (induction rule: acquire_step.induct) (auto simp: nth_append)

text \<open>What an acquiring task has got so far: the time of its call, or the number of its permit.\<close>

definition called_after :: "nat \<Rightarrow> race \<Rightarrow> bool" where
  "called_after c s \<longleftrightarrow>
     (case rc_pcs s 0 of Out \<Rightarrow> False | Loop a \<Rightarrow> c \<le> a | Loaded a _ \<Rightarrow> c \<le> a | Clocked a _ _ \<Rightarrow> c \<le> a
        | Holding k \<Rightarrow> c \<le> pm_called (rc_permits s ! k) | Asleep k _ \<Rightarrow> c \<le> pm_called (rc_permits s ! k))"

text \<open>The permit that the driver will get, if it has one, is later than the first \<open>n\<close>.\<close>

definition permit_after :: "nat \<Rightarrow> race \<Rightarrow> bool" where
  "permit_after k s \<longleftrightarrow> k < length (rc_permits s) \<and>
     (case rc_pcs s 0 of Holding j \<Rightarrow> k < j | Asleep j _ \<Rightarrow> k < j | _ \<Rightarrow> True)"

lemma acquire_step_called:
  assumes "acquire_step s s'" "called_after c s" "race_inv s" "rc_pcs s' 0 \<noteq> Out"
  shows "called_after c s'"
  using assms race_invD(4) [OF assms(3), of 0]
  by (induction rule: acquire_step.induct)
    (auto simp: called_after_def pc_ok_def nth_append split: acquire_pc.splits if_splits)

lemma acquire_step_permit_after:
  assumes "acquire_step s s'" "permit_after k s"
  shows "permit_after k s'"
  using assms
  by (induction rule: acquire_step.induct)
    (auto simp: permit_after_def split: acquire_pc.splits)

section \<open>The invariant of a paced run\<close>

text \<open>Entries of the log, the earlier one first: a later permit, whose call came after the dispatch.\<close>

definition follows :: "race \<Rightarrow> nat \<times> nat \<Rightarrow> nat \<times> nat \<Rightarrow> bool" where
  "follows r x y \<longleftrightarrow> fst x < fst y \<and> snd x \<le> pm_called (rc_permits r ! fst y)"

definition entry_ok :: "race \<Rightarrow> nat \<times> nat \<Rightarrow> bool" where
  "entry_ok r x \<longleftrightarrow> permit_after (fst x) r \<and> snd x \<le> rc_clock r \<and>
     unat (pm_slot (rc_permits r ! fst x)) < snd x + 10 ^ 6"

definition driver_ok :: "'b paced \<Rightarrow> bool" where
  "driver_ok s \<longleftrightarrow>
     (case pa_driver s of
        Ready \<Rightarrow> rc_pcs (pa_race s) 0 = Out
      | Acquiring \<Rightarrow> rc_pcs (pa_race s) 0 \<noteq> Out \<and> (\<forall>x \<in> set (pa_log s). called_after (snd x) (pa_race s))
      | Granted k \<Rightarrow> rc_pcs (pa_race s) 0 = Out \<and> k < length (rc_permits (pa_race s)) \<and>
          unat (pm_slot (rc_permits (pa_race s) ! k)) < rc_clock (pa_race s) + 10 ^ 6 \<and>
          (\<forall>x \<in> set (pa_log s). follows (pa_race s) x (k, 0)))"

definition paced_inv :: "('b \<Rightarrow> nat) \<Rightarrow> 'b paced \<Rightarrow> bool" where
  "paced_inv dispatched s \<longleftrightarrow> sorted_wrt (follows (pa_race s)) (pa_log s) \<and>
     (\<forall>x \<in> set (pa_log s). entry_ok (pa_race s) x) \<and> driver_ok s \<and> dispatched (pa_inner s) = length (pa_log s)"

lemma paced_invD:
  assumes "paced_inv dispatched s"
  shows "sorted_wrt (follows (pa_race s)) (pa_log s)" "x \<in> set (pa_log s) \<Longrightarrow> entry_ok (pa_race s) x"
    "driver_ok s" "dispatched (pa_inner s) = length (pa_log s)"
  using assms by (auto simp: paced_inv_def)

lemma driver_ok_inner [simp]: "driver_ok (s\<lparr>pa_inner := b\<rparr>) = driver_ok s"
  by (cases "pa_driver s") (simp_all add: driver_ok_def)

lemma follows_step:
  "follows r x y \<Longrightarrow> acquire_step r r' \<Longrightarrow> fst y < length (rc_permits r) \<Longrightarrow> follows r' x y"
  using acquire_step_permits [of r r'] by (simp add: follows_def)

lemma entry_ok_step: "entry_ok r x \<Longrightarrow> acquire_step r r' \<Longrightarrow> entry_ok r' x"
  using acquire_step_permits [of r r'] acquire_step_permit_after [of r r' "fst x"]
  by (auto simp: entry_ok_def permit_after_def)

text \<open>A step of the race keeps the log's part of the invariant, whatever it does to the driver.\<close>

lemma race_step_inv:
  assumes "paced_inv dispatched s" "acquire_step (pa_race s) r" "driver_ok (s\<lparr>pa_race := r, pa_driver := d\<rparr>)"
  shows "paced_inv dispatched (s\<lparr>pa_race := r, pa_driver := d\<rparr>)"
proof -
  have "sorted_wrt (follows r) (pa_log s)"
    using paced_invD(1) [OF assms(1)] by (rule sorted_wrt_mono_rel [rotated])
      (use paced_invD(2) [OF assms(1)] in \<open>auto simp: entry_ok_def permit_after_def intro!: follows_step [OF _ assms(2)]\<close>)
  then show ?thesis
    using paced_invD(2,4) [OF assms(1)] entry_ok_step [OF _ assms(2)] assms(3) by (auto simp: paced_inv_def)
qed

lemma others_driver_ok:
  assumes "paced_inv dispatched s" "acquire_step (pa_race s) r" "rc_pcs r 0 = rc_pcs (pa_race s) 0" "race_inv (pa_race s)"
  shows "driver_ok (s\<lparr>pa_race := r\<rparr>)"
proof (cases "pa_driver s")
  case Acquiring
  then show ?thesis using paced_invD(3) [OF assms(1)] acquire_step_called [OF assms(2) _ assms(4)] assms(3)
    by (auto simp: driver_ok_def)
next
  case (Granted k)
  then show ?thesis
    using paced_invD(3) [OF assms(1)] acquire_step_permits [OF assms(2)] follows_step [OF _ assms(2)] assms(3)
    by (fastforce simp: driver_ok_def)
qed (use paced_invD(3) [OF assms(1)] assms(3) in \<open>simp add: driver_ok_def\<close>)

lemma leave_driver_ok:
  assumes "paced_inv dispatched s" "pa_driver s = Acquiring" "acquire_step (pa_race s) r"
    "rc_pcs (pa_race s) 0 = Asleep k wake" "rc_pcs r 0 = Out" "race_inv (pa_race s)" "wake \<le> rc_clock (pa_race s)"
  shows "driver_ok (s\<lparr>pa_race := r, pa_driver := Granted k\<rparr>)"
proof -
  note p = acquire_step_permits [OF assms(3)]
  have k: "k < length (rc_permits (pa_race s))" "unat (pm_slot (rc_permits (pa_race s) ! k)) < wake + 10 ^ 6"
    using race_invD(4) [OF assms(6), of 0] assms(4) by (auto simp: pc_ok_def)
  have "follows (pa_race s) x (k, 0)" if "x \<in> set (pa_log s)" for x
    using paced_invD(2) [OF assms(1) that] paced_invD(3) [OF assms(1)] assms(2,4) that
    by (auto simp: follows_def driver_ok_def entry_ok_def permit_after_def called_after_def)
  then have "follows r x (k, 0)" if "x \<in> set (pa_log s)" for x
    using follows_step [OF _ assms(3)] k(1) that by simp
  then show ?thesis using assms(5,7) k p by (auto simp: driver_ok_def intro: order.strict_trans2 [of _ "wake + 10 ^ 6"])
qed

lemma acquire_step_awake:
  "acquire_step s s' \<Longrightarrow> rc_pcs s 0 = Asleep k wake \<Longrightarrow> rc_pcs s' 0 = Out \<Longrightarrow> wake \<le> rc_clock s"
  by (induction rule: acquire_step.induct) (auto split: if_splits)

text \<open>The race goes on by its own steps.\<close>

lemma paced_step_race:
  assumes "paced_step sys dispatched n s s'" "paced_inv dispatched s"
  shows "pa_race s' = pa_race s \<or> acquire_step (pa_race s) (pa_race s')"
  using assms
proof (induction rule: paced_step.induct)
  case (enter s r)
  have "rc_pcs (pa_race s) 0 = Out" using paced_invD(3) [OF enter.prems] enter.hyps(1) by (simp add: driver_ok_def)
  then show ?case using acquire_step.call by (simp add: enter.hyps(3))
qed simp_all

lemma paced_step_inv:
  assumes "paced_step sys dispatched n s s'" "paced_inv dispatched s" "race_inv (pa_race s)"
  shows "paced_inv dispatched s'"
  using assms
proof (induction rule: paced_step.induct)
  case (others s r)
  then show ?case
    using race_step_inv [OF others.prems(1) others.hyps(1), of "pa_driver s"]
      others_driver_ok [OF others.prems(1) others.hyps others.prems(2)] by simp
next
  case (enter s r)
  have "rc_pcs (pa_race s) 0 = Out" using paced_invD(3) [OF enter.prems(1)] enter.hyps(1) by (simp add: driver_ok_def)
  then have step: "acquire_step (pa_race s) r" unfolding enter.hyps(3) by (rule acquire_step.call)
  have "driver_ok (s\<lparr>pa_race := r, pa_driver := Acquiring\<rparr>)"
    using paced_invD(2) [OF enter.prems(1)] by (auto simp: driver_ok_def enter.hyps(3) called_after_def entry_ok_def)
  then show ?case by (rule race_step_inv [OF enter.prems(1) step])
next
  case (inside s r)
  have "driver_ok (s\<lparr>pa_race := r, pa_driver := Acquiring\<rparr>)"
    using paced_invD(3) [OF inside.prems(1)] inside.hyps(1,3) acquire_step_called [OF inside.hyps(2) _ inside.prems(2)]
    by (auto simp: driver_ok_def)
  then have "paced_inv dispatched (s\<lparr>pa_race := r, pa_driver := Acquiring\<rparr>)"
    by (rule race_step_inv [OF inside.prems(1) inside.hyps(2)])
  then show ?case by (simp flip: inside.hyps(1))
next
  case (leave s r k wake)
  show ?case
    by (rule race_step_inv [OF leave.prems(1) leave.hyps(2) leave_driver_ok [OF leave.prems(1) leave.hyps leave.prems(2)]])
      (rule acquire_step_awake [OF leave.hyps(2-4)])
next
  case (dispatch s k b)
  let ?x = "(k, rc_clock (pa_race s))"
  have d: "rc_pcs (pa_race s) 0 = Out" "k < length (rc_permits (pa_race s))"
      "unat (pm_slot (rc_permits (pa_race s) ! k)) < rc_clock (pa_race s) + 10 ^ 6"
      "\<forall>x \<in> set (pa_log s). follows (pa_race s) x (k, 0)"
    using paced_invD(3) [OF dispatch.prems(1)] dispatch.hyps(1) by (simp_all add: driver_ok_def)
  have "entry_ok (pa_race s) ?x" using d(1-3) by (simp add: entry_ok_def permit_after_def)
  moreover have "\<forall>x \<in> set (pa_log s). follows (pa_race s) x ?x" using d(4) by (simp add: follows_def)
  ultimately show ?case
    using paced_invD [OF dispatch.prems(1)] d(1) dispatch.hyps(3)
    by (auto simp: paced_inv_def driver_ok_def sorted_wrt_append)
next
  case (run s b)
  then show ?case by (simp add: paced_inv_def)
qed

section \<open>The window of a paced run\<close>

lemma paced_window:
  fixes a :: nat
  assumes "paced_inv dispatched s" "race_inv (pa_race s)" "b + 10 ^ 6 < 2 ^ 64"
    "n = length (filter (\<lambda>(_, t). a \<le> t \<and> t \<le> b) (pa_log s))"
  shows "n \<le> 1 \<or> (n - 2) * unat (rc_interval (pa_race s)) + a < b + 10 ^ 6"
proof (cases "filter (\<lambda>(_, t). a \<le> t \<and> t \<le> b) (pa_log s)")
  case (Cons x f)
  let ?r = "pa_race s"
  let ?slot = "\<lambda>y. pm_slot (rc_permits ?r ! fst y)"
  have sub: "y \<in> set (pa_log s) \<and> a \<le> snd y \<and> snd y \<le> b" if "y \<in> set (x # f)" for y
    using that unfolding Cons [symmetric] by (simp add: case_prod_beta)
  have sorted: "sorted_wrt (follows ?r) (x # f)"
    unfolding Cons [symmetric] using paced_invD(1) [OF assms(1)] by (rule sorted_wrt_filter)
  have k: "fst y < length (rc_permits ?r)" if "y \<in> set f" for y
    using paced_invD(2) [OF assms(1), of y] sub [of y] that by (simp add: entry_ok_def permit_after_def)
  have "apart (unat (rc_interval ?r)) (?slot y) (?slot z)" if "follows ?r y z" "y \<in> set f" "z \<in> set f" for y z
    using sorted_wrt_nth_less [OF race_invD(2) [OF assms(2)], of "fst y" "fst z"] that k by (simp add: follows_def)
  with sorted have "sorted_wrt (\<lambda>y z. apart (unat (rc_interval ?r)) (?slot y) (?slot z)) f"
    by (auto intro: sorted_wrt_mono_rel [of f "follows ?r"])
  then have "sorted_wrt (apart (unat (rc_interval ?r))) (map ?slot f)" by (simp add: sorted_wrt_map)
  moreover have "a \<le> unat (?slot y) \<and> unat (?slot y) < b + 10 ^ 6" if "y \<in> set f" for y
  proof -
    have "snd x \<le> pm_called (rc_permits ?r ! fst y)" using sorted that by (simp add: follows_def)
    then have "a \<le> unat (?slot y)"
      using sub [of x] race_invD(3) [OF assms(2) nth_mem [OF k [OF that]]] by (simp add: permit_ok_def)
    moreover have "unat (?slot y) < snd y + 10 ^ 6"
      using paced_invD(2) [OF assms(1), of y] sub [of y] that by (simp add: entry_ok_def)
    ultimately show ?thesis using sub [of y] that by simp
  qed
  ultimately have "f \<noteq> [] \<Longrightarrow> (length f - 1) * unat (rc_interval ?r) + a < b + 10 ^ 6"
    using apart_window [of "unat (rc_interval ?r)" "map ?slot f" a "b + 10 ^ 6"] assms(3) by simp
  then show ?thesis using assms(4) Cons by (cases "f = []") simp_all
qed (use assms(4) in simp)

text \<open>
  What a run's log says: the \<open>k\<close>th permit of the race served at most one dispatch, an earlier dispatch
  an earlier permit; \<open>acquire\<close> for it was called after the dispatch before; the slots are an interval
  apart, and no dispatch was a millisecond or more ahead of its slot.
\<close>

definition own_permits :: "rate_limiter \<Rightarrow> 'b paced \<Rightarrow> bool" where
  "own_permits l s \<longleftrightarrow> (let permit = (\<lambda>x. rc_permits (pa_race s) ! fst x) in
     sorted_wrt (\<lambda>x y. fst x < fst y \<and> snd x \<le> pm_called (permit y)) (pa_log s) \<and>
     sorted_wrt (apart (interval l)) (map (\<lambda>x. pm_slot (permit x)) (pa_log s)) \<and>
     (\<forall>x \<in> set (pa_log s). fst x < length (rc_permits (pa_race s)) \<and> snd x \<le> rc_clock (pa_race s) \<and>
        unat (pm_slot (permit x)) < snd x + 10 ^ 6))"

lemma paced_own_permits:
  assumes "paced_inv dispatched s" "race_inv (pa_race s)" "rc_interval (pa_race s) = rl_interval_ns l"
  shows "own_permits l s"
proof -
  let ?r = "pa_race s"
  have len: "fst x < length (rc_permits ?r)" if "x \<in> set (pa_log s)" for x
    using paced_invD(2) [OF assms(1) that] by (simp add: entry_ok_def permit_after_def)
  have spaced: "apart (interval l) (pm_slot (rc_permits ?r ! fst x)) (pm_slot (rc_permits ?r ! fst y))"
    if "follows ?r x y" "x \<in> set (pa_log s)" "y \<in> set (pa_log s)" for x y
    using sorted_wrt_nth_less [OF race_invD(2) [OF assms(2)], of "fst x" "fst y"] that len
    by (simp add: follows_def interval_def assms(3))
  have "sorted_wrt (\<lambda>x y. apart (interval l) (pm_slot (rc_permits ?r ! fst x)) (pm_slot (rc_permits ?r ! fst y))) (pa_log s)"
    using paced_invD(1) [OF assms(1)] by (rule sorted_wrt_mono_rel [rotated]) (rule spaced)
  moreover have "sorted_wrt (\<lambda>x y. fst x < fst y \<and> snd x \<le> pm_called (rc_permits ?r ! fst y)) (pa_log s)"
    using paced_invD(1) [OF assms(1)] by (rule sorted_wrt_mono_rel [rotated]) (simp add: follows_def)
  ultimately show ?thesis
    using paced_invD(2) [OF assms(1)] len by (auto simp: own_permits_def sorted_wrt_map entry_ok_def)
qed

section \<open>The driver is let through\<close>

text \<open>A step of the race with the driver inside \<open>acquire\<close> before and after.\<close>

definition within_acquire :: "race \<Rightarrow> race \<Rightarrow> bool" where
  "within_acquire r r' \<longleftrightarrow> acquire_step r r' \<and> rc_pcs r' 0 \<noteq> Out"

text \<open>The driver alone can get to the end of its sleep.\<close>

definition let_through :: "race \<Rightarrow> bool" where
  "let_through r \<longleftrightarrow> (\<exists>r' k wake. within_acquire\<^sup>*\<^sup>* r r' \<and> rc_pcs r' 0 = Asleep k wake \<and> wake \<le> rc_clock r' \<and>
     rc_clock r' < 2 ^ 64)"

lemma let_through_step:
  assumes "acquire_step r r'" "rc_pcs r' 0 \<noteq> Out" "race_inv r" "rc_clock r < 2 ^ 64" "race_inv r' \<Longrightarrow> let_through r'"
  shows "let_through r"
proof -
  have "within_acquire r r'" using assms(1,2) by (simp add: within_acquire_def)
  moreover have "let_through r'" using acquire_step_inv [OF assms(1,3,4)] by (rule assms(5))
  ultimately show ?thesis unfolding let_through_def by (meson converse_rtranclp_into_rtranclp)
qed

lemma let_through_asleep:
  assumes "\<exists>k wake. rc_pcs r 0 = Asleep k wake" "race_inv r" "rc_clock r < 2 ^ 64"
  shows "let_through r"
proof -
  obtain k wake where pc: "rc_pcs r 0 = Asleep k wake" using assms(1) by blast
  let ?r = "r\<lparr>rc_clock := max (rc_clock r) wake\<rparr>"
  have "wake < 2 ^ 64" using race_invD(4) [OF assms(2), of 0] pc by (simp add: pc_ok_def)
  then have "let_through ?r" unfolding let_through_def using assms(3) pc
    by (intro exI [of _ ?r] exI [of _ k] exI [of _ wake]) simp
  moreover have "acquire_step r ?r" by (rule acquire_step.tick) simp
  ultimately show ?thesis using pc by (intro let_through_step [OF _ _ assms(2,3), of ?r]) simp_all
qed

lemma let_through_holding:
  assumes "\<exists>k. rc_pcs r 0 = Holding k" "race_inv r" "rc_clock r < 2 ^ 64"
  shows "let_through r"
proof -
  obtain k where "rc_pcs r 0 = Holding k" using assms(1) by blast
  from acquire_step.check [OF this] show ?thesis
    by (rule let_through_step [OF _ _ assms(2,3)]) (simp, rule let_through_asleep, insert assms(3), simp_all)
qed

text \<open>With the latest cursor in hand the exchange succeeds.\<close>

lemma let_through_current:
  assumes "\<exists>a now_ns. rc_pcs r 0 = Clocked a (hd (rc_cursors r)) now_ns" "race_inv r" "rc_clock r < 2 ^ 64"
  shows "let_through r"
proof -
  obtain a now_ns where pc: "rc_pcs r 0 = Clocked a (hd (rc_cursors r)) now_ns" using assms(1) by blast
  obtain base nxt where "bump (rc_interval r) (hd (rc_cursors r)) now_ns = (base, nxt)" by fastforce
  from acquire_step.exchange [OF pc refl this] show ?thesis
    by (rule let_through_step [OF _ _ assms(2,3)]) (simp, rule let_through_holding, insert assms(3), simp_all)
qed

lemma let_through_fresh:
  assumes "\<exists>a. rc_pcs r 0 = Loaded a (hd (rc_cursors r))" "race_inv r" "rc_clock r < 2 ^ 64"
  shows "let_through r"
proof -
  obtain a where "rc_pcs r 0 = Loaded a (hd (rc_cursors r))" using assms(1) by blast
  from acquire_step.elapsed [OF this] show ?thesis
    by (rule let_through_step [OF _ _ assms(2,3)]) (simp, rule let_through_current, insert assms(3), simp_all)
qed

lemma let_through_loop:
  assumes "\<exists>a. rc_pcs r 0 = Loop a" "race_inv r" "rc_clock r < 2 ^ 64"
  shows "let_through r"
proof -
  obtain a where pc: "rc_pcs r 0 = Loop a" using assms(1) by blast
  have "hd (rc_cursors r) \<in> set (rc_cursors r)" using race_invD(1) [OF assms(2)] by simp
  from acquire_step.load [OF pc this] show ?thesis
    by (rule let_through_step [OF _ _ assms(2,3)]) (simp, rule let_through_fresh, insert assms(3), simp_all)
qed

lemma let_through_clocked:
  assumes "\<exists>a current now_ns. rc_pcs r 0 = Clocked a current now_ns" "race_inv r" "rc_clock r < 2 ^ 64"
  shows "let_through r"
proof -
  obtain a current now_ns where "rc_pcs r 0 = Clocked a current now_ns" using assms(1) by blast
  from acquire_step.retry [OF this] show ?thesis
    by (rule let_through_step [OF _ _ assms(2,3)]) (simp, rule let_through_loop, insert assms(3), simp_all)
qed

lemma let_through_loaded:
  assumes "\<exists>a current. rc_pcs r 0 = Loaded a current" "race_inv r" "rc_clock r < 2 ^ 64"
  shows "let_through r"
proof -
  obtain a current where "rc_pcs r 0 = Loaded a current" using assms(1) by blast
  from acquire_step.elapsed [OF this] show ?thesis
    by (rule let_through_step [OF _ _ assms(2,3)]) (simp, rule let_through_clocked, insert assms(3), simp_all)
qed

lemma acquiring_let_through:
  assumes "rc_pcs r 0 \<noteq> Out" "race_inv r" "rc_clock r < 2 ^ 64"
  shows "let_through r"
  using assms let_through_loop [OF _ assms(2,3)] let_through_loaded [OF _ assms(2,3)] let_through_clocked [OF _ assms(2,3)]
    let_through_holding [OF _ assms(2,3)] let_through_asleep [OF _ assms(2,3)]
  by (cases "rc_pcs r 0") simp_all

lemma inside_run:
  assumes "within_acquire\<^sup>*\<^sup>* r r'" "pa_driver s = Acquiring" "pa_race s = r"
  shows "(paced_step sys dispatched n)\<^sup>*\<^sup>* s (s\<lparr>pa_race := r'\<rparr>)"
  using assms(1)
proof (induction rule: rtranclp_induct)
  case base
  show ?case using assms(3) by (cases s) simp
next
  case (step r' r'')
  have "paced_step sys dispatched n (s\<lparr>pa_race := r'\<rparr>) (s\<lparr>pa_race := r'\<rparr>\<lparr>pa_race := r''\<rparr>)"
    using step.hyps(2) assms(2) by (intro paced_step.inside) (simp_all add: within_acquire_def)
  with step.IH show ?case by simp
qed

text \<open>An acquiring driver gets its permit, and no step of what it drives is needed for that.\<close>

lemma acquiring_granted:
  assumes "pa_driver s = Acquiring" "rc_pcs (pa_race s) 0 \<noteq> Out" "race_inv (pa_race s)" "rc_clock (pa_race s) < 2 ^ 64"
  shows "\<exists>s' k. (paced_step sys dispatched n)\<^sup>*\<^sup>* s s' \<and> pa_driver s' = Granted k \<and> pa_inner s' = pa_inner s \<and>
    rc_clock (pa_race s') < 2 ^ 64"
proof -
  obtain r k wake where r: "within_acquire\<^sup>*\<^sup>* (pa_race s) r" "rc_pcs r 0 = Asleep k wake" "wake \<le> rc_clock r"
      "rc_clock r < 2 ^ 64"
    using acquiring_let_through [OF assms(2-4)] unfolding let_through_def by blast
  let ?r = "set_pc 0 Out (r\<lparr>rc_permits := (rc_permits r)[k := (rc_permits r ! k)\<lparr>pm_returned := Some (rc_clock r)\<rparr>]\<rparr>)"
  let ?s = "s\<lparr>pa_race := r\<rparr>"
  have "paced_step sys dispatched n ?s (?s\<lparr>pa_race := ?r, pa_driver := Granted k\<rparr>)"
    using acquire_step.return [OF r(2,3)] assms(1) r(2) by (intro paced_step.leave) simp_all
  with inside_run [OF r(1) assms(1) refl, of sys dispatched n]
  have "(paced_step sys dispatched n)\<^sup>*\<^sup>* s (?s\<lparr>pa_race := ?r, pa_driver := Granted k\<rparr>)" by simp
  moreover have "rc_clock ?r < 2 ^ 64" using r(4) by simp
  ultimately show ?thesis by (intro exI conjI) (assumption, simp_all)
qed

text \<open>Every step that what is driven could do alone is done by some run of the driver from here.\<close>

definition continues :: "('b \<Rightarrow> 'b \<Rightarrow> bool) \<Rightarrow> ('b \<Rightarrow> nat) \<Rightarrow> nat \<Rightarrow> 'b paced \<Rightarrow> bool" where
  "continues sys dispatched n s \<longleftrightarrow> (\<forall>b. sys (pa_inner s) b \<longrightarrow>
     (\<exists>s'. (paced_step sys dispatched n)\<^sup>*\<^sup>* s s' \<and> pa_inner s' = b \<and> rc_clock (pa_race s') < 2 ^ 64))"

section \<open>Driven systems\<close>

text \<open>
  A system that a driver can pace: it has dispatched nothing when it starts, and its steps dispatch one
  task at a time and \<open>n\<close> at most.
\<close>

locale driven =
  fixes sys :: "'b \<Rightarrow> 'b \<Rightarrow> bool" and dispatched :: "'b \<Rightarrow> nat" and n :: nat and start :: 'b
  assumes start_zero: "dispatched start = 0"
    and step_dispatches: "sys b b' \<Longrightarrow>
      dispatched b' = dispatched b \<or> dispatched b' = Suc (dispatched b) \<and> dispatched b < n"
begin

lemma start_inv: "rc_pcs r 0 = Out \<Longrightarrow> paced_inv dispatched (paced_start r start)"
  by (simp add: paced_inv_def driver_ok_def paced_start_def start_zero)

lemma step_clock: "paced_step sys dispatched n s s' \<Longrightarrow> rc_clock (pa_race s) \<le> rc_clock (pa_race s')"
  by (induction rule: paced_step.induct) (auto dest: acquire_step_clock)

lemma reach_inv:
  assumes "race_reach l r" "rc_pcs r 0 = Out"
    "(paced_step sys dispatched n)\<^sup>*\<^sup>* (paced_start r start) s" "rc_clock (pa_race s) < 2 ^ 64"
  shows "paced_inv dispatched s \<and> race_reach l (pa_race s)"
  using assms(3,4)
proof (induction rule: rtranclp_induct)
  case base
  then show ?case using start_inv assms(1,2) by (simp add: paced_start_def)
next
  case (step s s')
  have clock: "rc_clock (pa_race s) < 2 ^ 64" using step_clock [OF step.hyps(2)] step.prems by simp
  note IH = step.IH [OF clock]
  have "race_reach l (pa_race s')"
    using paced_step_race [OF step.hyps(2)] IH unfolding race_reach_def
    by (metis rtranclp.rtrancl_into_rtrancl)
  with IH show ?case using paced_step_inv [OF step.hyps(2)] race_reach_inv [of l "pa_race s"] clock by blast
qed

text \<open>The limiter only delays: what is driven does its own steps.\<close>

lemma inner_reach:
  "(paced_step sys dispatched n)\<^sup>*\<^sup>* (paced_start r start) s \<Longrightarrow> sys\<^sup>*\<^sup>* start (pa_inner s)"
proof (induction rule: rtranclp_induct)
  case (step s s')
  from step.hyps(2) have "pa_inner s' = pa_inner s \<or> sys (pa_inner s) (pa_inner s')"
    by (induction rule: paced_step.induct) auto
  with step.IH show ?case by (metis rtranclp.rtrancl_into_rtrancl)
qed (simp add: paced_start_def)

lemma granted_continues:
  assumes "(paced_step sys dispatched n)\<^sup>*\<^sup>* s s'" "pa_driver s' = Granted k" "pa_inner s' = pa_inner s"
    "rc_clock (pa_race s') < 2 ^ 64" "sys (pa_inner s) b" "dispatched b = Suc (dispatched (pa_inner s))"
  shows "\<exists>s'. (paced_step sys dispatched n)\<^sup>*\<^sup>* s s' \<and> pa_inner s' = b \<and> rc_clock (pa_race s') < 2 ^ 64"
proof -
  let ?s = "s'\<lparr>pa_driver := Ready, pa_inner := b, pa_log := pa_log s' @ [(k, rc_clock (pa_race s'))]\<rparr>"
  have "paced_step sys dispatched n s' ?s" using assms(2,3,5,6) by (intro paced_step.dispatch) simp_all
  with assms(1) have "(paced_step sys dispatched n)\<^sup>*\<^sup>* s ?s" by (rule rtranclp.rtrancl_into_rtrancl)
  then show ?thesis using assms(4) by (intro exI [of _ ?s]) simp
qed

lemma acquiring_continues:
  assumes "pa_driver s = Acquiring" "rc_pcs (pa_race s) 0 \<noteq> Out" "race_inv (pa_race s)" "rc_clock (pa_race s) < 2 ^ 64"
    "sys (pa_inner s) b" "dispatched b = Suc (dispatched (pa_inner s))"
  shows "\<exists>s'. (paced_step sys dispatched n)\<^sup>*\<^sup>* s s' \<and> pa_inner s' = b \<and> rc_clock (pa_race s') < 2 ^ 64"
  using acquiring_granted [OF assms(1-4), of sys dispatched n] granted_continues [OF _ _ _ _ assms(5,6)] by blast

lemma ready_continues:
  assumes "pa_driver s = Ready" "rc_pcs (pa_race s) 0 = Out" "race_inv (pa_race s)" "rc_clock (pa_race s) < 2 ^ 64"
    "sys (pa_inner s) b" "dispatched b = Suc (dispatched (pa_inner s))" "dispatched (pa_inner s) < n"
  shows "\<exists>s'. (paced_step sys dispatched n)\<^sup>*\<^sup>* s s' \<and> pa_inner s' = b \<and> rc_clock (pa_race s') < 2 ^ 64"
proof -
  let ?r = "set_pc 0 (Loop (rc_clock (pa_race s))) (pa_race s)"
  let ?s = "s\<lparr>pa_race := ?r, pa_driver := Acquiring\<rparr>"
  have step: "paced_step sys dispatched n s ?s" using assms(1,7) by (intro paced_step.enter) simp_all
  have "race_inv ?r" by (rule acquire_step_inv [OF acquire_step.call [OF assms(2)] assms(3,4)])
  then obtain s' where "(paced_step sys dispatched n)\<^sup>*\<^sup>* ?s s'" "pa_inner s' = b" "rc_clock (pa_race s') < 2 ^ 64"
    using acquiring_continues [of ?s b] assms(4-6) by auto
  with converse_rtranclp_into_rtranclp [of "paced_step sys dispatched n", OF step] show ?thesis by blast
qed

text \<open>The limiter holds nothing back for good: whatever it drives can go on from every state of a run.\<close>

lemma paced_continues:
  assumes "paced_inv dispatched s" "race_inv (pa_race s)" "rc_clock (pa_race s) < 2 ^ 64"
  shows "continues sys dispatched n s"
  unfolding continues_def
proof (intro allI impI)
  fix b assume b: "sys (pa_inner s) b"
  consider "dispatched b = dispatched (pa_inner s)"
    | "dispatched b = Suc (dispatched (pa_inner s))" "dispatched (pa_inner s) < n" using step_dispatches [OF b] by blast
  then show "\<exists>s'. (paced_step sys dispatched n)\<^sup>*\<^sup>* s s' \<and> pa_inner s' = b \<and> rc_clock (pa_race s') < 2 ^ 64"
  proof cases
    case 1
    have "paced_step sys dispatched n s (s\<lparr>pa_inner := b\<rparr>)" using b 1 by (rule paced_step.run)
    then have "(paced_step sys dispatched n)\<^sup>*\<^sup>* s (s\<lparr>pa_inner := b\<rparr>)" by (rule r_into_rtranclp)
    then show ?thesis using assms(3) by (intro exI [of _ "s\<lparr>pa_inner := b\<rparr>"]) simp
  next
    case 2
    show ?thesis
    proof (cases "pa_driver s")
      case Ready
      then show ?thesis using paced_invD(3) [OF assms(1)] ready_continues [OF Ready _ assms(2,3) b 2] by (simp add: driver_ok_def)
    next
      case Acquiring
      then show ?thesis using paced_invD(3) [OF assms(1)] acquiring_continues [OF Acquiring _ assms(2,3) b 2(1)]
        by (simp add: driver_ok_def)
    next
      case (Granted k)
      then show ?thesis using granted_continues [OF rtranclp.rtrancl_refl Granted refl assms(3) b 2(1)] by simp
    qed
  qed
qed

lemma reach_continues:
  assumes "race_reach l r" "rc_pcs r 0 = Out" "(paced_step sys dispatched n)\<^sup>*\<^sup>* (paced_start r start) s"
    "rc_clock (pa_race s) < 2 ^ 64"
  shows "continues sys dispatched n s"
  using reach_inv [OF assms] race_reach_inv [of l "pa_race s"] assms(4) by (intro paced_continues) simp_all

text \<open>Every state of what is driven is reached under the limiter as well.\<close>

lemma all_reached:
  assumes "sys\<^sup>*\<^sup>* start b" "race_reach l r" "rc_pcs r 0 = Out" "rc_clock r < 2 ^ 64"
  shows "\<exists>s. (paced_step sys dispatched n)\<^sup>*\<^sup>* (paced_start r start) s \<and> pa_inner s = b \<and> rc_clock (pa_race s) < 2 ^ 64"
  using assms(1)
proof (induction rule: rtranclp_induct)
  case base
  show ?case using assms(4) by (intro exI [of _ "paced_start r start"]) (simp add: paced_start_def)
next
  case (step b b')
  then obtain s where s: "(paced_step sys dispatched n)\<^sup>*\<^sup>* (paced_start r start) s" "pa_inner s = b"
      "rc_clock (pa_race s) < 2 ^ 64" by blast
  from reach_continues [OF assms(2,3) s(1,3)] step.hyps(2) s(2)
  obtain s' where "(paced_step sys dispatched n)\<^sup>*\<^sup>* s s'" "pa_inner s' = b'" "rc_clock (pa_race s') < 2 ^ 64"
    unfolding continues_def by blast
  with rtranclp_trans [OF s(1)] show ?case by blast
qed

lemma window:
  assumes "race_reach l r" "rc_pcs r 0 = Out"
    "(paced_step sys dispatched n)\<^sup>*\<^sup>* (paced_start r start) s" "rc_clock (pa_race s) < 2 ^ 64" "b + 10 ^ 6 < 2 ^ 64"
    "k = length (filter (\<lambda>(_, t). a \<le> t \<and> t \<le> b) (pa_log s))"
  shows "dispatched (pa_inner s) = length (pa_log s) \<and> own_permits l s \<and>
    (k \<le> 1 \<or> (k - 2) * interval l + a < b + 10 ^ 6)"
  using reach_inv [OF assms(1-4)] race_reach_inv [of l "pa_race s"] paced_window [of dispatched s, OF _ _ assms(5,6)]
    paced_own_permits [of dispatched s l] paced_invD(4) [of dispatched s] assms(4) by (auto simp: interval_def)

end

lemma batch_step_dispatches:
  "batch_step configs b b' \<Longrightarrow> length (ba_tasks b') = length (ba_tasks b) \<or>
     length (ba_tasks b') = Suc (length (ba_tasks b)) \<and> length (ba_tasks b) < length configs"
  by (induction rule: batch_step.induct) simp_all

lemma stream_step_dispatches:
  "stream_step configs b b' \<Longrightarrow> length (st_tasks b') = length (st_tasks b) \<or>
     length (st_tasks b') = Suc (length (st_tasks b)) \<and> length (st_tasks b) < length configs"
  by (induction rule: stream_step.induct) simp_all

interpretation driven_batch: driven "batch_step configs" "\<lambda>b. length (ba_tasks b)" "length configs" "batch_start concurrency"
  for configs concurrency
  using batch_step_dispatches by unfold_locales (simp add: batch_start_def)

interpretation driven_stream: driven "stream_step configs" "\<lambda>b. length (st_tasks b)" "length configs" "stream_start concurrency"
  for configs concurrency
  using stream_step_dispatches by unfold_locales (simp add: stream_start_def)

section \<open>Properties\<close>

text \<open>Under a limiter the states of the plain batch or stream are reached, and no others.\<close>

lemma race_new_out: "race_reach l (race_new l)" "rc_pcs (race_new l) 0 = Out" "rc_clock (race_new l) < 2 ^ 64"
  by (simp_all add: race_reach_def race_new_def)

lemma paced_batch_states: "(\<exists>s. paced_batch l configs c s \<and> pa_inner s = b) \<longleftrightarrow> batch_reach configs c b"
  using driven_batch.inner_reach driven_batch.all_reached [OF _ race_new_out] race_new_out(1,2)
  unfolding paced_batch_def batch_reach_def by blast

lemma paced_stream_states: "(\<exists>s. paced_stream l configs c s \<and> pa_inner s = b) \<longleftrightarrow> stream_reach configs c b"
  using driven_stream.inner_reach driven_stream.all_reached [OF _ race_new_out] race_new_out(1,2)
  unfolding paced_stream_def stream_reach_def by blast

text \<open>So whatever the rate, a call that does not panic reaches exactly the states of the plain one.\<close>

lemma send_runs_reach:
  "send_batch_run fl shared rate configs c b \<longleftrightarrow> merge_limiters fl shared rate \<noteq> Panic \<and> batch_reach configs c b"
  "send_stream_run fl shared rate configs c t \<longleftrightarrow> merge_limiters fl shared rate \<noteq> Panic \<and> stream_reach configs c t"
  using paced_batch_states [of _ configs c b] paced_stream_states [of _ configs c t]
  by (auto simp: send_batch_run_def send_stream_run_def eq_commute [of _ "pa_inner _"] split: outcome.splits option.splits)

text \<open>Without a shared limiter a call panics exactly for a rate that is not positive.\<close>

lemma merge_panics: "merge_limiters fl None rate = Panic \<longleftrightarrow> (\<exists>r. rate = Some r \<and> \<not> f64_positive r)"
  by (auto simp: merge_limiters_def limiter_new_def split: option.splits)

text \<open>How many dispatches a run made between two times.\<close>

definition dispatches :: "'b paced \<Rightarrow> nat \<Rightarrow> nat \<Rightarrow> nat" where
  "dispatches s a b = length (filter (\<lambda>(_, t). a \<le> t \<and> t \<le> b) (pa_log s))"

definition within_rate :: "rate_limiter \<Rightarrow> 'b paced \<Rightarrow> nat \<Rightarrow> nat \<Rightarrow> bool" where
  "within_rate l s a b \<longleftrightarrow> dispatches s a b \<le> 1 \<or> (dispatches s a b - 2) * interval l + a < b + 10 ^ 6"

lemma paced_batch_window:
  assumes "paced_batch l configs c s" "rc_clock (pa_race s) < 2 ^ 64" "b + 10 ^ 6 < 2 ^ 64"
  shows "length (ba_tasks (pa_inner s)) = length (pa_log s) \<and> own_permits l s \<and> within_rate l s a b \<and>
    continues (batch_step configs) (\<lambda>b. length (ba_tasks b)) (length configs) s"
proof -
  obtain r where r: "race_reach l r" "rc_pcs r 0 = Out"
      "(paced_step (batch_step configs) (\<lambda>b. length (ba_tasks b)) (length configs))\<^sup>*\<^sup>* (paced_start r (batch_start c)) s"
    using assms(1) unfolding paced_batch_def by blast
  show ?thesis
    using driven_batch.window [OF r assms(2,3) dispatches_def] driven_batch.reach_continues [OF r assms(2)]
    unfolding within_rate_def by blast
qed

lemma paced_stream_window:
  assumes "paced_stream l configs c s" "rc_clock (pa_race s) < 2 ^ 64" "b + 10 ^ 6 < 2 ^ 64"
  shows "length (st_tasks (pa_inner s)) = length (pa_log s) \<and> own_permits l s \<and> within_rate l s a b \<and>
    continues (stream_step configs) (\<lambda>b. length (st_tasks b)) (length configs) s"
proof -
  obtain r where r: "race_reach l r" "rc_pcs r 0 = Out"
      "(paced_step (stream_step configs) (\<lambda>b. length (st_tasks b)) (length configs))\<^sup>*\<^sup>* (paced_start r (stream_start c)) s"
    using assms(1) unfolding paced_stream_def by blast
  show ?thesis
    using driven_stream.window [OF r assms(2,3) dispatches_def] driven_stream.reach_continues [OF r assms(2)]
    unfolding within_rate_def by blast
qed

text \<open>
  C9: A rate limit paces the dispatches of a batch and of a stream and otherwise changes nothing.
  Whoever else uses the limiter, each task was dispatched under a permit of its own, called for after
  the dispatch before; the slots of the permits are an interval apart, and no dispatch was a millisecond
  or more ahead of its slot. So of the dispatches between two times all but the first have their slots in
  that window or the millisecond after it: their number less one, times the interval, is less than that
  long. (Two dispatches may still coincide, when the first was held up past its slot.) And the limiter only
  delays: in each state of a run, every step that the plain batch or stream could make next is made by
  some run from there, so a dispatch is never refused or skipped; the states reached are exactly those of
  the plain batch and stream, so all that holds of them holds under a rate limit.
\<close>

theorem paced_dispatches:
  assumes "paced_batch l configs c s" "rc_clock (pa_race s) < 2 ^ 64" "paced_stream l configs c t" "rc_clock (pa_race t) < 2 ^ 64"
    "b + 10 ^ 6 < 2 ^ 64"
  shows "length (ba_tasks (pa_inner s)) = length (pa_log s) \<and> own_permits l s \<and> within_rate l s a b \<and>
    continues (batch_step configs) (\<lambda>b. length (ba_tasks b)) (length configs) s \<and>
    length (st_tasks (pa_inner t)) = length (pa_log t) \<and> own_permits l t \<and> within_rate l t a b \<and>
    continues (stream_step configs) (\<lambda>b. length (st_tasks b)) (length configs) t \<and>
    {pa_inner s | s. paced_batch l configs c s} = {x. batch_reach configs c x} \<and>
    {pa_inner s | s. paced_stream l configs c s} = {x. stream_reach configs c x}"
proof -
  have "{pa_inner s | s. paced_batch l configs c s} = {x. batch_reach configs c x}"
    "{pa_inner s | s. paced_stream l configs c s} = {x. stream_reach configs c x}"
    unfolding paced_batch_states [of l, symmetric] paced_stream_states [of l, symmetric] by blast+
  then show ?thesis using paced_batch_window [OF assms(1,2,5)] paced_stream_window [OF assms(3,4,5)] by simp
qed

text \<open>One request under a limiter: the driver takes slot 0 and dispatches.\<close>

definition example_paced :: "'b \<Rightarrow> 'b paced" where
  "example_paced b = \<lparr>pa_race = example_race, pa_driver = Ready, pa_inner = b, pa_log = [(0, 0)]\<rparr>"

lemma example_paced_run:
  assumes "sys b b'" "dispatched b = 0" "dispatched b' = 1"
  shows "(paced_step sys dispatched 1)\<^sup>*\<^sup>* (paced_start (race_new example_limiter) b) (example_paced b')"
proof -
  let ?s = "\<lambda>r d. \<lparr>pa_race = r, pa_driver = d, pa_inner = b, pa_log = []\<rparr>"
  let ?step = "paced_step sys dispatched 1"
  have s1: "?step (paced_start (race_new example_limiter) b) (?s (example_state 0 (Loop 0) [0] []) Acquiring)"
    using paced_step.enter [where s = "paced_start (race_new example_limiter) b" and dispatched = dispatched and n = 1 and sys = sys]
    by (simp add: paced_start_def assms(2) example_acquire(1) race_new_def)
  have in_step: "?step (?s r Acquiring) (?s r' Acquiring)" if "acquire_step r r'" "rc_pcs r' 0 \<noteq> Out" for r r'
    using paced_step.inside [where s = "?s r Acquiring" and r = r'] that by simp
  have s6: "?step (?s (example_state 0 (Asleep 0 0) [10, 0] [example_permit None]) Acquiring) (?s example_race (Granted 0))"
    using paced_step.leave [where s = "?s (example_state 0 (Asleep 0 0) [10, 0] [example_permit None]) Acquiring",
      OF _ _ _ _, of example_race 0 0] example_acquire(7) by (simp add: example_race_def)
  have s7: "?step (?s example_race (Granted 0)) (example_paced b')"
    using paced_step.dispatch [where s = "?s example_race (Granted 0)" and b = b' and sys = sys and dispatched = dispatched] assms
    by (simp add: example_paced_def example_race_def)
  note t = converse_rtranclp_into_rtranclp [of ?step]
  show ?thesis
    by (rule t [OF s1], rule t [OF in_step [OF example_acquire(3)]], simp,
      rule t [OF in_step [OF example_acquire(4)]], simp, rule t [OF in_step [OF example_acquire(5)]], simp,
      rule t [OF in_step [OF example_acquire(6)]], simp, rule t [OF s6], rule r_into_rtranclp [of ?step, OF s7])
qed

lemma paced_dispatches_witness:
  "length (pa_log (example_paced \<lparr>ba_tasks = [Queued], ba_free = 1, ba_results = []\<rparr>)) = 1 \<and>
   within_rate example_limiter (example_paced \<lparr>ba_tasks = [Queued], ba_free = 1, ba_results = []\<rparr>) 0 5 \<and>
   within_rate example_limiter (example_paced \<lparr>st_tasks = [InFlight], st_free = 0, st_channel = [], st_yielded = []\<rparr>) 0 5"
proof -
  let ?s = "example_paced \<lparr>ba_tasks = [Queued], ba_free = 1, ba_results = []\<rparr>"
  let ?t = "example_paced \<lparr>st_tasks = [InFlight], st_free = 0, st_channel = [], st_yielded = []\<rparr>"
  have r: "race_reach example_limiter (race_new example_limiter)" "rc_pcs (race_new example_limiter) 0 = Out"
    by (simp_all add: race_reach_def race_new_def)
  have "batch_step [config_new ''u''] (batch_start 1) \<lparr>ba_tasks = [Queued], ba_free = 1, ba_results = []\<rparr>"
    using batch_step.dispatch [of "batch_start 1" "[config_new ''u'']"] by (simp add: batch_start_def)
  then have s: "paced_batch example_limiter [config_new ''u''] 1 ?s"
    unfolding paced_batch_def using r example_paced_run [where b = "batch_start 1" and dispatched = "\<lambda>b. length (ba_tasks b)"]
    by (auto simp: batch_start_def)
  have "stream_step [config_new ''u''] (stream_start 1) \<lparr>st_tasks = [InFlight], st_free = 0, st_channel = [], st_yielded = []\<rparr>"
    using stream_step.spawn [of "stream_start 1" "[config_new ''u'']"] by (simp add: stream_start_def)
  then have t: "paced_stream example_limiter [config_new ''u''] 1 ?t"
    unfolding paced_stream_def using r example_paced_run [where b = "stream_start 1" and dispatched = "\<lambda>b. length (st_tasks b)"]
    by (auto simp: stream_start_def)
  have clock: "rc_clock (pa_race (example_paced b)) < 2 ^ 64" for b :: 'b by (simp add: example_paced_def example_race_def)
  show ?thesis using paced_dispatches [OF s clock t clock, of 5 0] by (simp add: example_paced_def)
qed

section \<open>Requests behind the semaphore\<close>

text \<open>
  The limiter paces dispatches, not requests: in a batch the queued tasks wait for the semaphore only,
  so all of them can go out at one instant, however long the interval is.
\<close>

lemma queued_task_ends:
  assumes "i < length (ba_tasks (pa_inner s))" "ba_tasks (pa_inner s) ! i = Queued" "0 < ba_free (pa_inner s)"
  shows "\<exists>b. (paced_step (batch_step configs) (\<lambda>b. length (ba_tasks b)) n)\<^sup>*\<^sup>* s
    (s\<lparr>pa_inner := (pa_inner s)\<lparr>ba_tasks := (ba_tasks (pa_inner s))[i := Finished b]\<rparr>\<rparr>)"
proof -
  let ?step = "paced_step (batch_step configs) (\<lambda>b. length (ba_tasks b)) n"
  let ?b = "pa_inner s"
  let ?r = "\<lparr>br_url = rc_url (configs ! i), br_result = Inl Panicked\<rparr> :: batch_result"
  let ?p = "?b\<lparr>ba_tasks := (ba_tasks ?b)[i := InFlight], ba_free := ba_free ?b - 1\<rparr>"
  let ?q = "?b\<lparr>ba_tasks := (ba_tasks ?b)[i := Finished ?r]\<rparr>"
  have "batch_step configs ?b ?p" using assms by (rule batch_step.permit)
  then have p: "?step s (s\<lparr>pa_inner := ?p\<rparr>)" by (rule paced_step.run) simp
  have "batch_step configs ?p (?p\<lparr>ba_tasks := (ba_tasks ?p)[i := Finished ?r], ba_free := ba_free ?p + 1\<rparr>)"
    using assms(1) by (intro batch_step.sent) simp_all
  then have "batch_step configs ?p ?q" using assms(3) by (cases ?b) simp
  then have "?step (s\<lparr>pa_inner := ?p\<rparr>) (s\<lparr>pa_inner := ?p\<rparr>\<lparr>pa_inner := ?q\<rparr>)" by (intro paced_step.run) simp_all
  then have "?step (s\<lparr>pa_inner := ?p\<rparr>) (s\<lparr>pa_inner := ?q\<rparr>)" by simp
  with p show ?thesis by (meson converse_rtranclp_into_rtranclp r_into_rtranclp)
qed

theorem queued_burst:
  assumes "0 < ba_free (pa_inner s)"
  shows "\<exists>ts. Queued \<notin> set ts \<and> length ts = length (ba_tasks (pa_inner s)) \<and>
    (paced_step (batch_step configs) (\<lambda>b. length (ba_tasks b)) n)\<^sup>*\<^sup>* s (s\<lparr>pa_inner := (pa_inner s)\<lparr>ba_tasks := ts\<rparr>\<rparr>)"
  using assms
proof (induction "length (filter (\<lambda>t. t = Queued) (ba_tasks (pa_inner s)))" arbitrary: s rule: less_induct)
  case less
  show ?case
  proof (cases "Queued \<in> set (ba_tasks (pa_inner s))")
    case True
    then obtain i where i: "i < length (ba_tasks (pa_inner s))" "ba_tasks (pa_inner s) ! i = Queued"
      by (auto simp: in_set_conv_nth)
    obtain b where b: "(paced_step (batch_step configs) (\<lambda>b. length (ba_tasks b)) n)\<^sup>*\<^sup>* s
        (s\<lparr>pa_inner := (pa_inner s)\<lparr>ba_tasks := (ba_tasks (pa_inner s))[i := Finished b]\<rparr>\<rparr>)"
      using queued_task_ends [OF i less.prems] by blast
    have "length (filter (\<lambda>t. t = Queued) ((ba_tasks (pa_inner s))[i := Finished b])) <
        length (filter (\<lambda>t. t = Queued) (ba_tasks (pa_inner s)))"
      using i by (simp add: upd_conv_take_nth_drop id_take_nth_drop [of i "ba_tasks (pa_inner s)", THEN arg_cong [of _ _ "filter _"]])
    with less.hyps [of "s\<lparr>pa_inner := (pa_inner s)\<lparr>ba_tasks := (ba_tasks (pa_inner s))[i := Finished b]\<rparr>\<rparr>"] less.prems b
    show ?thesis by (auto intro: rtranclp_trans)
  next
    case False
    then show ?thesis by (intro exI [of _ "ba_tasks (pa_inner s)"]) simp
  qed
qed

end
