(* ===== verification/Debug_Log.thy ===== *)
theory Debug_Log
  imports Blast_Prelude
begin

text \<open>
  Debug messages, \<^verbatim>\<open>src/debug.rs\<close>: a log that every message goes into, and standard error, where a
  message goes only at a high enough verbosity. A mutex that another thread poisoned keeps its
  log from growing; printing does not depend on it.
\<close>

record debug_log =
  dl_messages :: "string list"
  dl_poisoned :: bool

definition new_debug_log :: debug_log where
  "new_debug_log = \<lparr>dl_messages = [], dl_poisoned = False\<rparr>"

text \<open>The log and what has been printed so far.\<close>

definition debug_record :: "u8 \<Rightarrow> u8 \<Rightarrow> string \<Rightarrow> debug_log \<times> string list \<Rightarrow> debug_log \<times> string list" where
  "debug_record verbosity level msg = (\<lambda>(log, out).
     (if dl_poisoned log then log else log\<lparr>dl_messages := dl_messages log @ [msg]\<rparr>,
      if verbosity \<ge> level then out @ [''[blasthttp] '' @ msg] else out))"

definition debug_run :: "u8 \<Rightarrow> (u8 \<times> string) list \<Rightarrow> debug_log \<times> string list \<Rightarrow> debug_log \<times> string list" where
  "debug_run verbosity msgs st = foldl (\<lambda>st (level, msg). debug_record verbosity level msg st) st msgs"

text \<open>
  The log has every message in order whatever the verbosity; what is printed is what its level lets
  through, so a higher verbosity only adds lines.
\<close>

lemma debug_run_eq:
  "\<not> dl_poisoned log \<Longrightarrow> debug_run v msgs (log, out) =
     (log\<lparr>dl_messages := dl_messages log @ map snd msgs\<rparr>, out @ map (\<lambda>(_, msg). ''[blasthttp] '' @ msg) (filter (\<lambda>(level, _). level \<le> v) msgs))"
  by (induction msgs arbitrary: log out) (auto simp: debug_run_def debug_record_def)

theorem debug_messages:
  "dl_messages (fst (debug_run v msgs (new_debug_log, []))) = map snd msgs \<and>
   (v \<le> v' \<longrightarrow> subseq (snd (debug_run v msgs (new_debug_log, []))) (snd (debug_run v' msgs (new_debug_log, []))))"
proof -
  let ?f = "\<lambda>(_ :: u8, msg). ''[blasthttp] '' @ msg"
  have "subseq (map ?f (filter (\<lambda>(level, _). level \<le> v) msgs)) (map ?f (filter (\<lambda>(level, _). level \<le> v') msgs))" if "v \<le> v'"
    using that by (induction msgs) (auto split: prod.split)
  then show ?thesis by (simp add: debug_run_eq new_debug_log_def)
qed

end
