(* ===== verification/Cli.thy ===== *)
theory Cli
  imports Paced_Batch Debug_Log
begin

text \<open>
  The command line, \<^verbatim>\<open>src/main.rs\<close>: the configuration of a request from the options, the list of URLs
  from a file, and what is printed on standard output and on standard error for a single request and
  for a batch, the debug messages of \<open>-v\<close> included. clap's parsing of the options and serde_json's
  printing are outside: the options are the record \<open>cli\<close>, the printer is a parameter that may fail.
\<close>

section \<open>Options\<close>

record cli =
  cl_url :: "string option"
  cl_method :: string
  cl_headers :: "string list"
  cl_data :: "string option"
  cl_file :: "string option"
  cl_concurrency :: nat
  cl_rate_limit :: "f64 option"
  cl_verify :: bool
  cl_max_body_size :: "nat option"
  cl_follow_redirects :: bool
  cl_max_redirects :: u32
  cl_no_redirect_cookies :: bool
  cl_timeout :: "u64 option"
  cl_proxy :: "string option"
  cl_no_proxy :: "string list"
  cl_ciphers :: "string option"
  cl_min_tls :: "string option"
  cl_max_tls :: "string option"
  cl_verbose :: u8

definition parse_header :: "string \<Rightarrow> (string \<times> string) option" where
  "parse_header s = map_option (\<lambda>(name, v). (trim name, trim v)) (split_once CHR '':'' s)"

definition build_config :: "cli \<Rightarrow> string \<Rightarrow> request_config" where
  "build_config cli url =
     (let config = (config_new url)\<lparr>rc_method := Some (cl_method cli)\<rparr>;
          config = (if cl_headers cli \<noteq> []
            then config\<lparr>rc_headers := Some (List.map_filter parse_header (cl_headers cli))\<rparr> else config) in
      config\<lparr>rc_body := map_option str_bytes (cl_data cli), rc_verify_certs := Some (cl_verify cli),
        rc_follow_redirects := Some (cl_follow_redirects cli), rc_max_redirects := Some (cl_max_redirects cli),
        rc_redirect_cookies := Some (\<not> cl_no_redirect_cookies cli), rc_timeout_seconds := cl_timeout cli,
        rc_max_body_size := cl_max_body_size cli, rc_proxy := cl_proxy cli, rc_no_proxy := cl_no_proxy cli,
        rc_cipher_string := cl_ciphers cli, rc_min_tls_version := cl_min_tls cli,
        rc_max_tls_version := cl_max_tls cli, rc_verbosity := cl_verbose cli\<rparr>)"

section \<open>Printing\<close>

text \<open>The printer takes whether to be pretty and the fields of the object.\<close>

type_synonym json_printer = "bool \<Rightarrow> (string \<times> json) list \<Rightarrow> string + string"

definition serialize_response :: "digests \<Rightarrow> json_printer \<Rightarrow> response \<Rightarrow> u8 \<Rightarrow> string + string" where
  "serialize_response dg print resp verbose =
     (let fields = fst (response_serialize dg resp);
          fields = (if verbose < 2 then filter (\<lambda>(k, _). k \<noteq> ''body'') fields else fields) in
      print (verbose \<ge> 1) fields)"

text \<open>
  The texts given to \<open>println!\<close> and to \<open>eprintln!\<close>, each stream in its order. A text may span
  lines, as a pretty-printed object does.
\<close>

record printed =
  pr_stdout :: "string list"
  pr_stderr :: "string list"

definition on_stdout :: "string \<Rightarrow> printed" where
  "on_stdout t = \<lparr>pr_stdout = [t], pr_stderr = []\<rparr>"

definition on_stderr :: "string list \<Rightarrow> printed" where
  "on_stderr ts = \<lparr>pr_stdout = [], pr_stderr = ts\<rparr>"

definition print_then :: "printed \<Rightarrow> printed \<Rightarrow> printed" where
  "print_then p q = \<lparr>pr_stdout = pr_stdout p @ pr_stdout q, pr_stderr = pr_stderr p @ pr_stderr q\<rparr>"

text \<open>
  What requests print while they are on their way, on standard error: the debug messages, all of level 1
  or above, that the verbosity lets through, and the reports of the tasks that panic.
\<close>

definition sending_output :: "u8 \<Rightarrow> nat \<Rightarrow> string list \<Rightarrow> bool" where
  "sending_output verbose panics ls \<longleftrightarrow> (\<exists>msgs reports. (\<forall>(level, _) \<in> set msgs. 1 \<le> level) \<and> length reports = panics \<and>
     ls \<in> shuffles (snd (debug_run verbose msgs (new_debug_log, []))) reports)"

text \<open>\<open>shown\<close> is the text of the errors that have none of their own.\<close>

definition failure_message :: "(failure \<Rightarrow> string) \<Rightarrow> failure \<Rightarrow> string" where
  "failure_message shown e = (case e of Client c \<Rightarrow> ce_message c | _ \<Rightarrow> shown e)"

text \<open>
  What a run prints, given what sending printed, and its exit code; a panic of the main task is reported
  and ends with 101.
\<close>

definition run_single ::
  "env \<Rightarrow> 'w net \<Rightarrow> digests \<Rightarrow> json_printer \<Rightarrow> (failure \<Rightarrow> string) \<Rightarrow> cli \<Rightarrow> string list \<Rightarrow> 'w \<Rightarrow> (printed \<times> nat) \<times> 'w" where
  "run_single env net dg print shown cli during w =
     (case cl_url cli of
        None \<Rightarrow> ((on_stderr [shown Panicked], 101), w)
      | Some url \<Rightarrow>
          (case send env net (build_config cli url) Map.empty w of (r, _, w) \<Rightarrow>
            (case r of
               Inr response \<Rightarrow>
                 (case serialize_response dg print response (cl_verbose cli) of
                    Inr json \<Rightarrow> (print_then (on_stderr during) (on_stdout json), 0)
                  | Inl e \<Rightarrow> (on_stderr (during @ [''Error serializing response: '' @ e]), 1))
             | Inl Panicked \<Rightarrow> (on_stderr (during @ [shown Panicked]), 101)
             | Inl e \<Rightarrow> (on_stderr (during @ [''Error: '' @ failure_message shown e]), 1), w)))"

section \<open>Batches\<close>

text \<open>\<open>str::lines\<close>: pieces between newlines, without a carriage return at their end; no empty last one.\<close>

definition drop_cr :: "string \<Rightarrow> string" where
  "drop_cr s = (if s \<noteq> [] \<and> last s = CHR 0x0D then butlast s else s)"

definition text_lines :: "string \<Rightarrow> string list" where
  "text_lines s =
     (let ps = split_on (CHR 0x0A) s in
      map drop_cr (butlast ps) @ (if last ps = [] then [] else [last ps]))"

definition read_urls :: "string \<Rightarrow> string list" where
  "read_urls content = filter (\<lambda>l. l \<noteq> [] \<and> hd l \<noteq> CHR ''#'') (map trim (text_lines content))"

text \<open>Up to the dispatch: the configurations to send, or what to print before giving up.\<close>

definition run_batch_start :: "cli \<Rightarrow> string \<Rightarrow> string + string \<Rightarrow> printed + printed \<times> request_config list" where
  "run_batch_start cli file_path file =
     (case file of
        Inl e \<Rightarrow> Inl (on_stderr [''Error reading '' @ file_path @ '': '' @ e])
      | Inr content \<Rightarrow>
          (let urls = read_urls content in
           if urls = [] then Inl (on_stderr [''No URLs found in '' @ file_path])
           else Inr (on_stderr [''Sending '' @ show_nat (length urls) @ '' requests (concurrency: '' @
               show_nat (cl_concurrency cli) @ '')...''], map (build_config cli) urls)))"

definition print_result :: "digests \<Rightarrow> json_printer \<Rightarrow> (failure \<Rightarrow> string) \<Rightarrow> u8 \<Rightarrow> batch_result \<Rightarrow> printed" where
  "print_result dg print shown verbose r =
     (case br_result r of
        Inr resp \<Rightarrow> (case serialize_response dg print resp verbose of Inr json \<Rightarrow> on_stdout json | Inl _ \<Rightarrow> on_stderr [])
      | Inl e \<Rightarrow> on_stderr [''Error ['' @ br_url r @ '']: '' @ failure_message shown e])"

fun print_results :: "digests \<Rightarrow> json_printer \<Rightarrow> (failure \<Rightarrow> string) \<Rightarrow> u8 \<Rightarrow> batch_result list \<Rightarrow> printed" where
  "print_results dg print shown verbose [] = on_stderr []"
| "print_results dg print shown verbose (r # results) =
     print_then (print_result dg print shown verbose r) (print_results dg print shown verbose results)"

definition crashes :: "batch \<Rightarrow> nat" where
  "crashes s = length (filter (\<lambda>t. \<exists>e. t = Crashed e) (ba_tasks s))"

text \<open>A whole run over a file, for any end that the batch can come to; a bad rate panics when the limiter is made.\<close>

definition batch_run ::
  "(real \<Rightarrow> f64) \<Rightarrow> digests \<Rightarrow> json_printer \<Rightarrow> (failure \<Rightarrow> string) \<Rightarrow> cli \<Rightarrow> string \<Rightarrow> string + string \<Rightarrow> printed \<times> nat \<Rightarrow> bool" where
  "batch_run fl dg print shown cli file_path file outcome \<longleftrightarrow>
     (case run_batch_start cli file_path file of
        Inl out \<Rightarrow> outcome = (out, 1)
      | Inr (head, configs) \<Rightarrow>
          if merge_limiters fl None (cl_rate_limit cli) = Panic then outcome = (print_then head (on_stderr [shown Panicked]), 101)
          else \<exists>s during. send_batch_run fl None (cl_rate_limit cli) configs (cl_concurrency cli) s \<and> batch_done configs s \<and>
            sending_output (cl_verbose cli) (crashes s) during \<and>
            outcome = (print_then (print_then head (on_stderr during))
              (print_results dg print shown (cl_verbose cli) (ba_results s)), 0))"

text \<open>The choice between the two: a file wins over a URL. The first refusal names a flag that does not exist.\<close>

definition main_run ::
  "(real \<Rightarrow> f64) \<Rightarrow> env \<Rightarrow> 'w net \<Rightarrow> digests \<Rightarrow> json_printer \<Rightarrow> (failure \<Rightarrow> string) \<Rightarrow> cli \<Rightarrow> (string \<Rightarrow> string + string) \<Rightarrow> 'w
    \<Rightarrow> printed \<times> nat \<Rightarrow> bool" where
  "main_run fl env net dg print shown cli files w outcome \<longleftrightarrow>
     (if cl_url cli = None \<and> cl_file cli = None
      then outcome = (on_stderr [''Error: provide a URL or use -f <file>''], 1)
      else case cl_file cli of
        Some file_path \<Rightarrow> batch_run fl dg print shown cli file_path (files file_path) outcome
      | None \<Rightarrow> \<exists>during. sending_output (cl_verbose cli) 0 during \<and> outcome = fst (run_single env net dg print shown cli during w))"

section \<open>Properties\<close>

lemma build_config_url [simp]: "rc_url (build_config cli url) = url"
  by (simp add: build_config_def config_new_def Let_def)

text \<open>The object that is printed of a response: its fields, the body among them only at \<open>-vv\<close>.\<close>

definition object_of :: "digests \<Rightarrow> u8 \<Rightarrow> response \<Rightarrow> (string \<times> json) list" where
  "object_of dg verbose resp = filter (\<lambda>(k, _). verbose \<ge> 2 \<or> k \<noteq> ''body'') (fst (response_serialize dg resp))"

lemma serialize_response_object: "serialize_response dg print resp verbose = print (verbose \<ge> 1) (object_of dg verbose resp)"
  by (auto simp: serialize_response_def object_of_def Let_def not_less intro!: arg_cong [of _ _ "print _"] filter_cong)

text \<open>The responses among the results of a batch, and the failures with their URLs.\<close>

definition successes :: "batch_result list \<Rightarrow> response list" where
  "successes rs = concat (map (\<lambda>r. case br_result r of Inr resp \<Rightarrow> [resp] | Inl _ \<Rightarrow> []) rs)"

definition failures :: "batch_result list \<Rightarrow> (string \<times> failure) list" where
  "failures rs = concat (map (\<lambda>r. case br_result r of Inr _ \<Rightarrow> [] | Inl e \<Rightarrow> [(br_url r, e)]) rs)"

definition error_text :: "(failure \<Rightarrow> string) \<Rightarrow> string \<times> failure \<Rightarrow> string" where
  "error_text shown = (\<lambda>(url, e). ''Error ['' @ url @ '']: '' @ failure_message shown e)"

lemma print_then_simps [simp]:
  "pr_stdout (print_then p q) = pr_stdout p @ pr_stdout q" "pr_stderr (print_then p q) = pr_stderr p @ pr_stderr q"
  "pr_stdout (on_stdout t) = [t]" "pr_stderr (on_stdout t) = []" "pr_stdout (on_stderr ts) = []" "pr_stderr (on_stderr ts) = ts"
  by (simp_all add: print_then_def on_stdout_def on_stderr_def)

lemma print_results_streams:
  assumes "\<forall>pretty fields. \<exists>json. print pretty fields = Inr json"
  shows "list_all2 (\<lambda>resp json. print (v \<ge> 1) (object_of dg v resp) = Inr json) (successes rs)
      (pr_stdout (print_results dg print shown v rs)) \<and>
    pr_stderr (print_results dg print shown v rs) = map (error_text shown) (failures rs)"
proof (induction rs)
  case (Cons r rs)
  obtain json where "print (v \<ge> 1) (object_of dg v resp) = Inr json" if "br_result r = Inr resp" for resp
    using assms by (cases "br_result r") auto
  with Cons show ?case
    by (cases "br_result r")
      (auto simp: successes_def failures_def print_result_def serialize_response_object error_text_def)
qed (simp add: successes_def failures_def)

lemma successes_failures_length: "length (successes rs) + length (failures rs) = length rs"
  by (induction rs) (auto simp: successes_def failures_def split: sum.splits)

text \<open>Without \<open>-v\<close> the debug messages print nothing.\<close>

lemma quiet_sending: "sending_output 0 k ls \<Longrightarrow> length ls = k"
proof -
  assume "sending_output 0 k ls"
  then obtain msgs reports where m: "\<forall>(level :: u8, _) \<in> set msgs. 1 \<le> level" "length reports = k"
      "ls \<in> shuffles (snd (debug_run 0 msgs (new_debug_log, []))) reports" by (auto simp: sending_output_def)
  have "filter (\<lambda>(level, _). level \<le> (0 :: u8)) msgs = []" using m(1) by (auto simp: filter_empty_conv)
  then have "snd (debug_run 0 msgs (new_debug_log, [])) = []" by (simp add: debug_run_eq new_debug_log_def)
  with m(2,3) show ?thesis by simp
qed

text \<open>
  C40: What a batch from a file prints. Standard output gets exactly one object per response, in the order
  of the URLs in the file, each that of its own response and without its body unless \<open>-vv\<close> asked for it
  (pretty, and so on several lines, from \<open>-v\<close> on). Standard error gets the header; then whatever
  the requests print on their way, which is one report per task that panics and, from \<open>-v\<close> on, debug
  messages; then one error per failed request, in order, with its URL or that of a task that
  panicked. So without \<open>-v\<close> and panics there is one text per URL besides the header. The exit code is
  0. A file without URLs is refused with 1; a rate limit that is not positive ends the program with a
  panic behind the header, before anything is sent.
\<close>

theorem cli_batch_report:
  assumes "\<forall>pretty fields. \<exists>json. print pretty fields = Inr json"
    "batch_run fl dg print shown cli path (Inr content) (printed, code)"
  defines "urls \<equiv> read_urls content" and "v \<equiv> cl_verbose cli"
    and "sending \<equiv> ''Sending '' @ show_nat (length (read_urls content)) @ '' requests (concurrency: '' @
      show_nat (cl_concurrency cli) @ '')...''"
  shows "if urls = [] then pr_stdout printed = [] \<and> pr_stderr printed = [''No URLs found in '' @ path] \<and> code = 1
    else if \<exists>r. cl_rate_limit cli = Some r \<and> \<not> f64_positive r
    then pr_stdout printed = [] \<and> pr_stderr printed = [sending, shown Panicked] \<and> code = 101
    else code = 0 \<and> (\<exists>s during. batch_reach (map (build_config cli) urls) (cl_concurrency cli) s \<and>
      batch_done (map (build_config cli) urls) s \<and>
      list_all2 (\<lambda>u r. br_url r = u \<or> br_url r = ''<unknown>'') urls (ba_results s) \<and>
      list_all2 (\<lambda>resp json. print (v \<ge> 1) (object_of dg v resp) = Inr json) (successes (ba_results s)) (pr_stdout printed) \<and>
      pr_stderr printed = sending # during @ map (error_text shown) (failures (ba_results s)) \<and>
      sending_output v (crashes s) during \<and>
      (v = 0 \<longrightarrow> length (pr_stdout printed) + length (pr_stderr printed) = Suc (length urls) + crashes s))"
proof (cases "urls = [] \<or> (\<exists>r. cl_rate_limit cli = Some r \<and> \<not> f64_positive r)")
  case False
  let ?configs = "map (build_config cli) urls"
  obtain s during where run: "send_batch_run fl None (cl_rate_limit cli) ?configs (cl_concurrency cli) s" and s: "batch_done ?configs s"
      "sending_output v (crashes s) during" "code = 0"
      "printed = print_then (print_then (on_stderr [sending]) (on_stderr during)) (print_results dg print shown v (ba_results s))"
    using assms(2) False merge_panics [of fl "cl_rate_limit cli"]
    by (auto simp: batch_run_def run_batch_start_def Let_def urls_def v_def sending_def)
  note reach = send_runs_reach(1) [THEN iffD1, THEN conjunct2, OF run] s(1)
  note streams = print_results_streams [OF assms(1), of v dg "ba_results s" shown]
  have lengths: "length (ba_results s) = length urls" using batch_done_lengths(2) [OF reach] by simp
  then have "list_all2 (\<lambda>u r. br_url r = u \<or> br_url r = ''<unknown>'') urls (ba_results s)"
    using batch_done_urls [OF reach] by (simp add: list_all2_conv_all_nth)
  moreover have "length (pr_stdout printed) + length (pr_stderr printed) = Suc (length urls) + crashes s" if "v = 0"
    using streams successes_failures_length [of "ba_results s"] quiet_sending [of "crashes s" during] s(2,4) that lengths
    by (auto dest: list_all2_lengthD)
  ultimately show ?thesis using reach streams s False by auto
qed (use assms(2) merge_panics [of fl "cl_rate_limit cli"] in
  \<open>auto simp: batch_run_def run_batch_start_def Let_def urls_def sending_def\<close>)

definition example_cli :: cli where
  "example_cli = \<lparr>cl_url = None, cl_method = ''GET'', cl_headers = [''X-A: b''], cl_data = None, cl_file = Some ''f'',
     cl_concurrency = 1, cl_rate_limit = None, cl_verify = False, cl_max_body_size = None,
     cl_follow_redirects = False, cl_max_redirects = 10, cl_no_redirect_cookies = False, cl_timeout = None,
     cl_proxy = None, cl_no_proxy = [], cl_ciphers = None, cl_min_tls = None, cl_max_tls = None, cl_verbose = 0\<rparr>"

definition example_urls :: string where
  "example_urls = ''# list'' @ [CHR 0x0A] @ '' u '' @ [CHR 0x0D, CHR 0x0A, CHR 0x0A]"

lemma read_example_urls: "read_urls example_urls = [''u'']"
  by code_simp

lemma cli_batch_report_witness:
  "\<exists>printed. batch_run Finite example_digests (\<lambda>_ _. Inr ''{}'') (\<lambda>_. '''') example_cli ''f'' (Inr example_urls) (printed, 0) \<and>
    pr_stdout printed = [''{}''] \<and> length (pr_stderr printed) = 1"
proof -
  let ?br = "\<lparr>br_url = ''u'', br_result = Inr example_response\<rparr> :: batch_result"
  let ?s = "\<lparr>ba_tasks = [Finished ?br], ba_free = 1, ba_results = [?br]\<rparr> :: batch"
  let ?head = "''Sending '' @ show_nat 1 @ '' requests (concurrency: '' @ show_nat 1 @ '')...''"
  let ?printed = "\<lparr>pr_stdout = [''{}''], pr_stderr = [?head]\<rparr>"
  have "batch_reach [build_config example_cli ''u''] 1 ?s" by (rule single_batch_run) simp
  moreover have "sending_output 0 0 []"
    unfolding sending_output_def by (intro exI [of _ "[]"]) (simp add: debug_run_def)
  ultimately have run: "batch_run Finite example_digests (\<lambda>_ _. Inr ''{}'') (\<lambda>_. '''') example_cli ''f'' (Inr example_urls) (?printed, 0)"
    by (auto simp: batch_run_def send_batch_run_def merge_limiters_def run_batch_start_def read_example_urls batch_done_def example_cli_def
      print_result_def serialize_response_def crashes_def print_then_def on_stdout_def on_stderr_def Let_def
      intro!: exI [of _ ?s] exI [of _ "[]"])
  with cli_batch_report [OF _ run] show ?thesis
    by (auto simp: read_example_urls example_cli_def)
qed

text \<open>What follows the first colon is the value, further colons included; a header without a colon is left out.\<close>

lemma parse_header_first_colon:
  assumes "CHR '':'' \<notin> set n"
  shows "parse_header (n @ CHR '':'' # v) = Some (trim n, trim v)" "parse_header n = None"
  using assms by (simp_all add: parse_header_def split_once_None iffD2 [OF split_once_Some])

end
