(* ===== verification/Multipart.thy ===== *)
theory Multipart
  imports Request_Config "HOL-Library.Sublist"
begin

unbundle bit_operations_syntax

text \<open>
  Multipart bodies for the Python bindings, \<^verbatim>\<open>src/multipart.rs\<close>: the accepted Python values, the
  encoder, and a reader of multipart bodies that gets the parts back.

  Python values are the datatype \<open>py\<close>; \<open>str()\<close> of a value is the parameter \<open>py_str\<close>, which may raise.
  Text is a list of the bytes of its UTF-8 form, and a Python text without one (a lone surrogate) is
  \<open>PyStr None\<close>. The two hashers behind the boundary are parameters.
\<close>

section \<open>Python values\<close>

datatype py = PyNone | PyBytes bytes | PyStr "string option" | PyTuple "py list" | PyList "py list"
  | PyDict "(py \<times> py) list" | PyOther nat

datatype py_error = TypeError string | ValueError string | RuntimeError string | PanicError | OtherError

type_synonym py_str = "py \<Rightarrow> string option"

definition extract_string :: "py \<Rightarrow> py_error + string" where
  "extract_string v = (case v of PyStr (Some s) \<Rightarrow> Inr s | _ \<Rightarrow> Inl OtherError)"

definition or_type_error :: "string \<Rightarrow> py_error + 'a \<Rightarrow> py_error + 'a" where
  "or_type_error msg r = (case r of Inl _ \<Rightarrow> Inl (TypeError msg) | Inr x \<Rightarrow> Inr x)"

section \<open>Parts\<close>

record parsed_part =
  pp_filename :: "string option"
  pp_content_type :: "string option"
  pp_content :: bytes
  pp_extra_headers :: header_list

definition coerce_content :: "py_str \<Rightarrow> py \<Rightarrow> py_error + bytes" where
  "coerce_content str v =
     (case v of
        PyNone \<Rightarrow> Inr []
      | PyBytes b \<Rightarrow> Inr b
      | PyStr s \<Rightarrow> (case s of Some s \<Rightarrow> Inr (str_bytes s) | None \<Rightarrow> Inl OtherError)
      | _ \<Rightarrow> (case str v of Some s \<Rightarrow> Inr (str_bytes s) | None \<Rightarrow> Inl OtherError))"

definition optional_string :: "string \<Rightarrow> py \<Rightarrow> py_error + string option" where
  "optional_string msg v =
     (if v = PyNone then Inr None else and_then (or_type_error msg (extract_string v)) (\<lambda>s. Inr (Some s)))"

fun header_items :: "(py \<times> py) list \<Rightarrow> py_error + header_list" where
  "header_items [] = Inr []"
| "header_items ((k, v) # r) =
     and_then (extract_string k) (\<lambda>k. and_then (extract_string v) (\<lambda>v.
     and_then (header_items r) (\<lambda>hs. Inr ((k, v) # hs))))"

definition parse_sequence :: "py_str \<Rightarrow> py list \<Rightarrow> py_error + parsed_part" where
  "parse_sequence str seq =
     (let len = length seq in
      if \<not> (2 \<le> len \<and> len \<le> 4) then Inl (TypeError
        ''files value tuple must have 2-4 elements: (filename, content[, content_type[, headers]])'')
      else
        and_then (optional_string ''files tuple filename must be a string or None'' (seq ! 0)) (\<lambda>filename.
        and_then (coerce_content str (seq ! 1)) (\<lambda>content.
        and_then (if len \<ge> 3 then optional_string ''files tuple content_type must be a string or None'' (seq ! 2)
          else Inr None) (\<lambda>content_type.
        and_then (if len = 4 \<and> seq ! 3 \<noteq> PyNone
          then (case seq ! 3 of PyDict items \<Rightarrow> header_items items
              | _ \<Rightarrow> Inl (TypeError ''files tuple headers must be a dict or None''))
          else Inr []) (\<lambda>extra_headers.
        Inr \<lparr>pp_filename = filename, pp_content_type = content_type, pp_content = content,
          pp_extra_headers = extra_headers\<rparr>)))))"

definition parse_value :: "py_str \<Rightarrow> py \<Rightarrow> py_error + parsed_part" where
  "parse_value str v =
     (case v of
        PyTuple seq \<Rightarrow> parse_sequence str seq
      | PyList seq \<Rightarrow> parse_sequence str seq
      | _ \<Rightarrow> and_then (coerce_content str v) (\<lambda>content.
          Inr \<lparr>pp_filename = None, pp_content_type = None, pp_content = content, pp_extra_headers = []\<rparr>))"

section \<open>The body\<close>

fun quote_header :: "string \<Rightarrow> string" where
  "quote_header [] = []"
| "quote_header (c # s) =
     (if c = CHR 0x5C then ''%5C'' else if c = CHR 0x22 then ''%22''
      else if c = CHR 0x0D then ''%0D'' else if c = CHR 0x0A then ''%0A'' else [c]) @ quote_header s"

definition crlf_text :: string where "crlf_text = [CHR 0x0D, CHR 0x0A]"

fun write_extra_headers :: "header_list \<Rightarrow> string" where
  "write_extra_headers [] = []"
| "write_extra_headers ((k, v) # r) = k @ '': '' @ v @ crlf_text @ write_extra_headers r"

definition part_head :: "string \<Rightarrow> parsed_part \<Rightarrow> string" where
  "part_head field_name part =
     ''Content-Disposition: form-data; name='' @ [CHR 0x22] @ quote_header field_name @ [CHR 0x22] @
     (case pp_filename part of
        Some filename \<Rightarrow> ''; filename='' @ [CHR 0x22] @ quote_header filename @ [CHR 0x22] | None \<Rightarrow> []) @ crlf_text @
     (case pp_content_type part of
        Some ct \<Rightarrow> ''Content-Type: '' @ ct @ crlf_text
      | None \<Rightarrow> if pp_filename part \<noteq> None then ''Content-Type: application/octet-stream'' @ crlf_text else []) @
     write_extra_headers (pp_extra_headers part)"

definition write_part :: "py_str \<Rightarrow> bytes \<Rightarrow> string \<Rightarrow> string \<Rightarrow> py \<Rightarrow> py_error + bytes" where
  "write_part str body boundary field_name v =
     and_then (parse_value str v) (\<lambda>part.
     Inr (body @ str_bytes (''--'' @ boundary) @ str_bytes crlf_text @ str_bytes (part_head field_name part) @
       str_bytes crlf_text @ pp_content part @ str_bytes crlf_text))"

fun write_parts :: "py_str \<Rightarrow> bytes \<Rightarrow> string \<Rightarrow> (py \<times> py) list \<Rightarrow> py_error + bytes" where
  "write_parts str body boundary [] = Inr body"
| "write_parts str body boundary ((name, v) # r) =
     and_then (or_type_error ''files dict keys must be strings'' (extract_string name)) (\<lambda>name.
     and_then (write_part str body boundary name v) (\<lambda>body. write_parts str body boundary r))"

definition build_multipart :: "py_str \<Rightarrow> string \<Rightarrow> py \<Rightarrow> py_error + string \<times> bytes" where
  "build_multipart str boundary files =
     (case files of
        PyDict entries \<Rightarrow> and_then (write_parts str [] boundary entries) (\<lambda>body.
          Inr (boundary, body @ str_bytes (''--'' @ boundary @ ''--'' @ crlf_text)))
      | _ \<Rightarrow> Inl (TypeError ''files must be a dict mapping field name to content''))"

section \<open>The boundary\<close>

definition hex16 :: "u64 \<Rightarrow> string" where
  "hex16 v = map (\<lambda>i. (''0123456789abcdef'') ! (unat v div 16 ^ (15 - i) mod 16)) [0..<16]"

text \<open>The boundary and the counter behind it.\<close>

definition random_boundary :: "(u64 \<Rightarrow> u64) \<Rightarrow> (u64 \<Rightarrow> u64) \<Rightarrow> u64 \<Rightarrow> string \<times> u64" where
  "random_boundary h1 h2 counter =
     (let v1 = h1 counter; v2 = h2 (counter XOR v1) in
      (''blasthttp-boundary-'' @ hex16 v1 @ hex16 v2, counter + 1))"

section \<open>Finding a delimiter\<close>

text \<open>What comes before the first occurrence, and what comes after it.\<close>

fun cut_at :: "'a list \<Rightarrow> 'a list \<Rightarrow> ('a list \<times> 'a list) option" where
  "cut_at n [] = (if n = [] then Some ([], []) else None)"
| "cut_at n (x # s) =
     (if take (length n) (x # s) = n then Some ([], drop (length n) (x # s))
      else map_option (\<lambda>(a, b). (x # a, b)) (cut_at n s))"

lemma cut_at_shrinks: "cut_at n s = Some (a, r) \<Longrightarrow> length r \<le> length s \<and> (n \<noteq> [] \<longrightarrow> length r < length s)"
  by (induction s arbitrary: a) (auto split: if_splits)

lemma cut_at_first:
  assumes "x \<notin> set m" "\<not> sublist (x # m) a"
  shows "cut_at (x # m) (a @ x # m @ r) = Some (a, r)"
  using assms(2)
proof (induction a)
  case (Cons y a)
  have "take (length (x # m)) (y # a @ x # m @ r) \<noteq> x # m"
  proof
    assume t: "take (length (x # m)) (y # a @ x # m @ r) = x # m"
    then have y: "y = x" and m: "take (length m) (a @ x # m @ r) = m" by simp_all
    show False
    proof (cases "length m \<le> length a")
      case True
      with m have "take (length m) a = m" by simp
      with y have "y # a = [] @ (x # m) @ drop (length m) a" using append_take_drop_id [of "length m" a] by simp
      then have "sublist (x # m) (y # a)" unfolding sublist_def by (intro exI)
      then show False using Cons.prems by simp
    next
      case False
      then have "take (length m) (a @ x # m @ r) ! length a = (a @ x # m @ r) ! length a" by (intro nth_take) simp
      then have "m ! length a = x" unfolding m by simp
      with False nth_mem [of "length a" m] assms(1) show False by simp
    qed
  qed
  moreover have "\<not> sublist (x # m) a" using Cons.prems by (simp add: sublist_Cons_right)
  ultimately show ?case using Cons.IH by simp
qed simp

section \<open>A reader of multipart bodies\<close>

definition crlf_bytes :: bytes where "crlf_bytes = [0x0D, 0x0A]"

definition delimiter :: "string \<Rightarrow> bytes" where
  "delimiter boundary = crlf_bytes @ str_bytes (''--'' @ boundary)"

text \<open>Header lines up to the empty one, and what follows it.\<close>

function read_lines :: "bytes \<Rightarrow> (bytes list \<times> bytes) option" where
  "read_lines s =
     (case cut_at crlf_bytes s of
        None \<Rightarrow> None
      | Some (line, r) \<Rightarrow> if line = [] then Some ([], r) else map_option (\<lambda>(ls, r). (line # ls, r)) (read_lines r))"
  by pat_completeness auto
termination
  by (relation "measure length") (auto dest!: cut_at_shrinks simp: crlf_bytes_def)

declare read_lines.simps [simp del]

lemma read_lines_shrinks: "read_lines s = Some (ls, r) \<Longrightarrow> length r < length s"
proof (induction s arbitrary: ls rule: read_lines.induct)
  case (1 s)
  obtain line t where c: "cut_at crlf_bytes s = Some (line, t)"
    using "1.prems" by (subst (asm) read_lines.simps) (auto split: option.splits)
  then have t: "length t < length s" by (auto dest: cut_at_shrinks simp: crlf_bytes_def)
  show ?case
  proof (cases "line = []")
    case True
    with c t "1.prems" show ?thesis by (subst (asm) read_lines.simps) simp
  next
    case False
    with c "1.prems" obtain ls' where "read_lines t = Some (ls', r)" by (subst (asm) read_lines.simps) auto
    with "1.IH" [OF c refl False] t show ?thesis by auto
  qed
qed

text \<open>Behind a delimiter: the closing one, or a part up to the next.\<close>

function read_parts :: "string \<Rightarrow> bytes \<Rightarrow> (bytes list \<times> bytes) list option" where
  "read_parts boundary s =
     (if s = str_bytes ''--'' @ crlf_bytes then Some []
      else if take 2 s \<noteq> crlf_bytes then None
      else case read_lines (drop 2 s) of
        None \<Rightarrow> None
      | Some (ls, r) \<Rightarrow>
          (case cut_at (delimiter boundary) r of
             None \<Rightarrow> None
           | Some (content, r) \<Rightarrow> map_option (Cons (ls, content)) (read_parts boundary r)))"
  by pat_completeness auto
termination
proof (relation "measure (\<lambda>(_, s). length s)", goal_cases)
  case (2 b s x ls r y content r')
  then have "length r' \<le> length r" "length r < length (drop 2 s)"
    by (auto dest: cut_at_shrinks read_lines_shrinks)
  then show ?case by simp
qed simp

declare read_parts.simps [simp del]

definition read_multipart :: "string \<Rightarrow> bytes \<Rightarrow> (bytes list \<times> bytes) list option" where
  "read_multipart boundary s =
     (let open_delim = str_bytes (''--'' @ boundary) in
      if take (length open_delim) s = open_delim then read_parts boundary (drop (length open_delim) s) else None)"

section \<open>Reading back what was written\<close>

text \<open>The header lines of a part.\<close>

definition part_lines :: "string \<Rightarrow> parsed_part \<Rightarrow> string list" where
  "part_lines name p =
     [''Content-Disposition: form-data; name='' @ [CHR 0x22] @ quote_header name @ [CHR 0x22] @
       (case pp_filename p of Some f \<Rightarrow> ''; filename='' @ [CHR 0x22] @ quote_header f @ [CHR 0x22] | None \<Rightarrow> [])] @
     (case pp_content_type p of Some ct \<Rightarrow> [''Content-Type: '' @ ct]
      | None \<Rightarrow> if pp_filename p \<noteq> None then [''Content-Type: application/octet-stream''] else []) @
     map (\<lambda>(k, v). k @ '': '' @ v) (pp_extra_headers p)"

text \<open>Values that the encoder writes as they are must not break the line.\<close>

definition one_line :: "string \<Rightarrow> bool" where
  "one_line s \<longleftrightarrow> CHR 0x0D \<notin> set s"

definition part_clean :: "string \<Rightarrow> parsed_part \<Rightarrow> bool" where
  "part_clean boundary p \<longleftrightarrow> (\<forall>ct. pp_content_type p = Some ct \<longrightarrow> one_line ct) \<and>
     list_all (\<lambda>(k, v). one_line k \<and> one_line v) (pp_extra_headers p) \<and>
     \<not> sublist (delimiter boundary) (pp_content p)"

lemma crlf_text_bytes [simp]: "str_bytes crlf_text = crlf_bytes"
  by (simp add: str_bytes_def crlf_text_def crlf_bytes_def)

lemma str_bytes_eq_Nil: "str_bytes s = [] \<longleftrightarrow> s = []"
  by (simp add: str_bytes_def)

lemma of_char_CR: "(of_char c :: u8) = 0x0D \<longleftrightarrow> c = CHR 0x0D"
  using str_bytes_inject [of "[c]" "[CHR 0x0D]"] by (simp add: str_bytes_def)

lemma one_line_bytes: "one_line s \<longleftrightarrow> 0x0D \<notin> set (str_bytes s)"
proof -
  have "0x0D \<in> set (str_bytes s) \<longleftrightarrow> (\<exists>c \<in> set s. (of_char c :: u8) = 0x0D)"
    unfolding str_bytes_def set_map image_iff by (simp only: eq_commute)
  then show ?thesis by (simp add: of_char_CR one_line_def)
qed

lemma quote_header_safe: "set (quote_header s) \<inter> {CHR 0x5C, CHR 0x22, CHR 0x0D, CHR 0x0A} = {}"
  by (induction s) auto

lemma one_line_simps [simp]:
  "one_line []" "one_line (c # s) \<longleftrightarrow> c \<noteq> CHR 0x0D \<and> one_line s" "one_line (s @ t) \<longleftrightarrow> one_line s \<and> one_line t"
  "one_line (quote_header s)"
  using quote_header_safe [of s] by (auto simp: one_line_def)

lemma part_lines_one_line: "part_clean boundary p \<Longrightarrow> list_all (\<lambda>l. one_line l \<and> l \<noteq> []) (part_lines name p)"
  by (auto simp: part_lines_def part_clean_def list_all_iff split: option.split)

lemma write_extra_headers_lines: "write_extra_headers hs = concat (map (\<lambda>l. l @ crlf_text) (map (\<lambda>(k, v). k @ '': '' @ v) hs))"
  by (induction hs) auto

lemma part_head_lines: "part_head name p = concat (map (\<lambda>l. l @ crlf_text) (part_lines name p))"
  by (simp add: part_head_def part_lines_def write_extra_headers_lines split: option.split)

lemma str_bytes_lines: "str_bytes (concat (map (\<lambda>l. l @ crlf_text) ls)) = concat (map (\<lambda>l. l @ crlf_bytes) (map str_bytes ls))"
  by (induction ls) (simp_all add: str_bytes_def [of "[]"])

lemma read_lines_written:
  "\<forall>l \<in> set ls. 0x0D \<notin> set l \<and> l \<noteq> [] \<Longrightarrow>
     read_lines (concat (map (\<lambda>l. l @ crlf_bytes) ls) @ crlf_bytes @ r) = Some (ls, r)"
proof (induction ls)
  case Nil
  show ?case using cut_at_first [of "0x0D" "[0x0A]" "[]" r]
    by (subst read_lines.simps) (simp add: crlf_bytes_def sublist_def)
next
  case (Cons l ls)
  have "\<not> sublist [0x0D, 0x0A] l" using Cons.prems by (auto simp: sublist_def)
  from cut_at_first [OF _ this, of "concat (map (\<lambda>l. l @ crlf_bytes) ls) @ crlf_bytes @ r"]
  have "cut_at crlf_bytes (l @ crlf_bytes @ concat (map (\<lambda>l. l @ crlf_bytes) ls) @ crlf_bytes @ r) =
      Some (l, concat (map (\<lambda>l. l @ crlf_bytes) ls) @ crlf_bytes @ r)"
    by (simp add: crlf_bytes_def)
  with Cons show ?case by (subst read_lines.simps) simp
qed

text \<open>What comes behind the delimiter of a part.\<close>

definition part_bytes :: "string \<Rightarrow> parsed_part \<Rightarrow> bytes" where
  "part_bytes name p = crlf_bytes @ concat (map (\<lambda>l. l @ crlf_bytes) (map str_bytes (part_lines name p))) @
     crlf_bytes @ pp_content p"

lemma cut_at_delimiter:
  assumes "one_line boundary" "\<not> sublist (delimiter boundary) a"
  shows "cut_at (delimiter boundary) (a @ delimiter boundary @ r) = Some (a, r)"
proof -
  have d: "delimiter boundary = 0x0D # 0x0A # str_bytes (''--'' @ boundary)" by (simp add: delimiter_def crlf_bytes_def)
  have "0x0D \<notin> set (0x0A # str_bytes (''--'' @ boundary))"
    using assms(1) one_line_bytes [of "''--'' @ boundary"] by (simp add: one_line_def)
  from cut_at_first [OF this, of a r] assms(2) show ?thesis unfolding d by simp
qed

lemma read_part:
  assumes "one_line boundary" "part_clean boundary p"
  shows "read_parts boundary (part_bytes name p @ delimiter boundary @ r) =
    map_option (Cons (map str_bytes (part_lines name p), pp_content p)) (read_parts boundary r)"
proof -
  have "read_lines (concat (map (\<lambda>l. l @ crlf_bytes) (map str_bytes (part_lines name p))) @ crlf_bytes @
      pp_content p @ delimiter boundary @ r) = Some (map str_bytes (part_lines name p), pp_content p @ delimiter boundary @ r)"
    using part_lines_one_line [OF assms(2), of name]
    by (intro read_lines_written) (auto simp: list_all_iff one_line_bytes str_bytes_eq_Nil)
  moreover have "cut_at (delimiter boundary) (pp_content p @ delimiter boundary @ r) = Some (pp_content p, r)"
    using assms by (intro cut_at_delimiter) (simp_all add: part_clean_def)
  moreover have "part_bytes name p @ delimiter boundary @ r \<noteq> str_bytes ''--'' @ crlf_bytes"
    by (simp add: part_bytes_def crlf_bytes_def str_bytes_def)
  moreover have "take 2 (part_bytes name p @ t) = crlf_bytes" "drop 2 (part_bytes name p @ t) =
      concat (map (\<lambda>l. l @ crlf_bytes) (map str_bytes (part_lines name p))) @ crlf_bytes @ pp_content p @ t" for t
    by (simp_all add: part_bytes_def crlf_bytes_def)
  ultimately show ?thesis by (subst read_parts.simps) (simp del: take_append drop_append)
qed

fun after_dashes :: "string \<Rightarrow> (string \<times> parsed_part) list \<Rightarrow> bytes" where
  "after_dashes boundary [] = str_bytes ''--'' @ crlf_bytes"
| "after_dashes boundary ((name, p) # r) = part_bytes name p @ delimiter boundary @ after_dashes boundary r"

lemma read_after_dashes:
  "one_line boundary \<Longrightarrow> list_all (\<lambda>(_, p). part_clean boundary p) parts \<Longrightarrow>
     read_parts boundary (after_dashes boundary parts) =
       Some (map (\<lambda>(name, p). (map str_bytes (part_lines name p), pp_content p)) parts)"
proof (induction parts rule: after_dashes.induct)
  case (1 boundary)
  show ?case by (subst read_parts.simps) simp
next
  case (2 boundary name p r)
  then show ?case using read_part [of boundary p name "after_dashes boundary r"] by simp
qed

definition entry_part :: "py_str \<Rightarrow> py \<times> py \<Rightarrow> string \<times> parsed_part \<Rightarrow> bool" where
  "entry_part str e np \<longleftrightarrow> fst e = PyStr (Some (fst np)) \<and> parse_value str (snd e) = Inr (snd np)"

lemma write_parts_bytes:
  "list_all2 (entry_part str) entries parts \<Longrightarrow>
     write_parts str body boundary entries =
       Inr (body @ concat (map (\<lambda>(name, p). str_bytes (''--'' @ boundary) @ part_bytes name p @ crlf_bytes) parts))"
proof (induction entries arbitrary: parts body)
  case (Cons e entries)
  from Cons.prems obtain np parts' where np: "parts = np # parts'" "entry_part str e np" "list_all2 (entry_part str) entries parts'"
    by (auto simp: list_all2_Cons1)
  obtain name p where n: "np = (name, p)" by fastforce
  have e: "e = (PyStr (Some name), snd e)" "parse_value str (snd e) = Inr p"
    using np(2) n by (auto simp: entry_part_def prod_eq_iff)
  have "write_part str body boundary name (snd e) =
      Inr (body @ str_bytes (''--'' @ boundary) @ part_bytes name p @ crlf_bytes)"
    by (simp add: write_part_def e(2) part_bytes_def part_head_lines str_bytes_lines comp_def)
  then show ?case using Cons.IH [OF np(3)] np(1) n
    by (subst e(1)) (simp add: extract_string_def or_type_error_def)
qed simp

lemma write_parts_Inr: "write_parts str body boundary entries = Inr out \<Longrightarrow> \<exists>parts. list_all2 (entry_part str) entries parts"
proof (induction entries arbitrary: body)
  case (Cons e entries)
  obtain k v where e: "e = (k, v)" by fastforce
  from Cons.prems e obtain name p body' where "k = PyStr (Some name)" "parse_value str v = Inr p"
    "write_parts str body' boundary entries = Inr out"
    by (auto simp: and_then_eq_Inr or_type_error_def extract_string_def write_part_def split: sum.splits py.splits option.splits)
  with Cons.IH e show ?case by (auto simp: list_all2_Cons1 entry_part_def)
qed auto

lemma dashes_shift:
  "concat (map (\<lambda>(name, p). str_bytes (''--'' @ boundary) @ part_bytes name p @ crlf_bytes) parts) @
     str_bytes (''--'' @ boundary) @ str_bytes ''--'' @ crlf_bytes = str_bytes (''--'' @ boundary) @ after_dashes boundary parts"
proof (induction parts)
  case (Cons np parts)
  obtain name p where np: "np = (name, p)" by fastforce
  have d: "delimiter boundary = crlf_bytes @ str_bytes (''--'' @ boundary)" by (simp add: delimiter_def)
  show ?case using Cons np by (simp only: list.map concat.simps append_assoc after_dashes.simps d prod.case)
qed simp

lemma build_multipart_bytes:
  assumes "list_all2 (entry_part str) entries parts"
  shows "build_multipart str boundary (PyDict entries) =
    Inr (boundary, str_bytes (''--'' @ boundary) @ after_dashes boundary parts)"
proof -
  have "str_bytes (''--'' @ boundary @ ''--'' @ crlf_text) = str_bytes (''--'' @ boundary) @ str_bytes ''--'' @ crlf_bytes"
    by (simp only: append_assoc [symmetric] str_bytes_append crlf_text_bytes)
  then show ?thesis using write_parts_bytes [OF assms, of "[]" boundary] dashes_shift [of boundary parts]
    by (simp only: build_multipart_def py.case and_then_simps append_Nil append_assoc)
qed

section \<open>Properties\<close>

text \<open>
  C27: A multipart body reads back. For a dict of acceptable values the encoder succeeds and a reader of
  multipart bodies finds one part per entry, in order: its header lines are the disposition with the
  quoted names, the content type (\<open>application/octet-stream\<close> for a file without one) and the extra
  headers, its content the very bytes. The caller's content types and headers must have no carriage
  return, and no content may have the delimiter in it.
\<close>

theorem multipart_roundtrip:
  assumes "list_all2 (entry_part str) entries parts" "one_line boundary"
    "list_all (\<lambda>(_, p). part_clean boundary p) parts"
  shows "\<exists>body. build_multipart str boundary (PyDict entries) = Inr (boundary, body) \<and>
    read_multipart boundary body = Some (map (\<lambda>(name, p). (map str_bytes (part_lines name p), pp_content p)) parts)"
  using build_multipart_bytes [OF assms(1)] read_after_dashes [OF assms(2,3)]
  by (auto simp: read_multipart_def Let_def)

lemma multipart_roundtrip_witness:
  "\<exists>body. build_multipart (\<lambda>_. None) ''B'' (PyDict [(PyStr (Some ''f''), PyTuple [PyStr (Some ''a.txt''), PyBytes [104, 105]])]) = Inr (''B'', body) \<and>
     read_multipart ''B'' body = Some [([str_bytes (''Content-Disposition: form-data; name='' @ [CHR 0x22] @ ''f'' @ [CHR 0x22] @
       ''; filename='' @ [CHR 0x22] @ ''a.txt'' @ [CHR 0x22]), str_bytes ''Content-Type: application/octet-stream''], [104, 105])]"
proof -
  let ?p = "\<lparr>pp_filename = Some ''a.txt'', pp_content_type = None, pp_content = [104, 105], pp_extra_headers = []\<rparr>"
  have "list_all2 (entry_part (\<lambda>_. None)) [(PyStr (Some ''f''), PyTuple [PyStr (Some ''a.txt''), PyBytes [104, 105]])] [(''f'', ?p)]"
    by (simp add: entry_part_def parse_value_def parse_sequence_def optional_string_def extract_string_def
        or_type_error_def coerce_content_def)
  moreover have "part_clean ''B'' ?p"
    by (auto simp: part_clean_def delimiter_def crlf_bytes_def sublist_def Cons_eq_append_conv append_eq_Cons_conv)
  ultimately show ?thesis using multipart_roundtrip [of _ _ "[(''f'', ?p)]" "''B''"]
    by (fastforce simp: part_lines_def)
qed

text \<open>The documented shapes of a value.\<close>

definition is_text :: "py \<Rightarrow> bool" where "is_text v \<longleftrightarrow> (\<exists>s. v = PyStr (Some s))"

definition content_ok :: "py_str \<Rightarrow> py \<Rightarrow> bool" where
  "content_ok str v \<longleftrightarrow> (case v of PyNone \<Rightarrow> True | PyBytes _ \<Rightarrow> True | PyStr s \<Rightarrow> s \<noteq> None | _ \<Rightarrow> str v \<noteq> None)"

definition headers_ok :: "py \<Rightarrow> bool" where
  "headers_ok v \<longleftrightarrow> v = PyNone \<or> (\<exists>items. v = PyDict items \<and> list_all (\<lambda>(k, v). is_text k \<and> is_text v) items)"

definition sequence_ok :: "py_str \<Rightarrow> py list \<Rightarrow> bool" where
  "sequence_ok str seq \<longleftrightarrow> length seq \<in> {2, 3, 4} \<and> (seq ! 0 = PyNone \<or> is_text (seq ! 0)) \<and> content_ok str (seq ! 1) \<and>
     (length seq = 2 \<or> seq ! 2 = PyNone \<or> is_text (seq ! 2)) \<and> (length seq \<noteq> 4 \<or> headers_ok (seq ! 3))"

definition value_ok :: "py_str \<Rightarrow> py \<Rightarrow> bool" where
  "value_ok str v \<longleftrightarrow> (case v of PyTuple seq \<Rightarrow> sequence_ok str seq | PyList seq \<Rightarrow> sequence_ok str seq | _ \<Rightarrow> content_ok str v)"

lemma extract_string_iff: "(\<exists>s. extract_string v = Inr s) \<longleftrightarrow> is_text v"
  by (auto simp: extract_string_def is_text_def split: py.splits option.splits)

lemma optional_string_iff: "(\<exists>s. optional_string msg v = Inr s) \<longleftrightarrow> v = PyNone \<or> is_text v"
  using extract_string_iff [of v]
  by (auto simp: optional_string_def or_type_error_def is_text_def and_then_eq_Inr split: sum.splits)

lemma coerce_content_iff: "(\<exists>c. coerce_content str v = Inr c) \<longleftrightarrow> content_ok str v"
  by (auto simp: coerce_content_def content_ok_def split: py.split option.split)

lemma header_items_iff: "(\<exists>hs. header_items items = Inr hs) \<longleftrightarrow> list_all (\<lambda>(k, v). is_text k \<and> is_text v) items"
proof (induction items rule: header_items.induct)
  case (2 k v r)
  then show ?case using extract_string_iff [of k] extract_string_iff [of v] by (auto simp: and_then_eq_Inr)
qed simp

lemma header_arg_iff:
  fixes v :: py
  shows "(\<exists>hs. (case v of PyDict items \<Rightarrow> header_items items | _ \<Rightarrow> Inl e) = Inr hs) \<and> v \<noteq> PyNone \<longleftrightarrow> headers_ok v \<and> v \<noteq> PyNone"
  using header_items_iff by (auto simp: headers_ok_def split: py.splits)

lemma and_then_four:
  "(\<exists>y. and_then a (\<lambda>w. and_then b (\<lambda>x. and_then c (\<lambda>y. and_then d (\<lambda>z. Inr (f w x y z))))) = Inr y) \<longleftrightarrow>
     (\<exists>w. a = Inr w) \<and> (\<exists>x. b = Inr x) \<and> (\<exists>y. c = Inr y) \<and> (\<exists>z. d = Inr z)"
  by (auto simp: and_then_eq_Inr)

lemma parse_sequence_iff: "(\<exists>p. parse_sequence str seq = Inr p) \<longleftrightarrow> sequence_ok str seq"
proof (cases "2 \<le> length seq \<and> length seq \<le> 4")
  case True
  have ct: "(\<exists>ct. (if length seq \<ge> 3 then optional_string m (seq ! 2) else Inr None) = Inr ct) \<longleftrightarrow>
      length seq = 2 \<or> seq ! 2 = PyNone \<or> is_text (seq ! 2)" for m
    using optional_string_iff [of m "seq ! 2"] True by auto
  have hs: "(\<exists>hs. (if length seq = 4 \<and> seq ! 3 \<noteq> PyNone
        then (case seq ! 3 of PyDict items \<Rightarrow> header_items items | _ \<Rightarrow> Inl e) else Inr []) = Inr hs) \<longleftrightarrow>
      length seq \<noteq> 4 \<or> headers_ok (seq ! 3)" for e
    using header_arg_iff [of e "seq ! 3"] by (cases "length seq = 4 \<and> seq ! 3 \<noteq> PyNone") (auto simp: headers_ok_def)
  have "length seq \<in> {2, 3, 4}" using True by auto
  moreover have "(\<exists>p. parse_sequence str seq = Inr p) \<longleftrightarrow> (seq ! 0 = PyNone \<or> is_text (seq ! 0)) \<and> content_ok str (seq ! 1) \<and>
      (length seq = 2 \<or> seq ! 2 = PyNone \<or> is_text (seq ! 2)) \<and> (length seq \<noteq> 4 \<or> headers_ok (seq ! 3))"
    by (simp only: parse_sequence_def Let_def True not_True_eq_False if_False simp_thms and_then_four
        optional_string_iff coerce_content_iff ct hs)
  ultimately show ?thesis unfolding sequence_ok_def by blast
next
  case False
  then show ?thesis by (auto simp: parse_sequence_def sequence_ok_def)
qed

lemma parse_value_iff: "(\<exists>p. parse_value str v = Inr p) \<longleftrightarrow> value_ok str v"
  using coerce_content_iff [of str v] parse_sequence_iff [of str]
  by (cases v) (auto simp: parse_value_def value_ok_def and_then_eq_Inr)

text \<open>
  The encoder accepts exactly the documented shapes: a dict from texts to scalars with a text form,
  or to sequences of two to four items whose file name and content type are texts or \<open>None\<close> and whose
  headers are a dict of texts or \<open>None\<close>. Anything else raises.
\<close>

theorem multipart_accepts:
  "(\<exists>r. build_multipart str boundary files = Inr r) \<longleftrightarrow>
     (\<exists>entries. files = PyDict entries \<and> list_all (\<lambda>(k, v). is_text k \<and> value_ok str v) entries)"
proof -
  have "(\<exists>parts. list_all2 (entry_part str) entries parts) \<longleftrightarrow> list_all (\<lambda>(k, v). is_text k \<and> value_ok str v) entries" for entries
  proof (induction entries)
    case (Cons e entries)
    have "(\<exists>np. entry_part str e np) \<longleftrightarrow> is_text (fst e) \<and> value_ok str (snd e)"
      using parse_value_iff [of str "snd e"] by (auto simp: entry_part_def is_text_def)
    with Cons.IH show ?case by (auto simp: list_all2_Cons1 case_prod_beta)
  qed simp
  moreover have "(\<exists>r. build_multipart str boundary (PyDict entries) = Inr r) \<longleftrightarrow> (\<exists>parts. list_all2 (entry_part str) entries parts)" for entries
    using write_parts_bytes [of str entries] write_parts_Inr [of str "[]" boundary entries]
    by (auto simp: build_multipart_def and_then_eq_Inr)
  ultimately show ?thesis by (cases files) (auto simp: build_multipart_def)
qed

text \<open>
  The quoting keeps a name inside its quotes; it is not injective, since the percent sign stays.
\<close>

lemma quote_header_collision: "quote_header [CHR 0x22] = quote_header ''%22''"
  by simp

end
