(* ===== verification/Python_Layer.thy ===== *)
theory Python_Layer
  imports Multipart Batch
begin

text \<open>
  Logic of the Python bindings, \<^verbatim>\<open>src/python.rs\<close>: the \<open>body\<close> and \<open>files\<close> arguments, the
  case-insensitive \<open>Headers\<close> (whose contract is the locale \<open>header_map\<close>), the chunks of a result
  stream, \<open>raise_for_status\<close> and the configuration of a batch request. Getters, \<open>__repr__\<close> and the
  hand-over to Python are not modelled.
\<close>

section \<open>The body and files arguments\<close>

text \<open>\<open>extract::<Vec<u8>>()\<close>: bytes, or a list or tuple of small integers; the parameter \<open>octets\<close> reads those.\<close>

definition extract_bytes :: "(py \<Rightarrow> bytes option) \<Rightarrow> py \<Rightarrow> bytes option" where
  "extract_bytes octets v = (case v of PyBytes b \<Rightarrow> Some b | PyNone \<Rightarrow> None | PyStr _ \<Rightarrow> None | _ \<Rightarrow> octets v)"

definition coerce_body :: "(py \<Rightarrow> bytes option) \<Rightarrow> py option \<Rightarrow> py_error + bytes option" where
  "coerce_body octets body =
     (case body of
        None \<Rightarrow> Inr None
      | Some b \<Rightarrow>
          if b = PyNone then Inr None
          else (case extract_string b of
              Inr s \<Rightarrow> Inr (Some (str_bytes s))
            | Inl _ \<Rightarrow> (case extract_bytes octets b of
                Some bs \<Rightarrow> Inr (Some bs)
              | None \<Rightarrow> Inl (TypeError ''body must be bytes, str, or None''))))"

definition reject_body_with_files :: "py option \<Rightarrow> py option \<Rightarrow> py_error + unit" where
  "reject_body_with_files body files =
     (let body_set = (case body of Some b \<Rightarrow> b \<noteq> PyNone | None \<Rightarrow> False);
          files_set = (case files of Some f \<Rightarrow> f \<noteq> PyNone | None \<Rightarrow> False) in
      if body_set \<and> files_set then Inl (ValueError ''got both body= and files=; pass only one'') else Inr ())"

definition apply_body_and_files ::
  "(py \<Rightarrow> bytes option) \<Rightarrow> py_str \<Rightarrow> string \<Rightarrow> py option \<Rightarrow> py option \<Rightarrow> header_list option
    \<Rightarrow> py_error + bytes option \<times> header_list option" where
  "apply_body_and_files octets str boundary body files headers =
     and_then (reject_body_with_files body files) (\<lambda>_.
     case files of
       Some f \<Rightarrow>
         if f \<noteq> PyNone then
           and_then (build_multipart str boundary f) (\<lambda>(boundary, body_bytes).
           let header_list = unwrap_or headers [] in
           Inr (Some body_bytes, Some (if list_ex (\<lambda>(k, _). eq_ignore_ascii_case k ''content-type'') header_list
             then header_list
             else header_list @ [(''Content-Type'', ''multipart/form-data; boundary='' @ boundary)])))
         else and_then (coerce_body octets body) (\<lambda>b. Inr (b, headers))
     | None \<Rightarrow> and_then (coerce_body octets body) (\<lambda>b. Inr (b, headers)))"

section \<open>Headers\<close>

record py_headers =
  ph_list :: header_list
  ph_lookup :: "string \<rightharpoonup> string"

fun lookup_loop :: "(string \<rightharpoonup> string) \<Rightarrow> header_list \<Rightarrow> string \<rightharpoonup> string" where
  "lookup_loop lookup [] = lookup"
| "lookup_loop lookup ((k, v) # r) = lookup_loop (lookup(to_ascii_lowercase k \<mapsto> v)) r"

definition headers_from_list :: "header_list \<Rightarrow> py_headers" where
  "headers_from_list l = \<lparr>ph_list = l, ph_lookup = lookup_loop Map.empty l\<rparr>"

definition headers_getitem :: "py_headers \<Rightarrow> string \<Rightarrow> string + string" where
  "headers_getitem h key = ok_or (ph_lookup h (to_ascii_lowercase key)) key"

definition headers_setitem :: "string \<Rightarrow> string \<Rightarrow> py_headers \<Rightarrow> py_headers" where
  "headers_setitem key value h =
     \<lparr>ph_list = filter (\<lambda>(k, _). \<not> eq_ignore_ascii_case k key) (ph_list h) @ [(key, value)],
      ph_lookup = (ph_lookup h)(to_ascii_lowercase key \<mapsto> value)\<rparr>"

definition headers_delitem :: "string \<Rightarrow> py_headers \<Rightarrow> (string + unit) \<times> py_headers" where
  "headers_delitem key h =
     (let lower = to_ascii_lowercase key in
      if ph_lookup h lower = None then (Inl key, h)
      else (Inr (), \<lparr>ph_list = filter (\<lambda>(k, _). \<not> eq_ignore_ascii_case k key) (ph_list h),
                     ph_lookup = (ph_lookup h)(lower := None)\<rparr>))"

definition headers_contains :: "py_headers \<Rightarrow> string \<Rightarrow> bool" where
  "headers_contains h key \<longleftrightarrow> ph_lookup h (to_ascii_lowercase key) \<noteq> None"

definition headers_len :: "py_headers \<Rightarrow> nat" where
  "headers_len h = card (dom (ph_lookup h))"

definition headers_get :: "py_headers \<Rightarrow> string \<Rightarrow> py option \<Rightarrow> py option" where
  "headers_get h key d = (case ph_lookup h (to_ascii_lowercase key) of Some v \<Rightarrow> Some (PyStr (Some v)) | None \<Rightarrow> d)"

fun dict_loop :: "(string \<rightharpoonup> string) \<Rightarrow> (py \<times> py) list \<Rightarrow> py_error + (string \<rightharpoonup> string)" where
  "dict_loop m [] = Inr m"
| "dict_loop m ((k, v) # r) =
     and_then (extract_string k) (\<lambda>k. and_then (extract_string v) (\<lambda>v. dict_loop (m(to_ascii_lowercase k \<mapsto> v)) r))"

text \<open>Comparing with another \<open>Headers\<close> or with a Python value.\<close>

definition headers_eq :: "py_headers \<Rightarrow> py_headers + py \<Rightarrow> py_error + bool" where
  "headers_eq h other =
     (case other of
        Inl o' \<Rightarrow> Inr (ph_lookup h = ph_lookup o')
      | Inr (PyDict items) \<Rightarrow> and_then (dict_loop Map.empty items) (\<lambda>m. Inr (ph_lookup h = m))
      | Inr _ \<Rightarrow> Inr False)"

section \<open>Chunks of a stream\<close>

definition CHUNK_MAX :: nat where "CHUNK_MAX = 1000"
definition CHUNK_MS :: nat where "CHUNK_MS = 200"

text \<open>
  \<open>__anext__\<close> called at \<open>start\<close>: \<open>arrivals\<close> are the results to come with the times they arrive,
  \<open>ends\<close> is when the stream ends. The outcome is a chunk, or the end (\<open>None\<close>), with the time of
  return and what is still to come.
\<close>

fun chunk_loop :: "nat \<Rightarrow> nat \<Rightarrow> nat \<Rightarrow> 'a list \<Rightarrow> (nat \<times> 'a) list \<Rightarrow> 'a list option \<times> nat \<times> (nat \<times> 'a) list" where
  "chunk_loop start ends now chunk arrivals =
     (if length chunk \<ge> CHUNK_MAX \<or> chunk \<noteq> [] \<and> now - start \<ge> CHUNK_MS then (Some chunk, now, arrivals)
      else case arrivals of
          (t, r) # rest \<Rightarrow> chunk_loop start ends (max now t) (chunk @ [r]) rest
        | [] \<Rightarrow> (if chunk = [] then None else Some chunk, max now ends, []))"

declare chunk_loop.simps [simp del]

definition anext :: "nat \<Rightarrow> nat \<Rightarrow> (nat \<times> 'a) list \<Rightarrow> 'a list option \<times> nat \<times> (nat \<times> 'a) list" where
  "anext ends now arrivals = chunk_loop now ends now [] arrivals"

text \<open>The message of an error, as Python sees it: \<open>shown\<close> gives that of the errors with a text of their own.\<close>

definition to_py_batch_result :: "(failure \<Rightarrow> string) \<Rightarrow> batch_result \<Rightarrow> string \<times> response option \<times> string option" where
  "to_py_batch_result shown r =
     (br_url r, case br_result r of Inr resp \<Rightarrow> (Some resp, None) | Inl e \<Rightarrow> (None, Some (shown e)))"

text \<open>The text of the error \<open>raise_for_status\<close> raises.\<close>

definition raise_for_status :: "response \<Rightarrow> string + unit" where
  "raise_for_status r =
     (let status = rs_status r in
      if 400 \<le> status \<and> status < 600
      then Inl (''HTTP '' @ show_nat (unat status) @ '' for url '' @ [CHR 0x27] @ rs_url r @ [CHR 0x27])
      else Inr ())"

section \<open>The configuration of a batch request\<close>

record batch_config =
  bc_url :: string
  bc_method :: "string option"
  bc_headers :: "header_list option"
  bc_body :: "py option"
  bc_files :: "py option"
  bc_timeout :: "u64 option"
  bc_follow_redirects :: "bool option"
  bc_max_redirects :: "u32 option"
  bc_redirect_cookies :: "bool option"
  bc_verify_certs :: "bool option"
  bc_proxy :: "string option"
  bc_no_proxy :: "string list option"
  bc_cipher_string :: "string option"
  bc_min_tls_version :: "string option"
  bc_max_tls_version :: "string option"
  bc_retries :: "u32 option"
  bc_retry_wait_min_ms :: "u64 option"
  bc_retry_wait_max_ms :: "u64 option"
  bc_raw_path :: "bool option"
  bc_request_target :: "string option"
  bc_resolve_ip :: "string option"
  bc_alpn_protocols :: "string list option"

definition into_request_config :: "(py \<Rightarrow> bytes option) \<Rightarrow> py_str \<Rightarrow> string \<Rightarrow> batch_config \<Rightarrow> py_error + request_config" where
  "into_request_config octets str boundary c =
     and_then (apply_body_and_files octets str boundary (bc_body c) (bc_files c) (bc_headers c)) (\<lambda>(body_bytes, headers).
     Inr \<lparr>rc_url = bc_url c, rc_method = bc_method c, rc_headers = headers, rc_body = body_bytes,
       rc_timeout_seconds = bc_timeout c, rc_max_body_size = None, rc_follow_redirects = bc_follow_redirects c,
       rc_max_redirects = bc_max_redirects c, rc_redirect_cookies = bc_redirect_cookies c,
       rc_verify_certs = bc_verify_certs c, rc_proxy = bc_proxy c, rc_no_proxy = unwrap_or (bc_no_proxy c) [],
       rc_cipher_string = bc_cipher_string c, rc_min_tls_version = bc_min_tls_version c,
       rc_max_tls_version = bc_max_tls_version c, rc_retries = bc_retries c,
       rc_retry_wait_min_ms = bc_retry_wait_min_ms c, rc_retry_wait_max_ms = bc_retry_wait_max_ms c,
       rc_raw_path = bc_raw_path c, rc_request_target = bc_request_target c, rc_resolve_ip = bc_resolve_ip c,
       rc_alpn_protocols = bc_alpn_protocols c, rc_verbosity = 0\<rparr>)"

section \<open>What the header map promises\<close>

datatype header_edit = Put string string | Delete string

fun edit_name :: "header_edit \<Rightarrow> string" where
  "edit_name (Put k _) = k"
| "edit_name (Delete k) = k"

fun edit_value :: "header_edit \<Rightarrow> string option" where
  "edit_value (Put _ v) = Some v"
| "edit_value (Delete _) = None"

text \<open>What a list of edits leaves under a name that had the value \<open>start\<close>: the last edit of the name decides.\<close>

fun edited :: "string \<Rightarrow> header_edit list \<Rightarrow> string option \<Rightarrow> string option" where
  "edited k [] start = start"
| "edited k (e # es) start = edited k es (if eq_ignore_ascii_case (edit_name e) k then edit_value e else start)"

locale header_map =
  fixes look :: "'h \<Rightarrow> string \<Rightarrow> string option"
    and put :: "string \<Rightarrow> string \<Rightarrow> 'h \<Rightarrow> 'h"
    and delete :: "string \<Rightarrow> 'h \<Rightarrow> 'h"
    and sound :: "'h \<Rightarrow> bool"
  assumes look_put: "sound h \<Longrightarrow> look (put k v h) k' = (if eq_ignore_ascii_case k k' then Some v else look h k')"
    and look_delete: "sound h \<Longrightarrow> look (delete k h) k' = (if eq_ignore_ascii_case k k' then None else look h k')"
    and sound_put: "sound h \<Longrightarrow> sound (put k v h)"
    and sound_delete: "sound h \<Longrightarrow> sound (delete k h)"
begin

fun edit :: "'h \<Rightarrow> header_edit \<Rightarrow> 'h" where
  "edit h (Put k v) = put k v h"
| "edit h (Delete k) = delete k h"

lemma sound_edit: "sound h \<Longrightarrow> sound (edit h e)"
  by (cases e) (simp_all add: sound_put sound_delete)

lemma sound_edits: "sound h \<Longrightarrow> sound (foldl edit h es)"
  by (induction es arbitrary: h) (simp_all add: sound_edit)

lemma look_edit:
  assumes "sound h"
  shows "look (edit h e) k = (if eq_ignore_ascii_case (edit_name e) k then edit_value e else look h k)"
  using assms by (cases e) (simp_all add: look_put look_delete)

lemma look_edits: "sound h \<Longrightarrow> look (foldl edit h es) k = edited k es (look h k)"
  by (induction es arbitrary: h) (simp_all add: sound_edit look_edit)

end

text \<open>The lookup table is the last-wins table of the list.\<close>

definition headers_sound :: "py_headers \<Rightarrow> bool" where
  "headers_sound h \<longleftrightarrow> ph_lookup h = lookup_loop Map.empty (ph_list h)"

lemma lookup_loop_append: "lookup_loop m (a @ b) = lookup_loop (lookup_loop m a) b"
  by (induction a arbitrary: m) auto

lemma eq_ignore_ascii_case_iff: "eq_ignore_ascii_case a b \<longleftrightarrow> to_ascii_lowercase a = to_ascii_lowercase b"
  by (simp add: eq_ignore_ascii_case_def)

lemma lookup_loop_at: "m x = m' x \<Longrightarrow> lookup_loop m l x = lookup_loop m' l x"
proof (induction l arbitrary: m m')
  case (Cons a l)
  obtain k v where "a = (k, v)" by (cases a)
  with Cons.prems show ?case by (simp, intro Cons.IH) simp
qed simp

text \<open>Dropping the entries of a name clears its slot of the table and no other.\<close>

lemma lookup_loop_filter:
  "lookup_loop m (filter (\<lambda>(k', _). \<not> eq_ignore_ascii_case k' k) l) x
     = (if x = to_ascii_lowercase k then m x else lookup_loop m l x)"
  by (induction l arbitrary: m) (auto simp: eq_ignore_ascii_case_iff intro!: lookup_loop_at)

lemma headers_from_list_sound [simp]: "headers_sound (headers_from_list l)"
  by (simp add: headers_sound_def headers_from_list_def)

lemma headers_sound_rebuild: "headers_sound h \<longleftrightarrow> headers_from_list (ph_list h) = h"
  by (cases h) (auto simp: headers_sound_def headers_from_list_def)

lemma lookup_put:
  "headers_sound h \<Longrightarrow> ph_lookup (headers_setitem k v h) = (ph_lookup h)(to_ascii_lowercase k \<mapsto> v)"
  by (simp add: headers_setitem_def)

lemma lookup_delete: "ph_lookup (snd (headers_delitem k h)) = (ph_lookup h)(to_ascii_lowercase k := None)"
  by (auto simp: headers_delitem_def Let_def)

lemma headers_setitem_sound: "headers_sound h \<Longrightarrow> headers_sound (headers_setitem k v h)"
  by (simp add: headers_sound_def headers_setitem_def lookup_loop_append lookup_loop_filter fun_eq_iff)

lemma headers_delitem_sound: "headers_sound h \<Longrightarrow> headers_sound (snd (headers_delitem k h))"
  by (auto simp: headers_sound_def headers_delitem_def lookup_loop_filter Let_def fun_eq_iff)

abbreviation header_of :: "py_headers \<Rightarrow> string \<Rightarrow> string option" where
  "header_of h k \<equiv> ph_lookup h (to_ascii_lowercase k)"

interpretation headers: header_map header_of headers_setitem "\<lambda>k h. snd (headers_delitem k h)" headers_sound
  by unfold_locales
    (auto simp: lookup_put lookup_delete eq_ignore_ascii_case_iff headers_setitem_sound headers_delitem_sound)

text \<open>
  C29: Whatever sequence of assignments and deletions is run on a \<open>Headers\<close> built from a list, (1) its
  two fields stay in step: rebuilding the object from its list of items gives the same object; (2) a
  lookup, in any casing, gives what the last edit of that name left, and for an untouched name the
  last item of the original list; (3) a failed lookup is a \<open>KeyError\<close> with the key as given, and
  membership agrees with lookup.
\<close>

theorem headers_edits:
  fixes l :: header_list and es :: "header_edit list" and k :: string
  defines "h \<equiv> foldl (\<lambda>h e. case e of Put k v \<Rightarrow> headers_setitem k v h | Delete k \<Rightarrow> snd (headers_delitem k h))
                 (headers_from_list l) es"
    and "v \<equiv> edited k es (map_option snd (List.find (\<lambda>(k', _). eq_ignore_ascii_case k' k) (rev l)))"
  shows "headers_from_list (ph_list h) = h
    \<and> headers_getitem h k = (case v of Some x \<Rightarrow> Inr x | None \<Rightarrow> Inl k)
    \<and> headers_contains h k = (v \<noteq> None)"
proof -
  have run: "h = foldl headers.edit (headers_from_list l) es"
    unfolding h_def by (rule foldl_cong) (auto split: header_edit.split)
  have start: "header_of (headers_from_list l) k
      = map_option snd (List.find (\<lambda>(k', _). eq_ignore_ascii_case k' k) (rev l))"
    by (induction l rule: rev_induct)
      (auto simp: headers_from_list_def lookup_loop_append eq_ignore_ascii_case_iff)
  have "header_of h k = v"
    unfolding run v_def start [symmetric] by (rule headers.look_edits) simp
  moreover have "headers_sound h" unfolding run by (rule headers.sound_edits) simp
  ultimately show ?thesis
    by (auto simp: headers_sound_rebuild headers_getitem_def headers_contains_def split: option.split)
qed

section \<open>What iterating a stream gives\<close>

text \<open>\<open>async for\<close> over the stream: \<open>pauses\<close> is the time the consumer spends before each call.\<close>

fun chunks :: "nat list \<Rightarrow> nat \<Rightarrow> nat \<Rightarrow> (nat \<times> 'a) list \<Rightarrow> 'a list list \<times> bool" where
  "chunks [] ends now arrivals = ([], False)"
| "chunks (p # ps) ends now arrivals =
     (case anext ends (now + p) arrivals of
        (Some c, now', rest) \<Rightarrow> (let (cs, ended) = chunks ps ends now' rest in (c # cs, ended))
      | (None, _, _) \<Rightarrow> ([], True))"

lemma chunk_loop_spec:
  assumes "chunk_loop start ends now chunk arrivals = (got, now', rest)" "length chunk \<le> CHUNK_MAX"
  shows "(case got of
      Some c \<Rightarrow> chunk @ map snd arrivals = c @ map snd rest \<and> c \<noteq> [] \<and> length c \<le> CHUNK_MAX
        \<and> (chunk = [] \<longrightarrow> length rest < length arrivals)
    | None \<Rightarrow> chunk = [] \<and> arrivals = [])"
  using assms
proof (induction arrivals arbitrary: now chunk)
  case Nil
  then show ?case by (subst (asm) chunk_loop.simps) (auto simp: CHUNK_MAX_def split: if_splits)
next
  case (Cons a arrivals)
  obtain t r where a: "a = (t, r)" by (cases a)
  show ?case
  proof (cases "length chunk \<ge> CHUNK_MAX \<or> chunk \<noteq> [] \<and> now - start \<ge> CHUNK_MS")
    case True
    with Cons.prems show ?thesis by (subst (asm) chunk_loop.simps) (auto simp: CHUNK_MAX_def)
  next
    case False
    with Cons.prems(1) a have *: "chunk_loop start ends (max now t) (chunk @ [r]) arrivals = (got, now', rest)"
      by (subst (asm) chunk_loop.simps) simp
    from False have "length (chunk @ [r]) \<le> CHUNK_MAX" by simp
    from Cons.IH [OF * this] show ?thesis
    proof (cases got)
      case (Some c)
      with Cons.IH [OF * \<open>length (chunk @ [r]) \<le> CHUNK_MAX\<close>]
      have c: "chunk @ r # map snd arrivals = c @ map snd rest" "c \<noteq> []" "length c \<le> CHUNK_MAX" by auto
      moreover have "chunk = [] \<Longrightarrow> length rest < length (a # arrivals)"
        using arg_cong [OF c(1), of length] c(2) by (cases c) auto
      ultimately show ?thesis using Some a by simp
    qed auto
  qed
qed

lemma chunks_run:
  assumes "length arrivals < length pauses"
  shows "\<exists>cs. chunks pauses ends now arrivals = (cs, True) \<and> concat cs = map snd arrivals
    \<and> (\<forall>c \<in> set cs. c \<noteq> [] \<and> length c \<le> CHUNK_MAX)"
  using assms
proof (induction pauses arbitrary: now arrivals)
  case (Cons p ps)
  obtain got now' rest where got: "anext ends (now + p) arrivals = (got, now', rest)"
    by (metis prod_cases3)
  note spec = chunk_loop_spec [OF got [unfolded anext_def]]
  show ?case
  proof (cases got)
    case (Some c)
    with spec have c: "map snd arrivals = c @ map snd rest" "c \<noteq> []" "length c \<le> CHUNK_MAX"
      "length rest < length arrivals" by simp_all
    with Cons.prems obtain cs where "chunks ps ends now' rest = (cs, True)" "concat cs = map snd rest"
        "\<forall>c \<in> set cs. c \<noteq> [] \<and> length c \<le> CHUNK_MAX"
      using Cons.IH [of rest now'] by auto
    with c got Some show ?thesis by simp
  qed (use spec got in simp)
qed simp

text \<open>
  C28: Iterating a result stream loses, repeats and reorders nothing: whenever the results arrive and
  however long the consumer takes over each chunk, the iteration ends after at most one call more than
  there are results, and the chunks, laid end to end, are the results in order; each holds between 1
  and 1000 of them.
\<close>

theorem chunks_complete:
  assumes "length arrivals < length pauses"
  shows "\<exists>cs. chunks pauses ends now arrivals = (cs, True) \<and> concat cs = map snd arrivals
    \<and> (\<forall>c \<in> set cs. 1 \<le> length c \<and> length c \<le> 1000)"
  using chunks_run [OF assms, of ends now] by (force simp: CHUNK_MAX_def Suc_le_eq)

lemma chunks_complete_witness:
  "\<exists>cs. chunks [5, 0, 0, 0] 900 0 [(1, CHR ''a''), (300, CHR ''b''), (301, CHR ''c'')] = (cs, True) \<and> concat cs = ''abc''
    \<and> (\<forall>c \<in> set cs. 1 \<le> length c \<and> length c \<le> 1000)"
  using chunks_complete [of "[(1, CHR ''a''), (300, CHR ''b''), (301, CHR ''c'')]" "[5, 0, 0, 0 :: nat]" 900 0] by simp

text \<open>
  The 200 ms bound is looked at only when a result has been received: with one result in hand, a call
  waits for the next one, or for the end of the stream, however late it comes.
\<close>

lemma chunk_waits_for_next:
  assumes "now \<le> t" "now + CHUNK_MS \<le> t'" "t < now + CHUNK_MS"
  shows "anext ends now ((t, r) # (t', r') # rest) = (Some [r, r'], t', rest)"
    and "anext ends now [(t, r)] = (Some [r], max t ends, [])"
  using assms by (auto simp: anext_def chunk_loop.simps CHUNK_MS_def CHUNK_MAX_def)

section \<open>What body and files come to\<close>

text \<open>
  What a caller's \<open>body\<close>, \<open>files\<close> and \<open>headers\<close> come to. Both set: a \<open>ValueError\<close>. Only \<open>files\<close>: the
  body is the multipart body built of them (or its error), and the headers gain one \<open>Content-Type\<close>
  naming its boundary exactly when the caller gave none. Otherwise the headers are the caller's and
  the body is that of the argument: none, the text's bytes, the bytes, or a \<open>TypeError\<close>.
\<close>

theorem body_and_files:
  fixes body files :: "py option"
  defines "given \<equiv> \<lambda>x. x \<noteq> None \<and> x \<noteq> Some PyNone"
  shows "apply_body_and_files octets str boundary body files headers =
    (if given body \<and> given files then Inl (ValueError ''got both body= and files=; pass only one'')
     else if given files then
       and_then (build_multipart str boundary (the files)) (\<lambda>(b, bs).
         Inr (Some bs, Some (unwrap_or headers []
           @ (if \<exists>(k, v) \<in> set (unwrap_or headers []). eq_ignore_ascii_case k ''content-type'' then []
              else [(''Content-Type'', ''multipart/form-data; boundary='' @ b)]))))
     else if \<not> given body then Inr (None, headers)
     else case the body of
         PyStr (Some s) \<Rightarrow> Inr (Some (str_bytes s), headers)
       | PyBytes bs \<Rightarrow> Inr (Some bs, headers)
       | PyStr None \<Rightarrow> Inl (TypeError ''body must be bytes, str, or None'')
       | v \<Rightarrow> (case octets v of
           Some bs \<Rightarrow> Inr (Some bs, headers)
         | None \<Rightarrow> Inl (TypeError ''body must be bytes, str, or None'')))"
proof (cases "given files")
  case True
  then show ?thesis
    by (auto simp: given_def apply_body_and_files_def reject_body_with_files_def list_ex_iff Let_def
        split: option.split intro!: and_then_cong)
next
  case False
  then show ?thesis
    by (auto simp: given_def apply_body_and_files_def reject_body_with_files_def coerce_body_def extract_bytes_def
        extract_string_def split: option.split py.split)
qed

end
