(* ===== verification/Python_Client.thy ===== *)
theory Python_Client
  imports Python_Layer Paced_Batch Raw_Connection Http_Body "HOL-Library.Signed_Division"
begin

text \<open>
  The client object of the Python bindings, \<^verbatim>\<open>src/python.rs\<close>: \<open>BlastHTTP\<close> with its limiter and pool,
  \<open>request\<close>, \<open>download\<close>, \<open>raw_connect\<close> and the raw connection's calls, the configurations of a batch,
  and the \<open>Response\<close> object with its two caches. It composes the models of the client, the limiter,
  the raw connection and the argument layer.

  A call that has to itself runs \<open>acquire\<close> alone (\<open>acquire_alone\<close>, a run of the relation of
  \<open>Rate_Limiter\<close>). \<open>clock\<close> reads the nanoseconds since the limiter was made; the text of an error
  that has none of its own is \<open>shown\<close>.
\<close>

section \<open>The limiter, for one task\<close>

definition acquire_alone :: "('w \<Rightarrow> u64) \<Rightarrow> 'w net \<Rightarrow> rate_limiter \<Rightarrow> 'w \<Rightarrow> rate_limiter \<times> 'w" where
  "acquire_alone clock net l w =
     (case bump (rl_interval_ns l) (rl_next_ns l) (clock w) of (slot_ns, next_ns) \<Rightarrow>
      let d = sleep_ns slot_ns (clock w) in
      (l\<lparr>rl_next_ns := next_ns\<rparr>, if d = 0 then w else n_sleep net d w))"

definition acquire_if :: "('w \<Rightarrow> u64) \<Rightarrow> 'w net \<Rightarrow> rate_limiter option \<Rightarrow> 'w \<Rightarrow> rate_limiter option \<times> 'w" where
  "acquire_if clock net limiter w =
     (case limiter of
        None \<Rightarrow> (None, w)
      | Some l \<Rightarrow> (case acquire_alone clock net l w of (l, w) \<Rightarrow> (Some l, w)))"

section \<open>The client object\<close>

record blast_http =
  bh_cache :: client_cache
  bh_rate_limiter :: "rate_limiter option"

definition blast_new :: blast_http where
  "blast_new = \<lparr>bh_cache = Map.empty, bh_rate_limiter = None\<rparr>"

definition set_rate_limit :: "(real \<Rightarrow> f64) \<Rightarrow> f64 option \<Rightarrow> blast_http \<Rightarrow> blast_http outcome" where
  "set_rate_limit fl rate_limit b =
     (case rate_limit of
        None \<Rightarrow> Done (b\<lparr>bh_rate_limiter := None\<rparr>)
      | Some r \<Rightarrow>
          if f64_positive r then on_done (limiter_new fl r) (\<lambda>l. Done (b\<lparr>bh_rate_limiter := Some l\<rparr>))
          else Done (b\<lparr>bh_rate_limiter := None\<rparr>))"

text \<open>How a failure surfaces in Python.\<close>

definition failure_to_py :: "(failure \<Rightarrow> string) \<Rightarrow> failure \<Rightarrow> py_error" where
  "failure_to_py shown e =
     (case e of
        Panicked \<Rightarrow> PanicError
      | Client c \<Rightarrow> RuntimeError (ce_message c)
      | _ \<Rightarrow> RuntimeError (shown e))"

section \<open>Responses\<close>

text \<open>The second cache is the request companion: URL and method.\<close>

record py_response =
  pr_inner :: response
  pr_headers_cache :: "py_headers option"
  pr_request_cache :: "(string \<times> string) option"

definition py_wrap :: "response \<Rightarrow> py_response" where
  "py_wrap inner = \<lparr>pr_inner = inner, pr_headers_cache = None, pr_request_cache = None\<rparr>"

definition py_response_new ::
  "(py \<Rightarrow> bytes option) \<Rightarrow> string \<Rightarrow> u16 \<Rightarrow> header_list option \<Rightarrow> py option \<Rightarrow> string option \<Rightarrow> string option
    \<Rightarrow> u64 \<Rightarrow> string option \<Rightarrow> redirect_hop list option \<Rightarrow> cert_info option \<Rightarrow> py_error + py_response" where
  "py_response_new octets url status headers body request_url request_method elapsed_ms peer_ip redirect_chain cert_info =
     and_then (case body of
         None \<Rightarrow> Inr []
       | Some b \<Rightarrow> (case extract_string b of
             Inr s \<Rightarrow> Inr (str_bytes s)
           | Inl _ \<Rightarrow> (case extract_bytes octets b of
               Some bs \<Rightarrow> Inr bs
             | None \<Rightarrow> Inl (TypeError ''body must be bytes, str, or None'')))) (\<lambda>body_bytes.
     Inr (py_wrap \<lparr>rs_url = url, rs_status = status, rs_headers = unwrap_or headers [], rs_body_bytes = body_bytes,
       rs_elapsed_ms = elapsed_ms, rs_redirect_chain = unwrap_or redirect_chain [], rs_cert_info = cert_info,
       rs_peer_ip = peer_ip, rs_request_url = unwrap_or request_url url,
       rs_request_method = unwrap_or request_method ''GET'', rs_debug_log = [], rs_decode_error = None,
       rs_body_cache = None, rs_raw_headers_cache = None, rs_cookies_cache = None, rs_hash_cache = None\<rparr>))"

text \<open>\<open>elapsed\<close>: the seconds and microseconds handed to \<open>timedelta\<close>; the count is cut to 32 bits.\<close>

definition py_elapsed :: "py_response \<Rightarrow> int \<times> int" where
  "py_elapsed r =
     (let ms = sint (ucast (rs_elapsed_ms (pr_inner r)) :: 32 word) in (ms sdiv 1000, ms smod 1000 * 1000))"

definition py_request_of :: "py_response \<Rightarrow> (string \<times> string) \<times> py_response" where
  "py_request_of r =
     (case pr_request_cache r of
        Some c \<Rightarrow> (c, r)
      | None \<Rightarrow>
          (let q = (rs_request_url (pr_inner r), rs_request_method (pr_inner r)) in (q, r\<lparr>pr_request_cache := Some q\<rparr>)))"

definition py_headers_of :: "py_response \<Rightarrow> py_headers \<times> py_response" where
  "py_headers_of r =
     (case pr_headers_cache r of
        Some c \<Rightarrow> (c, r)
      | None \<Rightarrow> (let h = headers_from_list (rs_headers (pr_inner r)) in (h, r\<lparr>pr_headers_cache := Some h\<rparr>)))"

text \<open>\<open>r.headers[key] = value\<close> and the like: an edit of the object that the getter returns.\<close>

definition edit_headers :: "(py_headers \<Rightarrow> py_headers) \<Rightarrow> py_response \<Rightarrow> py_response" where
  "edit_headers f r = (case py_headers_of r of (h, r) \<Rightarrow> r\<lparr>pr_headers_cache := Some (f h)\<rparr>)"

definition py_response_repr :: "py_response \<Rightarrow> string" where
  "py_response_repr r = ''Response(url='' @ [CHR 0x27] @ rs_url (pr_inner r) @ [CHR 0x27] @ '', status='' @
     show_nat (unat (rs_status (pr_inner r))) @ '')''"

section \<open>Results of a batch\<close>

record py_batch_result =
  pb_url :: string
  pb_response :: "response option"
  pb_error :: "string option"

definition py_batch_result_new :: "string \<Rightarrow> py_response option \<Rightarrow> string option \<Rightarrow> py_batch_result" where
  "py_batch_result_new url resp err =
     \<lparr>pb_url = url, pb_response = map_option (\<lambda>r. response_clone (pr_inner r)) resp, pb_error = err\<rparr>"

definition py_batch_response :: "py_batch_result \<Rightarrow> py_response option" where
  "py_batch_response b = map_option (\<lambda>r. py_wrap (response_clone r)) (pb_response b)"

definition py_batch_success :: "py_batch_result \<Rightarrow> bool" where
  "py_batch_success b \<longleftrightarrow> pb_response b \<noteq> None"

section \<open>Requests\<close>

text \<open>The keyword arguments of \<open>request\<close> are the fields of a batch configuration and a body limit.\<close>

definition request_args ::
  "(py \<Rightarrow> bytes option) \<Rightarrow> py_str \<Rightarrow> string \<Rightarrow> batch_config \<Rightarrow> nat option \<Rightarrow> py_error + request_config" where
  "request_args octets str boundary a max_body_size =
     and_then (apply_body_and_files octets str boundary (bc_body a) (bc_files a) (bc_headers a)) (\<lambda>(body_bytes, headers).
     Inr \<lparr>rc_url = bc_url a, rc_method = bc_method a, rc_headers = headers, rc_body = body_bytes,
       rc_timeout_seconds = bc_timeout a, rc_max_body_size = max_body_size, rc_follow_redirects = bc_follow_redirects a,
       rc_max_redirects = bc_max_redirects a, rc_redirect_cookies = bc_redirect_cookies a,
       rc_verify_certs = bc_verify_certs a, rc_proxy = bc_proxy a, rc_no_proxy = unwrap_or (bc_no_proxy a) [],
       rc_cipher_string = bc_cipher_string a, rc_min_tls_version = bc_min_tls_version a,
       rc_max_tls_version = bc_max_tls_version a, rc_retries = bc_retries a,
       rc_retry_wait_min_ms = bc_retry_wait_min_ms a, rc_retry_wait_max_ms = bc_retry_wait_max_ms a,
       rc_raw_path = bc_raw_path a, rc_request_target = bc_request_target a, rc_resolve_ip = bc_resolve_ip a,
       rc_alpn_protocols = bc_alpn_protocols a, rc_verbosity = 0\<rparr>)"

text \<open>\<open>limited_send\<close>: the awaited part that \<open>request\<close> and \<open>download\<close> share.\<close>

definition limited_send ::
  "env \<Rightarrow> 'w net \<Rightarrow> ('w \<Rightarrow> u64) \<Rightarrow> (failure \<Rightarrow> string) \<Rightarrow> request_config \<Rightarrow> blast_http \<Rightarrow> 'w
    \<Rightarrow> (py_error + response) \<times> blast_http \<times> 'w" where
  "limited_send env net clock shown config b w =
     (case acquire_if clock net (bh_rate_limiter b) w of (limiter, w) \<Rightarrow>
      case send env net config (bh_cache b) w of (r, cache, w) \<Rightarrow>
        (lift_err (failure_to_py shown) r, \<lparr>bh_cache = cache, bh_rate_limiter = limiter\<rparr>, w))"

definition blast_request ::
  "env \<Rightarrow> 'w net \<Rightarrow> ('w \<Rightarrow> u64) \<Rightarrow> (failure \<Rightarrow> string) \<Rightarrow> (py \<Rightarrow> bytes option) \<Rightarrow> py_str \<Rightarrow> string
    \<Rightarrow> batch_config \<Rightarrow> nat option \<Rightarrow> blast_http \<Rightarrow> 'w \<Rightarrow> (py_error + py_response) \<times> blast_http \<times> 'w" where
  "blast_request env net clock shown octets str boundary a max_body_size b w =
     (case request_args octets str boundary a max_body_size of
        Inl e \<Rightarrow> (Inl e, b, w)
      | Inr config \<Rightarrow>
          (case limited_send env net clock shown config b w of (r, b, w) \<Rightarrow> (map_sum id py_wrap r, b, w)))"

text \<open>The boundary of the \<open>n\<close>-th configuration is \<open>boundary n\<close>; the first error ends the conversion.\<close>

fun batch_requests ::
  "(py \<Rightarrow> bytes option) \<Rightarrow> py_str \<Rightarrow> (nat \<Rightarrow> string) \<Rightarrow> nat \<Rightarrow> batch_config list \<Rightarrow> py_error + request_config list" where
  "batch_requests octets str boundary n [] = Inr []"
| "batch_requests octets str boundary n (c # cs) =
     and_then (into_request_config octets str (boundary n) c) (\<lambda>r.
     and_then (batch_requests octets str boundary (Suc n) cs) (\<lambda>rs. Inr (r # rs)))"

text \<open>
  \<open>request_batch\<close>, for any end the batch can come to: a configuration that cannot be converted raises
  before anything is sent, as does a rate limit for which no limiter can be made.
\<close>

definition blast_request_batch ::
  "(real \<Rightarrow> f64) \<Rightarrow> (py \<Rightarrow> bytes option) \<Rightarrow> py_str \<Rightarrow> (nat \<Rightarrow> string) \<Rightarrow> (failure \<Rightarrow> string) \<Rightarrow> blast_http
    \<Rightarrow> batch_config list \<Rightarrow> nat \<Rightarrow> f64 option \<Rightarrow> py_error + (string \<times> response option \<times> string option) list \<Rightarrow> bool" where
  "blast_request_batch fl octets str boundary shown b configs concurrency rate_limit outcome \<longleftrightarrow>
     (case batch_requests octets str boundary 0 configs of
        Inl e \<Rightarrow> outcome = Inl e
      | Inr request_configs \<Rightarrow>
          if merge_limiters fl (bh_rate_limiter b) rate_limit = Panic then outcome = Inl PanicError
          else \<exists>s. send_batch_run fl (bh_rate_limiter b) rate_limit request_configs concurrency s \<and>
            batch_done request_configs s \<and> outcome = Inr (map (to_py_batch_result shown) (ba_results s)))"

text \<open>\<open>request_batch_stream\<close> likewise: all that the iterator gives until its end, before it is cut into chunks.\<close>

definition blast_request_batch_stream ::
  "(real \<Rightarrow> f64) \<Rightarrow> (py \<Rightarrow> bytes option) \<Rightarrow> py_str \<Rightarrow> (nat \<Rightarrow> string) \<Rightarrow> (failure \<Rightarrow> string) \<Rightarrow> blast_http
    \<Rightarrow> batch_config list \<Rightarrow> nat \<Rightarrow> f64 option \<Rightarrow> py_error + (string \<times> response option \<times> string option) list \<Rightarrow> bool" where
  "blast_request_batch_stream fl octets str boundary shown b configs concurrency rate_limit outcome \<longleftrightarrow>
     (case batch_requests octets str boundary 0 configs of
        Inl e \<Rightarrow> outcome = Inl e
      | Inr request_configs \<Rightarrow>
          if merge_limiters fl (bh_rate_limiter b) rate_limit = Panic then outcome = Inl PanicError
          else \<exists>t. send_stream_run fl (bh_rate_limiter b) rate_limit request_configs concurrency t \<and>
            stream_ended request_configs t \<and> outcome = Inr (map (to_py_batch_result shown) (st_yielded t)))"

section \<open>Downloads\<close>

text \<open>Files by path; creating one, or writing to it after some bytes, may fail.\<close>

record files =
  fs_content :: "string \<rightharpoonup> bytes"
  fs_create_err :: "string \<Rightarrow> string option"
  fs_write_err :: "string \<Rightarrow> (nat \<times> string) option"

definition write_file :: "string \<Rightarrow> bytes \<Rightarrow> files \<Rightarrow> (py_error + unit) \<times> files" where
  "write_file path data fs =
     (case fs_create_err fs path of
        Some e \<Rightarrow> (Inl (RuntimeError (''failed to create file '' @ [CHR 0x27] @ path @ [CHR 0x27] @ '': '' @ e)), fs)
      | None \<Rightarrow>
          (case fs_write_err fs path of
             Some (n, e) \<Rightarrow> (Inl (RuntimeError (''failed to write to '' @ [CHR 0x27] @ path @ [CHR 0x27] @ '': '' @ e)),
               fs\<lparr>fs_content := (fs_content fs)(path \<mapsto> take n data)\<rparr>)
           | None \<Rightarrow> (Inr (), fs\<lparr>fs_content := (fs_content fs)(path \<mapsto> data)\<rparr>)))"

definition download_config ::
  "string \<Rightarrow> nat option \<Rightarrow> u64 option \<Rightarrow> bool option \<Rightarrow> string option \<Rightarrow> string list option \<Rightarrow> header_list option
    \<Rightarrow> u32 option \<Rightarrow> bool option \<Rightarrow> request_config" where
  "download_config url max_size timeout verify_certs proxy no_proxy headers retries redirect_cookies =
     \<lparr>rc_url = url, rc_method = Some ''GET'', rc_headers = headers, rc_body = None, rc_timeout_seconds = timeout,
      rc_max_body_size = max_size, rc_follow_redirects = Some True, rc_max_redirects = Some 10,
      rc_redirect_cookies = redirect_cookies, rc_verify_certs = verify_certs, rc_proxy = proxy,
      rc_no_proxy = unwrap_or no_proxy [], rc_cipher_string = None, rc_min_tls_version = None,
      rc_max_tls_version = None, rc_retries = retries, rc_retry_wait_min_ms = None, rc_retry_wait_max_ms = None,
      rc_raw_path = None, rc_request_target = None, rc_resolve_ip = None, rc_alpn_protocols = None, rc_verbosity = 0\<rparr>"

definition blast_download ::
  "env \<Rightarrow> 'w net \<Rightarrow> ('w \<Rightarrow> u64) \<Rightarrow> (failure \<Rightarrow> string) \<Rightarrow> request_config \<Rightarrow> string \<Rightarrow> blast_http \<Rightarrow> files \<Rightarrow> 'w
    \<Rightarrow> (py_error + string) \<times> blast_http \<times> files \<times> 'w" where
  "blast_download env net clock shown config path b fs w =
     (case limited_send env net clock shown config b w of
        (Inl e, b, w) \<Rightarrow> (Inl e, b, fs, w)
      | (Inr resp, b, w) \<Rightarrow>
          (case write_file path (rs_body_bytes resp) fs of (r, fs) \<Rightarrow> (map_sum id (\<lambda>_. path) r, b, fs, w)))"

section \<open>Raw connections\<close>

definition raw_connect_config ::
  "string \<Rightarrow> bool option \<Rightarrow> string option \<Rightarrow> string option \<Rightarrow> string option \<Rightarrow> string option \<Rightarrow> string option
    \<Rightarrow> string list option \<Rightarrow> string list option \<Rightarrow> u64 option \<Rightarrow> request_config" where
  "raw_connect_config url verify_certs cipher_string min_tls max_tls resolve_ip proxy no_proxy alpn_protocols timeout =
     (config_new url)\<lparr>rc_verify_certs := verify_certs, rc_cipher_string := cipher_string, rc_min_tls_version := min_tls,
       rc_max_tls_version := max_tls, rc_resolve_ip := resolve_ip, rc_proxy := proxy,
       rc_no_proxy := unwrap_or no_proxy [], rc_alpn_protocols := alpn_protocols, rc_timeout_seconds := timeout\<rparr>"

definition blast_raw_connect ::
  "env \<Rightarrow> 'w net \<Rightarrow> ('w \<Rightarrow> u64) \<Rightarrow> (failure \<Rightarrow> string) \<Rightarrow> (opened \<Rightarrow> raw_stream) \<Rightarrow> request_config \<Rightarrow> blast_http \<Rightarrow> 'w
    \<Rightarrow> (py_error + raw_connection) \<times> blast_http \<times> 'w" where
  "blast_raw_connect env net clock shown above_tls config b w =
     (case acquire_if clock net (bh_rate_limiter b) w of (limiter, w) \<Rightarrow>
      case raw_connect env net above_tls (rc_url config) config w of (r, w) \<Rightarrow>
        (lift_err (failure_to_py shown) r, b\<lparr>bh_rate_limiter := limiter\<rparr>, w))"

text \<open>A call on the connection takes a permit of the shared limiter first, except closing.\<close>

definition py_raw_call ::
  "'w net \<Rightarrow> ('w \<Rightarrow> u64) \<Rightarrow> (failure \<Rightarrow> string) \<Rightarrow> raw_op \<Rightarrow> raw_connection \<Rightarrow> rate_limiter option \<Rightarrow> 'w
    \<Rightarrow> (py_error + bytes) \<times> raw_connection \<times> rate_limiter option \<times> 'w" where
  "py_raw_call net clock shown op c limiter w =
     (case (if op = CloseRaw then (limiter, w) else acquire_if clock net limiter w) of (limiter, w) \<Rightarrow>
      case raw_call op c of (r, c, _) \<Rightarrow> (lift_err (failure_to_py shown) r, c, limiter, w))"

section \<open>The limiter of one task among the others\<close>

text \<open>A race whose cursor and interval are the limiter's, seen at the time the clock shows.\<close>

definition limiter_view :: "rate_limiter \<Rightarrow> u64 \<Rightarrow> race \<Rightarrow> bool" where
  "limiter_view l now s \<longleftrightarrow> rc_cursors s \<noteq> [] \<and> hd (rc_cursors s) = rl_next_ns l \<and>
     rc_interval s = rl_interval_ns l \<and> now = of_nat (rc_clock s)"

text \<open>A clock that a pause of \<open>d\<close> moves on by \<open>d\<close>.\<close>

definition clock_ok :: "('w \<Rightarrow> u64) \<Rightarrow> 'w net \<Rightarrow> bool" where
  "clock_ok clock net \<longleftrightarrow> (\<forall>d w. clock (n_sleep net d w) = clock w + of_nat d)"

lemma acquire_step_trans:
  "acquire_step s s1 \<Longrightarrow> acquire_step\<^sup>*\<^sup>* s1 s2 \<Longrightarrow> acquire_step\<^sup>*\<^sup>* s s2"
  by (rule converse_rtranclp_into_rtranclp)

text \<open>
  A call of \<open>request\<close>, \<open>download\<close> or a raw connection waits as the limiter prescribes. Taking the
  permit in one go is a run of the task through the shared limiter: in any race that shows this
  limiter's cursor, the task can go through \<open>acquire\<close> and come out with a new last permit, leaving
  cursor and clock as the call left them; the window bound of the limiter applies to it.
\<close>

theorem acquire_alone_refines:
  assumes "clock_ok clock net" "limiter_view l (clock w) s" "rc_pcs s t = Out"
    "acquire_alone clock net l w = (l', w')"
  shows "\<exists>s' p. acquire_step\<^sup>*\<^sup>* s s' \<and> limiter_view l' (clock w') s' \<and> rc_pcs s' t = Out \<and>
    rc_permits s' = rc_permits s @ [p] \<and> pm_called p = rc_clock s \<and> pm_returned p = Some (rc_clock s')"
proof -
  obtain slot next_ns where b: "bump (rl_interval_ns l) (rl_next_ns l) (clock w) = (slot, next_ns)" by fastforce
  define now where "now = rc_clock s"
  define d where "d = sleep_ns slot (clock w)"
  have v: "rc_cursors s \<noteq> []" "hd (rc_cursors s) = rl_next_ns l" "rc_interval s = rl_interval_ns l"
    "clock w = of_nat now" using assms(2) by (simp_all add: limiter_view_def now_def)
  have l': "l' = l\<lparr>rl_next_ns := next_ns\<rparr>" and w': "w' = (if d = 0 then w else n_sleep net d w)"
    using assms(4) by (auto simp: acquire_alone_def b Let_def d_def)
  define s1 where "s1 = set_pc t (Loop now) s"
  define s2 where "s2 = set_pc t (Loaded now (rl_next_ns l)) s1"
  define s3 where "s3 = set_pc t (Clocked now (rl_next_ns l) (clock w)) s2"
  define s4 where "s4 = set_pc t (Holding (length (rc_permits s)))
    (s3\<lparr>rc_cursors := next_ns # rc_cursors s3,
        rc_permits := rc_permits s3 @ [\<lparr>pm_slot = slot, pm_called = now, pm_returned = None\<rparr>]\<rparr>)"
  define s5 where "s5 = set_pc t (Asleep (length (rc_permits s)) (now + d)) s4"
  define s6 where "s6 = s5\<lparr>rc_clock := now + d\<rparr>"
  define s7 where "s7 = set_pc t Out (s6\<lparr>rc_permits := (rc_permits s6)[length (rc_permits s) :=
    (rc_permits s6 ! length (rc_permits s))\<lparr>pm_returned := Some (rc_clock s6)\<rparr>]\<rparr>)"
  note states = s1_def s2_def s3_def s4_def s5_def s6_def s7_def
  have "acquire_step s s1" unfolding s1_def now_def using assms(3) by (rule acquire_step.call)
  moreover have "acquire_step s1 s2" unfolding s2_def
    by (rule acquire_step.load) (use v hd_in_set [OF v(1)] in \<open>simp_all add: s1_def\<close>)
  moreover have "acquire_step s2 s3" unfolding s3_def
    using acquire_step.elapsed [of s2 t now "rl_next_ns l"] v by (simp add: s1_def s2_def now_def)
  moreover have "acquire_step s3 s4"
    using acquire_step.exchange [of s3 t now "rl_next_ns l" "clock w" slot next_ns] v b
    by (simp add: s1_def s2_def s3_def s4_def)
  moreover have "acquire_step s4 s5"
    using acquire_step.check [of s4 t "length (rc_permits s)"] v by (simp add: states d_def now_def)
  moreover have "acquire_step s5 s6" unfolding s6_def
    by (rule acquire_step.tick) (simp add: states now_def)
  moreover have "acquire_step s6 s7"
    using acquire_step.return [of s6 t "length (rc_permits s)" "now + d"] by (simp add: states)
  ultimately have run: "acquire_step\<^sup>*\<^sup>* s s7" by (meson acquire_step_trans rtranclp.rtrancl_refl)
  have "clock w' = of_nat (now + d)" using assms(1) v(4) by (simp add: w' clock_ok_def)
  with v have "limiter_view l' (clock w') s7" by (simp add: limiter_view_def states l')
  with run show ?thesis
    by (intro exI [of _ s7] exI [of _ "\<lparr>pm_slot = slot, pm_called = now, pm_returned = Some (now + d)\<rparr>"])
      (simp add: states now_def)
qed

definition example_clock_net :: "nat net" where
  "example_clock_net = \<lparr>n_pool = (\<lambda>_ _ _ w. ((Inl ''down'', []), w)), n_tcp = (\<lambda>_ w. (Inl ''down'', w)),
     n_tls = (\<lambda>_ _ w. (HandshakeTimeout, w)), n_pass = id, n_handshake = (\<lambda>_ w. (None, w)),
     n_send = (\<lambda>_ _ w. (Inl ''down'', w)), n_sleep = (\<lambda>d w. w + d), n_late = (\<lambda>_ _ _. False),
     n_elapsed_ms = of_nat, n_now = int\<rparr>"

lemma acquire_alone_refines_witness:
  "\<exists>s' p. acquire_step\<^sup>*\<^sup>* (race_new \<lparr>rl_interval_ns = 5000000, rl_next_ns = 7000000\<rparr>) s' \<and>
    limiter_view \<lparr>rl_interval_ns = 5000000, rl_next_ns = 12000000\<rparr> (of_nat 7000000) s' \<and> rc_permits s' = [p] \<and>
    pm_called p = 0 \<and> pm_returned p = Some (rc_clock s')"
proof -
  let ?l = "\<lparr>rl_interval_ns = 5000000, rl_next_ns = 7000000\<rparr>"
  have ok: "clock_ok of_nat example_clock_net" by (simp add: clock_ok_def example_clock_net_def)
  have view: "limiter_view ?l (of_nat 0) (race_new ?l)" by (simp add: limiter_view_def race_new_def)
  have "acquire_alone of_nat example_clock_net ?l 0 = (\<lparr>rl_interval_ns = 5000000, rl_next_ns = 12000000\<rparr>, 7000000)"
    by (simp add: acquire_alone_def bump_def sleep_ns_def saturating_add_def SUB_MS_SKIP_THRESHOLD_NS_def example_clock_net_def
        word_le_nat_alt max_def)
  from acquire_alone_refines [OF ok view _ this, of 0] show ?thesis by (simp add: race_new_def) blast
qed

section \<open>What a download leaves\<close>

lemma limited_send_response:
  assumes "limited_send env net clock shown config b w = (Inr resp, b', w')"
  shows "length (rs_body_bytes resp) \<le> max_body config"
proof -
  obtain lim w1 where a: "acquire_if clock net (bh_rate_limiter b) w = (lim, w1)" by fastforce
  obtain r cache w2 where "send env net config (bh_cache b) w1 = (r, cache, w2)" using prod_cases3 by blast
  with assms a send_body_limit show ?thesis by (auto simp: limited_send_def)
qed

text \<open>
  C38: A download touches no file but its own and none unless there is a response. Without a response
  the files are as they were; with one, success means that the file holds exactly the response's
  decoded body, no longer than the limit, and any other outcome is an error.
\<close>

theorem download_saves:
  "(case limited_send env net clock shown config b w of
      (Inl e, b', w') \<Rightarrow> blast_download env net clock shown config path b fs w = (Inl e, b', fs, w')
    | (Inr resp, b', w') \<Rightarrow>
        length (rs_body_bytes resp) \<le> max_body config \<and>
        (if fs_create_err fs path = None \<and> fs_write_err fs path = None
         then blast_download env net clock shown config path b fs w =
           (Inr path, b', fs\<lparr>fs_content := (fs_content fs)(path \<mapsto> rs_body_bytes resp)\<rparr>, w')
         else \<exists>e fs'. blast_download env net clock shown config path b fs w = (Inl e, b', fs', w') \<and>
           (\<forall>p. p = path \<or> fs_content fs' p = fs_content fs p)))"
proof -
  obtain r b' w' where s: "limited_send env net clock shown config b w = (r, b', w')" using prod_cases3 by blast
  show ?thesis
  proof (cases r)
    case (Inr resp)
    have "length (rs_body_bytes resp) \<le> max_body config" using s unfolding Inr by (rule limited_send_response)
    then show ?thesis by (auto simp: s Inr blast_download_def write_file_def split: option.split prod.split)
  qed (simp add: s blast_download_def)
qed

section \<open>Responses and configurations\<close>

lemma request_args_batch:
  "request_args octets str boundary a None = into_request_config octets str boundary a"
  by (simp add: request_args_def into_request_config_def)

text \<open>The configurations of a batch keep their number and their URLs.\<close>

lemma batch_requests_urls:
  "batch_requests octets str boundary n configs = Inr rcs \<Longrightarrow> map rc_url rcs = map bc_url configs"
  by (induction configs arbitrary: n rcs)
    (auto simp: and_then_eq_Inr into_request_config_def)

text \<open>
  A batch from Python gives one entry per configuration, in their order, each with either a response or
  an error, under the configuration's URL unless its task panicked.
\<close>

lemma blast_batch_entries:
  assumes "blast_request_batch fl octets str boundary shown b configs concurrency rate (Inr entries)"
  shows "list_all2 (\<lambda>c (url, resp, err). (url = bc_url c \<or> url = ''<unknown>'') \<and> (resp = None) = (err \<noteq> None)) configs entries"
proof -
  obtain rcs s where s: "batch_requests octets str boundary 0 configs = Inr rcs"
      "send_batch_run fl (bh_rate_limiter b) rate rcs concurrency s" "batch_done rcs s"
      "entries = map (to_py_batch_result shown) (ba_results s)"
    using assms by (auto simp: blast_request_batch_def split: sum.splits if_splits)
  note reach = send_runs_reach(1) [THEN iffD1, THEN conjunct2, OF s(2)] s(3)
  have urls: "map rc_url rcs = map bc_url configs" by (rule batch_requests_urls [OF s(1)])
  then have len: "length rcs = length configs" by (rule map_eq_imp_length_eq)
  have "rc_url (rcs ! i) = bc_url (configs ! i)" if "i < length configs" for i
    using urls len that by (metis nth_map)
  then show ?thesis
    using batch_done_lengths(2) [OF reach] batch_done_urls [OF reach] len
    by (fastforce simp: list_all2_conv_all_nth s(4) to_py_batch_result_def split: sum.split)
qed

text \<open>A stream from Python repeats nothing and makes nothing up: its URLs are those of configurations.\<close>

lemma blast_stream_entries:
  assumes "blast_request_batch_stream fl octets str boundary shown b configs concurrency rate (Inr entries)"
  shows "mset (map fst entries) \<subseteq># mset (map bc_url configs)"
proof -
  obtain rcs t where t: "batch_requests octets str boundary 0 configs = Inr rcs"
      "send_stream_run fl (bh_rate_limiter b) rate rcs concurrency t" "stream_ended rcs t"
      "entries = map (to_py_batch_result shown) (st_yielded t)"
    using assms by (auto simp: blast_request_batch_stream_def split: sum.splits if_splits)
  have "map fst entries = map br_url (st_yielded t)" by (simp add: t(4) to_py_batch_result_def)
  then show ?thesis
    using stream_ended_urls [OF send_runs_reach(2) [THEN iffD1, THEN conjunct2, OF t(2)] t(3)] batch_requests_urls [OF t(1)] by metis
qed

text \<open>Edits of the headers persist across reads and leave the response itself alone.\<close>

lemma edited_headers:
  "fst (py_headers_of (edit_headers f r)) = f (fst (py_headers_of r)) \<and> pr_inner (edit_headers f r) = pr_inner r"
  by (auto simp: edit_headers_def py_headers_of_def Let_def split: option.split)

text \<open>A response that took 2147483648 milliseconds or more has a negative \<open>elapsed\<close>.\<close>

lemma elapsed_wraps:
  assumes "rs_elapsed_ms (pr_inner r) = 2147483648"
  shows "py_elapsed r = (- 2147483, - 648000)"
  using assms by (simp add: py_elapsed_def)

end
