(* ===== verification/Python_H2.thy ===== *)
theory Python_H2
  imports Multipart H2_Probe
begin

text \<open>
  The \<open>blasthttp.h2\<close> bindings of \<^verbatim>\<open>src/python.rs\<close>: header objects from Python values, the probe and
  frame builders with their default arguments, the decoder object, and the texts of the errors. A
  frame builder whose assertion fails raises \<open>PanicError\<close>.
\<close>

section \<open>Errors\<close>

definition encode_error_text :: "encode_error \<Rightarrow> string" where
  "encode_error_text e =
     (case e of
        EmptyName \<Rightarrow> ''header name is empty''
      | InvalidValue \<Rightarrow> ''invalid characters in header value (CRLF, NUL, or other '' @
          ''RFC 9113 '' @ [CHR 0xC2, CHR 0xA7] @ ''8.2.1-prohibited bytes); set allow_invalid_value to emit anyway''
      | InvalidName \<Rightarrow> ''invalid characters in header name (uppercase, space, or '' @
          ''control chars); set allow_invalid_name to emit anyway''
      | BloatOutOfRange n \<Rightarrow> ''length_bloat out of range (must be 0..=3): '' @ show_nat (unat n)
      | StaticIndexOutOfRange n \<Rightarrow> ''force_static_index out of range (must be 1..=61): '' @ show_nat (unat n))"

definition huffman_error_text :: "huffman_error \<Rightarrow> string" where
  "huffman_error_text e =
     (case e of
        EosInStream \<Rightarrow> ''Huffman EOS symbol appeared in the input stream''
      | BadPadding \<Rightarrow> ''invalid Huffman padding at end of input'')"

definition decode_error_text :: "decode_error \<Rightarrow> string" where
  "decode_error_text e =
     (case e of
        UnexpectedEof n \<Rightarrow> ''unexpected end of input at position '' @ show_nat n
      | IntegerOverflow \<Rightarrow> ''HPACK integer overflow (continuation bytes exceed u32 range)''
      | InvalidIndex n \<Rightarrow> ''invalid table index '' @ show_nat (unat n)
      | TableSizeTooLarge n m \<Rightarrow> ''dynamic-table-size-update of '' @ show_nat (unat n) @
          '' exceeds peer-announced max '' @ show_nat (unat m)
      | HuffmanFailed h \<Rightarrow> ''Huffman decode failed: '' @ huffman_error_text h)"

definition encode_err_to_py :: "encode_error \<Rightarrow> py_error" where
  "encode_err_to_py e = ValueError (encode_error_text e)"

definition decode_err_to_py :: "decode_error \<Rightarrow> py_error" where
  "decode_err_to_py e = ValueError (decode_error_text e)"

section \<open>Header objects\<close>

text \<open>\<open>quoted\<close> is Rust's debug form of a text.\<close>

definition parse_indexing :: "(string \<Rightarrow> string) \<Rightarrow> string option \<Rightarrow> py_error + indexing" where
  "parse_indexing quoted s =
     (case s of
        None \<Rightarrow> Inr With
      | Some t \<Rightarrow>
          if t = ''with'' then Inr With
          else if t = ''without'' then Inr Without
          else if t = ''never'' then Inr Never
          else Inl (ValueError (''indexing must be one of '' @ [CHR 0x27] @ ''with'' @ [CHR 0x27] @ '', '' @ [CHR 0x27] @
            ''without'' @ [CHR 0x27] @ '', '' @ [CHR 0x27] @ ''never'' @ [CHR 0x27] @ '' (got '' @ quoted t @ '')'')))"

definition bytes_from_py :: "py \<Rightarrow> py_error + bytes" where
  "bytes_from_py v =
     (case v of
        PyStr (Some s) \<Rightarrow> Inr (str_bytes s)
      | PyStr None \<Rightarrow> Inl OtherError
      | PyBytes b \<Rightarrow> Inr b
      | _ \<Rightarrow> Inl (TypeError ''expected str or bytes''))"

definition h2_header_new ::
  "(string \<Rightarrow> string) \<Rightarrow> py \<Rightarrow> py \<Rightarrow> string option \<Rightarrow> bool option \<Rightarrow> bool option \<Rightarrow> bool \<Rightarrow> bool \<Rightarrow> u8 \<Rightarrow> u8 \<Rightarrow> u8 option
    \<Rightarrow> py_error + h2_header" where
  "h2_header_new quoted name v idx huff_name huff_value invalid_value invalid_name bloat_name bloat_value static_index =
     and_then (bytes_from_py name) (\<lambda>n.
     and_then (bytes_from_py v) (\<lambda>b.
     and_then (parse_indexing quoted idx) (\<lambda>i.
     Inr \<lparr>h_name = n, h_value = b, h_indexing = i, huffman_name = huff_name, huffman_value = huff_value,
       allow_invalid_value = invalid_value, allow_invalid_name = invalid_name, length_bloat_name = bloat_name,
       length_bloat_value = bloat_value, force_static_index = static_index\<rparr>)))"

section \<open>Encoding and probes\<close>

definition h2_encode_headers :: "h2_header list \<Rightarrow> py_error + bytes" where
  "h2_encode_headers headers = (case encode_headers headers of Inl e \<Rightarrow> Inl (encode_err_to_py e) | Inr out \<Rightarrow> Inr out)"

definition or_panic :: "bytes option \<Rightarrow> py_error + bytes" where
  "or_panic r = ok_or r PanicError"

definition h2_build_probe ::
  "h2_header list \<Rightarrow> bytes option \<Rightarrow> bool \<Rightarrow> bytes option \<Rightarrow> (u16 \<times> u32) list option \<Rightarrow> bool \<Rightarrow> u32 \<Rightarrow> nat option \<Rightarrow> u8 \<Rightarrow> u8
    \<Rightarrow> (u32 \<times> u8 \<times> bool) option \<Rightarrow> bool \<Rightarrow> bytes option \<Rightarrow> bytes option \<Rightarrow> py_error + bytes" where
  "h2_build_probe headers body preface override settings omit_settings stream_id split_after pad_h pad_d prio no_end before after =
     (case build_probe headers \<lparr>send_preface = preface, preface_override = override,
         po_settings = (if omit_settings then None else Some (unwrap_or settings [])), po_stream_id = stream_id,
         po_body = body, split_headers_after = split_after, pad_headers = pad_h, pad_data = pad_d, po_priority = prio,
         force_no_end_stream_on_headers = no_end, extra_frames_before_headers = unwrap_or before [],
         extra_frames_after = unwrap_or after []\<rparr> of
        None \<Rightarrow> Inl PanicError
      | Some (Inl e) \<Rightarrow> Inl (encode_err_to_py e)
      | Some (Inr out) \<Rightarrow> Inr out)"

section \<open>Frames\<close>

definition h2_build_raw_frame :: "u8 \<Rightarrow> u8 \<Rightarrow> u32 \<Rightarrow> bytes \<Rightarrow> py_error + bytes" where
  "h2_build_raw_frame frame_type flags stream_id payload = or_panic (build_raw_frame frame_type flags stream_id payload)"

definition h2_build_settings_frame :: "(u16 \<times> u32) list option \<Rightarrow> bool \<Rightarrow> py_error + bytes" where
  "h2_build_settings_frame settings ack = or_panic (build_settings_frame (unwrap_or settings []) ack)"

definition h2_build_headers_frame ::
  "bytes \<Rightarrow> u32 \<Rightarrow> bool \<Rightarrow> bool \<Rightarrow> u8 \<Rightarrow> (u32 \<times> u8 \<times> bool) option \<Rightarrow> py_error + bytes" where
  "h2_build_headers_frame header_block stream_id end_stream end_headers padding prio =
     or_panic (build_headers_frame \<lparr>hf_header_block = header_block, hf_stream_id = stream_id, hf_end_stream = end_stream,
       hf_end_headers = end_headers, hf_padding = padding, hf_priority = prio\<rparr>)"

definition h2_build_continuation_frame :: "bytes \<Rightarrow> u32 \<Rightarrow> bool \<Rightarrow> py_error + bytes" where
  "h2_build_continuation_frame header_block stream_id end_headers =
     or_panic (build_continuation_frame header_block stream_id end_headers)"

definition h2_build_data_frame :: "bytes \<Rightarrow> u32 \<Rightarrow> bool \<Rightarrow> u8 \<Rightarrow> py_error + bytes" where
  "h2_build_data_frame data stream_id end_stream padding = or_panic (build_data_frame data stream_id end_stream padding)"

definition h2_build_window_update_frame :: "u32 \<Rightarrow> u32 \<Rightarrow> py_error + bytes" where
  "h2_build_window_update_frame increment stream_id = or_panic (build_window_update_frame increment stream_id)"

text \<open>The eight bytes of a PING: the first ones of the data, zeros behind them.\<close>

definition h2_build_ping_frame :: "bytes option \<Rightarrow> bool \<Rightarrow> py_error + bytes" where
  "h2_build_ping_frame data ack =
     (let d = unwrap_or data (replicate 8 0); arr = take 8 d @ replicate (8 - length d) 0 in
      or_panic (build_ping_frame arr ack))"

definition h2_build_rst_stream_frame :: "u32 \<Rightarrow> u32 \<Rightarrow> py_error + bytes" where
  "h2_build_rst_stream_frame stream_id error_code = or_panic (build_rst_stream_frame stream_id error_code)"

definition h2_build_goaway_frame :: "u32 \<Rightarrow> u32 \<Rightarrow> bytes option \<Rightarrow> py_error + bytes" where
  "h2_build_goaway_frame last_stream_id error_code debug_data =
     or_panic (build_goaway_frame last_stream_id error_code (unwrap_or debug_data []))"

definition h2_build_priority_frame :: "u32 \<Rightarrow> u32 \<Rightarrow> u8 \<Rightarrow> bool \<Rightarrow> py_error + bytes" where
  "h2_build_priority_frame stream_id dep_stream weight exclusive =
     or_panic (build_priority_frame stream_id dep_stream weight exclusive)"

section \<open>The decoder object\<close>

definition h2_decoder_new :: "u32 \<Rightarrow> decoder" where
  "h2_decoder_new mx = with_max_table_size mx"

definition h2_decode ::
  "decoder \<Rightarrow> bytes \<Rightarrow> (py_error + (bytes \<times> bytes) list) \<times> decoder" where
  "h2_decode d block =
     (case decode_headers d block of
        (Inl e, d) \<Rightarrow> (Inl (decode_err_to_py e), d)
      | (Inr pairs, d) \<Rightarrow> (Inr pairs, d))"

section \<open>What the objects give\<close>

lemma h2_decode_encoded:
  assumes "h2_encode_headers hs = Inr block" "\<forall>h \<in> set hs. plain_lengths h"
  shows "h2_decode d block = (Inr (map sent_header hs), fold index_header hs d)"
proof -
  have enc: "encode_headers hs = Inr block" using assms(1) by (simp add: h2_encode_headers_def split: sum.splits)
  have "decode_headers d block = (Inr (map sent_header hs), fold index_header hs d)"
    using enc assms(2) decode_loop_headers [of hs d "[]" "[]"]
    by (simp add: decode_headers_def encode_headers_accepted list_all_iff)
  then show ?thesis by (simp add: h2_decode_def)
qed

text \<open>
  The table size given to the constructor is the limit: a block that begins with a larger size update is
  refused with a \<open>ValueError\<close> that names both sizes, and the decoder stays as it was.
\<close>

lemma size_update_bytes:
  "list_all (\<lambda>x. (0x20 OR x) AND 0x80 = 0 \<and> (0x20 OR x) AND 0xC0 \<noteq> 0x40 \<and> (0x20 OR x) AND 0xE0 = 0x20)
     (map of_nat [0..<32] :: u8 list)"
  by code_simp

lemma h2_size_update_refused:
  assumes "mx < n"
  shows "h2_decode (h2_decoder_new mx) (write_integer [] n 5 0x20 0 @ block) =
    (Inl (ValueError (''dynamic-table-size-update of '' @ show_nat (unat n) @ '' exceeds peer-announced max '' @
       show_nat (unat mx))), h2_decoder_new mx)"
proof -
  let ?w = "write_integer [] n 5 0x20 0" and ?x = "ucast (if n < mask 5 then n else mask 5) :: u8"
  have "unat (if n < mask 5 then n else mask 5 :: u32) < 32" by (auto simp: mask_eq_exp_minus_1 word_less_nat_alt)
  moreover have "unat (ucast v :: u8) \<le> unat v" for v :: u32 by (simp add: unsigned_ucast_eq take_bit_nat_less_eq_self)
  ultimately have "unat ?x < 32" by (rule order.strict_trans1 [rotated])
  then have x: "(0x20 OR ?x) AND 0x80 = 0" "(0x20 OR ?x) AND 0xC0 \<noteq> 0x40" "(0x20 OR ?x) AND 0xE0 = 0x20"
    using u8_in_range [of ?x 32] size_update_bytes unfolding list_all_iff by blast+
  have w: "?w \<noteq> []" by (rule write_integer_nonempty)
  have "(?w @ block) ! 0 = 0x20 OR ?x"
    using hd_write_integer [of n 5 "0x20"] w by (simp add: nth_append hd_conv_nth)
  moreover have "read_integer (?w @ block) 0 5 = Inr (n, length ?w)"
    using read_write_integer [of 5 "0x20" "[]" n block] by simp
  ultimately have "decode_step (with_max_table_size mx) (?w @ block) 0 = Inl (TableSizeTooLarge n mx)"
    using x assms by (simp add: decode_step_def with_max_table_size_def decoder_new_def)
  then show ?thesis using w
    by (simp add: h2_decode_def h2_decoder_new_def decode_headers_def decode_loop_from.simps [of _ "?w @ block" 0]
      decode_err_to_py_def decode_error_text_def)
qed

text \<open>PING always has its eight bytes, whatever was given.\<close>

lemma h2_ping_total:
  "\<exists>out. h2_build_ping_frame data ack = Inr out"
  by (auto simp: h2_build_ping_frame_def or_panic_def build_ping_frame_def build_raw_frame_def Let_def)

end
