(* ===== verification/Mock.thy ===== *)
theory Mock
  imports Python_Layer
begin

text \<open>
  The mock client for Python tests, \<^verbatim>\<open>src/mock.rs\<close>: registered handlers and how a request picks one,
  the redirect loop of \<open>request\<close>, and the batch iterator that serves mocked requests before those it
  passes to a real client.

  Python code that the mock calls (patterns, comparison, json, callbacks, urllib) is the record
  \<open>mock_env\<close>; a callback runs with the lock released and may change the mock's state and a world \<open>'w\<close>
  of its own. One task at a time: requests in parallel would interleave at the picks. Locks do not
  poison, and a matched dict is read as it was registered.
\<close>

section \<open>State\<close>

record mock_request =
  mq_url :: string
  mq_method :: string
  mq_headers :: header_list
  mq_content :: bytes

record mock_response =
  mr_status_code :: u16
  mr_text :: string
  mr_headers :: py

text \<open>What a callback, or a coroutine of it, gives.\<close>

datatype cb_value = IsMockResponse mock_response | IsResponse response | IsCoroutine nat | IsOther

datatype handler_kind =
    ResponseKind u16 bytes header_list "(py \<times> py) list option" "(py \<times> py) list option"
  | CallbackKind py

record handler =
  h_url :: "py option"
  h_method :: "string option"
  h_kind :: handler_kind

record mock_state =
  ms_handlers :: "handler list"
  ms_recycled :: "handler list"

record 'w mock_env =
  mk_search :: "py \<Rightarrow> string \<Rightarrow> py_error + bool"
  mk_eq :: "py \<Rightarrow> py \<Rightarrow> py_error + bool"
  mk_loads :: "string \<Rightarrow> py option"
  mk_dumps :: "py \<Rightarrow> py_error + string"
  mk_call :: "py \<Rightarrow> mock_request \<Rightarrow> mock_state \<times> 'w \<Rightarrow> (py_error + cb_value) \<times> mock_state \<times> 'w"
  mk_await :: "nat \<Rightarrow> mock_state \<times> 'w \<Rightarrow> (py_error + cb_value) \<times> mock_state \<times> 'w"
  mk_urlparse :: "string \<Rightarrow> py_error + string \<times> string"
  mk_hostname :: "string \<Rightarrow> py_error + string option"
  mk_octets :: "py \<Rightarrow> bytes option"
  mk_str :: py_str
  mk_show_error :: "py_error \<Rightarrow> string"

definition mock_new :: mock_state where
  "mock_new = \<lparr>ms_handlers = [], ms_recycled = []\<rparr>"

definition mock_response_new :: "'w mock_env \<Rightarrow> u16 \<Rightarrow> py option \<Rightarrow> string option \<Rightarrow> py option \<Rightarrow> py_error + mock_response" where
  "mock_response_new env status_code json text_arg headers =
     and_then (case text_arg of
         Some t \<Rightarrow> Inr t
       | None \<Rightarrow> (case json of Some j \<Rightarrow> mk_dumps env j | None \<Rightarrow> Inr [])) (\<lambda>t.
     Inr \<lparr>mr_status_code = status_code, mr_text = t, mr_headers = unwrap_or headers (PyDict [])\<rparr>)"

section \<open>Arguments\<close>

fun header_values :: "string \<Rightarrow> py list \<Rightarrow> py_error + header_list" where
  "header_values k [] = Inr []"
| "header_values k (v # r) =
     and_then (extract_string v) (\<lambda>s. and_then (header_values k r) (\<lambda>hs. Inr ((k, s) # hs)))"

fun header_dict :: "(py \<times> py) list \<Rightarrow> py_error + header_list" where
  "header_dict [] = Inr []"
| "header_dict ((k, v) # r) =
     and_then (extract_string k) (\<lambda>k.
     and_then (case v of
         PyList vs \<Rightarrow> header_values k vs
       | _ \<Rightarrow> and_then (extract_string v) (\<lambda>s. Inr [(k, s)])) (\<lambda>hs.
     and_then (header_dict r) (\<lambda>rest. Inr (hs @ rest))))"

fun header_tuples :: "py list \<Rightarrow> py_error + header_list" where
  "header_tuples [] = Inr []"
| "header_tuples (e # r) =
     (case e of
        PyTuple [k, v] \<Rightarrow>
          and_then (extract_string k) (\<lambda>k. and_then (extract_string v) (\<lambda>v.
          and_then (header_tuples r) (\<lambda>hs. Inr ((k, v) # hs))))
      | _ \<Rightarrow> Inl OtherError)"

definition normalize_headers :: "py option \<Rightarrow> py_error + header_list" where
  "normalize_headers headers =
     (case headers of
        None \<Rightarrow> Inr []
      | Some (PyDict d) \<Rightarrow> header_dict d
      | Some (PyList l) \<Rightarrow> header_tuples l
      | Some _ \<Rightarrow> Inl (TypeError ''headers must be a dict, list of (name, value) tuples, or None''))"

definition body_from_arg :: "(py \<Rightarrow> bytes option) \<Rightarrow> py option \<Rightarrow> py_error + bytes" where
  "body_from_arg octets body =
     (case body of
        None \<Rightarrow> Inr []
      | Some b \<Rightarrow>
          if b = PyNone then Inr []
          else (case extract_string b of
              Inr s \<Rightarrow> Inr (str_bytes s)
            | Inl _ \<Rightarrow> (case extract_bytes octets b of
                Some bs \<Rightarrow> Inr bs
              | None \<Rightarrow> Inl (TypeError ''body must be str, bytes, or None''))))"

definition ensure_content_type :: "string \<Rightarrow> header_list \<Rightarrow> header_list" where
  "ensure_content_type dflt headers =
     (if list_ex (\<lambda>(k, _). eq_ignore_ascii_case k ''content-type'') headers then headers
      else headers @ [(''Content-Type'', dflt)])"

definition make_response :: "string \<Rightarrow> string \<Rightarrow> u16 \<Rightarrow> bytes \<Rightarrow> header_list \<Rightarrow> response" where
  "make_response url method status_code body headers =
     \<lparr>rs_url = url, rs_status = status_code, rs_headers = headers, rs_body_bytes = body, rs_elapsed_ms = 0,
      rs_redirect_chain = [], rs_cert_info = None, rs_peer_ip = None, rs_request_url = url,
      rs_request_method = method, rs_debug_log = [], rs_decode_error = None, rs_body_cache = None,
      rs_raw_headers_cache = None, rs_cookies_cache = None, rs_hash_cache = None\<rparr>"

section \<open>Matching\<close>

definition url_matches :: "'w mock_env \<Rightarrow> py option \<Rightarrow> string \<Rightarrow> py_error + bool" where
  "url_matches env pattern url =
     (case pattern of
        None \<Rightarrow> Inr True
      | Some p \<Rightarrow> (case extract_string p of Inr s \<Rightarrow> Inr (s = url) | Inl _ \<Rightarrow> mk_search env p url))"

text \<open>Every expected entry is there with an equal value.\<close>

fun subset_loop :: "'w mock_env \<Rightarrow> (string \<Rightarrow> py option) \<Rightarrow> (py \<times> py) list \<Rightarrow> py_error + bool" where
  "subset_loop env get [] = Inr True"
| "subset_loop env get ((k, v) # r) =
     and_then (extract_string k) (\<lambda>key.
     case get key of
       Some actual \<Rightarrow> and_then (mk_eq env actual v) (\<lambda>b. if b then subset_loop env get r else Inr False)
     | None \<Rightarrow> Inr False)"

text \<open>A Python dict of strings, as a list of its items in order.\<close>

fun dict_set :: "string \<Rightarrow> string \<Rightarrow> header_list \<Rightarrow> header_list" where
  "dict_set k v [] = [(k, v)]"
| "dict_set k v ((k', v') # d) = (if k' = k then (k', v) # d else (k', v') # dict_set k v d)"

fun request_dict :: "header_list \<Rightarrow> header_list \<Rightarrow> header_list" where
  "request_dict d [] = d"
| "request_dict d ((k, v) # hs) = request_dict (dict_set k v d) hs"

definition header_subset_match :: "'w mock_env \<Rightarrow> (py \<times> py) list \<Rightarrow> header_list \<Rightarrow> py_error + bool" where
  "header_subset_match env expected req_headers =
     subset_loop env (\<lambda>k. map_option (\<lambda>s. PyStr (Some s)) (map_of req_headers k)) expected"

definition json_subset_match :: "'w mock_env \<Rightarrow> (py \<times> py) list \<Rightarrow> bytes \<Rightarrow> py_error + bool" where
  "json_subset_match env expected body =
     (if body = [] then Inr (expected = [])
      else if \<not> utf8_valid body then Inr False
      else case mk_loads env (bytes_str body) of
          Some (PyDict items) \<Rightarrow> subset_loop env (\<lambda>k. map_of items (PyStr (Some k))) expected
        | _ \<Rightarrow> Inr False)"

text \<open>One turn of the loop in \<open>pick_handler\<close>: does the handler take the request?\<close>

definition handler_takes ::
  "'w mock_env \<Rightarrow> string \<Rightarrow> string \<Rightarrow> header_list \<Rightarrow> bytes \<Rightarrow> handler \<Rightarrow> py_error + bool" where
  "handler_takes env url method req_headers body h =
     and_then (url_matches env (h_url h) url) (\<lambda>b.
     if \<not> b then Inr False
     else if (case h_method h of Some m \<Rightarrow> \<not> eq_ignore_ascii_case m method | None \<Rightarrow> False) then Inr False
     else case h_kind h of
       CallbackKind _ \<Rightarrow> Inr True
     | ResponseKind _ _ _ match_headers match_json \<Rightarrow>
         and_then (case match_headers of Some mh \<Rightarrow> header_subset_match env mh req_headers | None \<Rightarrow> Inr True) (\<lambda>b.
         if \<not> b then Inr False
         else case match_json of Some mj \<Rightarrow> json_subset_match env mj body | None \<Rightarrow> Inr True))"

fun pick_loop :: "(handler \<Rightarrow> py_error + bool) \<Rightarrow> nat \<Rightarrow> handler list \<Rightarrow> py_error + nat option" where
  "pick_loop takes i [] = Inr None"
| "pick_loop takes i (h # hs) =
     and_then (takes h) (\<lambda>b. if b then Inr (Some i) else pick_loop takes (Suc i) hs)"

definition pick_handler ::
  "'w mock_env \<Rightarrow> mock_state \<Rightarrow> string \<Rightarrow> string \<Rightarrow> header_list \<Rightarrow> bytes \<Rightarrow> py_error + handler option \<times> mock_state" where
  "pick_handler env st url method req_headers body =
     (let takes = handler_takes env url method req_headers body in
      and_then (pick_loop takes 0 (ms_handlers st)) (\<lambda>primary.
      case primary of
        Some i \<Rightarrow>
          (let h = ms_handlers st ! i in
           Inr (Some h, \<lparr>ms_handlers = take i (ms_handlers st) @ drop (Suc i) (ms_handlers st),
                         ms_recycled = ms_recycled st @ [h]\<rparr>))
      | None \<Rightarrow>
          and_then (pick_loop takes 0 (ms_recycled st)) (\<lambda>recycled.
          case recycled of
            Some i \<Rightarrow> Inr (Some (ms_recycled st ! i), st)
          | None \<Rightarrow> Inr (None, st))))"

section \<open>Dispatch\<close>

datatype dispatch_plan = PlanResponse response | PlanCallback py mock_request

definition plan_dispatch ::
  "'w mock_env \<Rightarrow> mock_state \<Rightarrow> string \<Rightarrow> string \<Rightarrow> header_list \<Rightarrow> bytes \<Rightarrow> (py_error + dispatch_plan) \<times> mock_state" where
  "plan_dispatch env st url method headers body =
     (let req_headers = request_dict [] headers in
      case pick_handler env st url method req_headers body of
        Inl e \<Rightarrow> (Inl e, st)
      | Inr (None, st) \<Rightarrow> (Inl (RuntimeError (''No mock response registered for '' @ method @ '' '' @ url)), st)
      | Inr (Some h, st) \<Rightarrow>
          (Inr (case h_kind h of
             ResponseKind status_code resp_body resp_headers _ _ \<Rightarrow>
               PlanResponse (make_response url method status_code resp_body resp_headers)
           | CallbackKind callback \<Rightarrow>
               PlanCallback callback \<lparr>mq_url = url, mq_method = method, mq_headers = req_headers, mq_content = body\<rparr>), st))"

definition callback_result_to_response :: "cb_value \<Rightarrow> string \<Rightarrow> string \<Rightarrow> py_error + response" where
  "callback_result_to_response result url method =
     (case result of
        IsMockResponse mr \<Rightarrow>
          and_then (normalize_headers (Some (mr_headers mr))) (\<lambda>header_list.
          Inr (make_response url method (mr_status_code mr) (str_bytes (mr_text mr))
            (ensure_content_type ''text/plain; charset=utf-8'' header_list)))
      | IsResponse r \<Rightarrow> Inr (response_clone r)
      | _ \<Rightarrow> Inl (TypeError ''callback must return MockResponse or blasthttp.Response''))"

definition dispatch_one ::
  "'w mock_env \<Rightarrow> string \<Rightarrow> string \<Rightarrow> header_list \<Rightarrow> bytes \<Rightarrow> mock_state \<times> 'w \<Rightarrow> (py_error + response) \<times> mock_state \<times> 'w" where
  "dispatch_one env url method headers body sw =
     (case plan_dispatch env (fst sw) url method headers body of
        (Inl e, st) \<Rightarrow> (Inl e, st, snd sw)
      | (Inr (PlanResponse resp), st) \<Rightarrow> (Inr resp, st, snd sw)
      | (Inr (PlanCallback callback req), st) \<Rightarrow>
          (case mk_call env callback req (st, snd sw) of
             (Inl e, sw) \<Rightarrow> (Inl e, sw)
           | (Inr result, sw) \<Rightarrow>
               (case (case result of IsCoroutine c \<Rightarrow> mk_await env c sw | _ \<Rightarrow> (Inr result, sw)) of
                  (Inl e, sw) \<Rightarrow> (Inl e, sw)
                | (Inr final, sw) \<Rightarrow> (callback_result_to_response final url method, sw))))"

section \<open>The client\<close>

text \<open>\<open>mc_real\<close> says whether a real client was given.\<close>

record mock_client =
  mc_real :: bool
  mc_should_mock_fn :: "(string \<Rightarrow> py_error + bool) option"

definition add_response ::
  "'w mock_env \<Rightarrow> py option \<Rightarrow> string option \<Rightarrow> string option \<Rightarrow> py option \<Rightarrow> py option \<Rightarrow> u16 \<Rightarrow> py option
    \<Rightarrow> (py \<times> py) list option \<Rightarrow> (py \<times> py) list option \<Rightarrow> mock_state \<Rightarrow> (py_error + unit) \<times> mock_state" where
  "add_response env url method text_arg json content status_code headers match_headers match_json st =
     (case and_then (normalize_headers headers) (\<lambda>header_list.
         case text_arg of
           Some t \<Rightarrow> Inr (str_bytes t, ensure_content_type ''text/plain; charset=utf-8'' header_list)
         | None \<Rightarrow>
         (case json of
           Some j \<Rightarrow> and_then (mk_dumps env j) (\<lambda>s. Inr (str_bytes s, ensure_content_type ''application/json'' header_list))
         | None \<Rightarrow>
         (case content of
           Some c \<Rightarrow>
             and_then (case extract_bytes (mk_octets env) c of
                 Some bs \<Rightarrow> Inr bs
               | None \<Rightarrow> (case extract_string c of
                     Inr s \<Rightarrow> Inr (str_bytes s)
                   | Inl _ \<Rightarrow> Inl (TypeError ''content must be bytes or str''))) (\<lambda>bs.
             Inr (bs, ensure_content_type ''application/octet-stream'' header_list))
         | None \<Rightarrow> Inr ([], header_list)))) of
        Inl e \<Rightarrow> (Inl e, st)
      | Inr (body, header_list) \<Rightarrow>
          (Inr (), st\<lparr>ms_handlers := ms_handlers st @
             [\<lparr>h_url = url, h_method = method,
               h_kind = ResponseKind status_code body header_list match_headers match_json\<rparr>]\<rparr>))"

definition add_callback :: "py \<Rightarrow> py option \<Rightarrow> mock_state \<Rightarrow> mock_state" where
  "add_callback callback url st =
     st\<lparr>ms_handlers := ms_handlers st @ [\<lparr>h_url = url, h_method = None, h_kind = CallbackKind callback\<rparr>]\<rparr>"

definition should_intercept :: "'w mock_env \<Rightarrow> mock_client \<Rightarrow> string \<Rightarrow> py_error + bool" where
  "should_intercept env c url =
     (case mc_should_mock_fn c of
        None \<Rightarrow> Inr True
      | Some f \<Rightarrow> and_then (mk_hostname env url) (\<lambda>host. f (unwrap_or host [])))"

section \<open>A single request\<close>

definition mock_next_url :: "'w mock_env \<Rightarrow> string \<Rightarrow> response \<Rightarrow> string option" where
  "mock_next_url env current_url resp =
     (if rs_status resp \<notin> {301, 302, 303, 307, 308} then None
      else map_option (\<lambda>(_, loc).
          if loc \<noteq> [] \<and> hd loc = CHR ''/'' then
            (case mk_urlparse env current_url of
               Inr (scheme, netloc) \<Rightarrow> scheme @ ''://'' @ netloc @ loc
             | Inl _ \<Rightarrow> loc)
          else loc)
        (List.find (\<lambda>(k, _). eq_ignore_ascii_case k ''location'') (rs_headers resp)))"

function request_loop ::
  "'w mock_env \<Rightarrow> string \<Rightarrow> header_list \<Rightarrow> bytes \<Rightarrow> bool \<Rightarrow> u32 \<Rightarrow> string \<Rightarrow> u32 \<Rightarrow> mock_state \<times> 'w
    \<Rightarrow> (py_error + response) \<times> mock_state \<times> 'w" where
  "request_loop env method headers body follow max_hops current_url hops sw =
     (case dispatch_one env current_url method headers body sw of
        (Inl e, sw) \<Rightarrow> (Inl e, sw)
      | (Inr resp, sw) \<Rightarrow>
          if \<not> follow then (Inr resp, sw)
          else (case mock_next_url env current_url resp of
              None \<Rightarrow> (Inr resp, sw)
            | Some loc \<Rightarrow>
                if hops = - 1 then (Inl PanicError, sw)
                else if hops + 1 > max_hops
                then (Inl (RuntimeError (''exceeded '' @ show_nat (unat max_hops) @
                   '' redirects starting from mock dispatch'')), sw)
                else request_loop env method headers body follow max_hops loc (hops + 1) sw))"
  by pat_completeness auto
termination
proof (relation "measure (\<lambda>(_, _, _, _, _, _, _, hops, _). 2 ^ 32 - unat hops)", goal_cases)
  case (2 env meth headers body follow max_hops current_url hops sw)
  then have "unat (hops + 1) = unat hops + 1" by (simp add: unat_plus_1)
  moreover have "unat hops < 2 ^ LENGTH(32)" by (rule unsigned_less)
  ultimately show ?case by simp
qed simp

declare request_loop.simps [simp del]

text \<open>The arguments handed to a real client.\<close>

record delegated =
  dg_url :: string
  dg_method :: "string option"
  dg_headers :: "py option"
  dg_body :: "py option"
  dg_files :: "py option"
  dg_follow_redirects :: "bool option"
  dg_max_redirects :: "u32 option"

datatype mock_reply = Replied response | Delegated delegated

definition delegate_request :: "mock_client \<Rightarrow> delegated \<Rightarrow> py_error + mock_reply" where
  "delegate_request c d =
     (if mc_real c then Inr (Delegated d)
      else Inl (RuntimeError (''URL '' @ dg_url d @ '' is excluded by should_mock_fn but no real_client was provided'')))"

definition mock_client_request ::
  "'w mock_env \<Rightarrow> mock_client \<Rightarrow> string \<Rightarrow> delegated \<Rightarrow> mock_state \<times> 'w \<Rightarrow> (py_error + mock_reply) \<times> mock_state \<times> 'w" where
  "mock_client_request env c boundary d sw =
     (case should_intercept env c (dg_url d) of
        Inl e \<Rightarrow> (Inl e, sw)
      | Inr False \<Rightarrow> (delegate_request c d, sw)
      | Inr True \<Rightarrow>
          (case and_then (reject_body_with_files (dg_body d) (dg_files d)) (\<lambda>_.
               and_then (normalize_headers (dg_headers d)) (\<lambda>header_list.
               case dg_files d of
                 Some f \<Rightarrow>
                   if f \<noteq> PyNone then
                     and_then (build_multipart (mk_str env) boundary f) (\<lambda>(boundary, mp_body).
                     Inr (ensure_content_type (''multipart/form-data; boundary='' @ boundary) header_list, mp_body))
                   else and_then (body_from_arg (mk_octets env) (dg_body d)) (\<lambda>b. Inr (header_list, b))
               | None \<Rightarrow> and_then (body_from_arg (mk_octets env) (dg_body d)) (\<lambda>b. Inr (header_list, b)))) of
             Inl e \<Rightarrow> (Inl e, sw)
           | Inr (header_list, body_bytes) \<Rightarrow>
               (case request_loop env (unwrap_or (dg_method d) ''GET'') header_list body_bytes
                   (unwrap_or (dg_follow_redirects d) False) (unwrap_or (dg_max_redirects d) 10) (dg_url d) 0 sw of
                  (r, sw) \<Rightarrow> (map_sum id Replied r, sw))))"

section \<open>Batches\<close>

record mock_entry =
  me_url :: string
  me_method :: string
  me_headers :: header_list
  me_body :: bytes

type_synonym batch_item = "string \<times> response option \<times> string option"

text \<open>What a real client's stream gives, one \<open>__anext__\<close> at a time.\<close>

datatype pull = PullList "batch_item list" | PullOne batch_item | PullError py_error

record mock_iter =
  mi_pending :: "mock_entry list"
  mi_passthrough :: "pull list option"
  mi_buffered :: "batch_item list"
  mi_exhausted :: bool

text \<open>The boundary of the \<open>n\<close>-th multipart body is \<open>boundary n\<close>.\<close>

fun split_configs ::
  "'w mock_env \<Rightarrow> mock_client \<Rightarrow> (nat \<Rightarrow> string) \<Rightarrow> nat \<Rightarrow> batch_config list
    \<Rightarrow> py_error + mock_entry list \<times> batch_config list" where
  "split_configs env c boundary n [] = Inr ([], [])"
| "split_configs env c boundary n (cfg # r) =
     and_then (should_intercept env c (bc_url cfg)) (\<lambda>mocked.
     if mocked then
       and_then (apply_body_and_files (mk_octets env) (mk_str env) (boundary n)
           (case bc_body cfg of Some PyNone \<Rightarrow> None | b \<Rightarrow> b) (case bc_files cfg of Some PyNone \<Rightarrow> None | f \<Rightarrow> f)
           (bc_headers cfg)) (\<lambda>(body_bytes, final_headers).
       and_then (split_configs env c boundary (Suc n) r) (\<lambda>(entries, passthrough).
       Inr (\<lparr>me_url = bc_url cfg, me_method = unwrap_or (bc_method cfg) ''GET'',
              me_headers = unwrap_or final_headers [], me_body = unwrap_or body_bytes []\<rparr> # entries, passthrough)))
     else and_then (split_configs env c boundary (Suc n) r) (\<lambda>(entries, passthrough). Inr (entries, cfg # passthrough)))"

text \<open>\<open>open_real\<close> is the call to the real client's \<open>request_batch_stream\<close>.\<close>

definition mock_batch_stream ::
  "'w mock_env \<Rightarrow> mock_client \<Rightarrow> (batch_config list \<Rightarrow> py_error + pull list) \<Rightarrow> (nat \<Rightarrow> string) \<Rightarrow> batch_config list
    \<Rightarrow> py_error + mock_iter" where
  "mock_batch_stream env c open_real boundary configs =
     and_then (split_configs env c boundary 0 configs) (\<lambda>(entries, passthrough).
     and_then (if mc_real c \<and> passthrough \<noteq> [] then map_sum id Some (open_real passthrough) else Inr None) (\<lambda>it.
     Inr \<lparr>mi_pending = entries, mi_passthrough = it, mi_buffered = [], mi_exhausted = False\<rparr>))"

datatype iter_step = Item batch_item | StopIteration | Raised py_error

definition batch_result_obj :: "string \<Rightarrow> response option \<Rightarrow> string option \<Rightarrow> batch_item" where
  "batch_result_obj url resp err = (url, map_option response_clone resp, err)"

text \<open>Pulling until there is something to give: what to give, the rest, what to buffer, and whether it ended.\<close>

fun pull_loop :: "pull list \<Rightarrow> iter_step \<times> pull list \<times> batch_item list \<times> bool" where
  "pull_loop [] = (StopIteration, [], [], True)"
| "pull_loop (PullError e # r) = (Raised e, r, [], False)"
| "pull_loop (PullOne s # r) = (Item s, r, [], False)"
| "pull_loop (PullList [] # r) = pull_loop r"
| "pull_loop (PullList (first # to_buffer) # r) = (Item first, r, to_buffer, False)"

definition mock_anext :: "'w mock_env \<Rightarrow> mock_iter \<Rightarrow> mock_state \<times> 'w \<Rightarrow> iter_step \<times> mock_iter \<times> mock_state \<times> 'w" where
  "mock_anext env it sw =
     (case mi_buffered it of
        item # buffered \<Rightarrow> (Item item, it\<lparr>mi_buffered := buffered\<rparr>, sw)
      | [] \<Rightarrow>
     (case mi_pending it of
        entry # pending \<Rightarrow>
          (case dispatch_one env (me_url entry) (me_method entry) (me_headers entry) (me_body entry) sw of
             (r, sw) \<Rightarrow>
               (Item (case r of Inr resp \<Rightarrow> batch_result_obj (me_url entry) (Some resp) None
                  | Inl e \<Rightarrow> batch_result_obj (me_url entry) None (Some (mk_show_error env e))),
                it\<lparr>mi_pending := pending\<rparr>, sw))
      | [] \<Rightarrow>
     (case (if mi_exhausted it then None else mi_passthrough it) of
        None \<Rightarrow> (StopIteration, it\<lparr>mi_exhausted := True\<rparr>, sw)
      | Some pulls \<Rightarrow>
          (case pull_loop pulls of (r, rest, buffered, ended) \<Rightarrow>
             (r, it\<lparr>mi_passthrough := Some rest, mi_buffered := buffered, mi_exhausted := ended\<rparr>, sw)))))"

definition pull_weight :: "pull \<Rightarrow> nat" where
  "pull_weight p = (case p of PullList l \<Rightarrow> Suc (length l) | _ \<Rightarrow> 1)"

definition iter_weight :: "mock_iter \<Rightarrow> nat" where
  "iter_weight it = length (mi_pending it) + length (mi_buffered it)
     + (case mi_passthrough it of Some pulls \<Rightarrow> sum_list (map pull_weight pulls) | None \<Rightarrow> 0)"

lemma pull_loop_weight:
  "pull_loop pulls = (Item x, rest, buffered, ended) \<Longrightarrow>
    length buffered + sum_list (map pull_weight rest) < sum_list (map pull_weight pulls)"
  by (induction pulls rule: pull_loop.induct) (auto simp: pull_weight_def)

lemma mock_anext_weight: "mock_anext env it sw = (Item x, it', sw') \<Longrightarrow> iter_weight it' < iter_weight it"
  by (auto simp: mock_anext_def iter_weight_def dest: pull_loop_weight split: list.splits option.splits prod.splits if_splits)

text \<open>\<open>request_batch\<close> drains the iterator.\<close>

function drain ::
  "'w mock_env \<Rightarrow> batch_item list \<Rightarrow> mock_iter \<Rightarrow> mock_state \<times> 'w \<Rightarrow> (py_error + batch_item list) \<times> mock_state \<times> 'w" where
  "drain env out it sw =
     (case mock_anext env it sw of
        (Item v, it, sw) \<Rightarrow> drain env (out @ [v]) it sw
      | (StopIteration, it, sw) \<Rightarrow> (Inr out, sw)
      | (Raised e, it, sw) \<Rightarrow> (Inl e, sw))"
  by pat_completeness auto
termination
  by (relation "measure (\<lambda>(_, _, it, _). iter_weight it)") (auto dest: mock_anext_weight [OF sym])

declare drain.simps [simp del]

definition mock_request_batch ::
  "'w mock_env \<Rightarrow> mock_client \<Rightarrow> (batch_config list \<Rightarrow> py_error + pull list) \<Rightarrow> (nat \<Rightarrow> string) \<Rightarrow> batch_config list
    \<Rightarrow> mock_state \<times> 'w \<Rightarrow> (py_error + batch_item list) \<times> mock_state \<times> 'w" where
  "mock_request_batch env c open_real boundary configs sw =
     (case mock_batch_stream env c open_real boundary configs of
        Inl e \<Rightarrow> (Inl e, sw)
      | Inr it \<Rightarrow> drain env [] it sw)"

section \<open>Which handler a request gets\<close>

lemma pick_loop_first:
  assumes "\<forall>x \<in> set a. takes x = Inr False" "takes h = Inr True"
  shows "pick_loop takes i (a @ h # b) = Inr (Some (i + length a))"
  using assms by (induction a arbitrary: i) simp_all

lemma pick_loop_none: "\<forall>x \<in> set hs. takes x = Inr False \<Longrightarrow> pick_loop takes i hs = Inr None"
  by (induction hs arbitrary: i) simp_all

definition first :: "'a list \<Rightarrow> 'a option" where
  "first xs = (case xs of [] \<Rightarrow> None | x # _ \<Rightarrow> Some x)"

text \<open>The same request again and again.\<close>

fun pick_times ::
  "'w mock_env \<Rightarrow> string \<Rightarrow> string \<Rightarrow> header_list \<Rightarrow> bytes \<Rightarrow> nat \<Rightarrow> mock_state \<Rightarrow> py_error + handler option list \<times> mock_state" where
  "pick_times env url method req body 0 st = Inr ([], st)"
| "pick_times env url method req body (Suc n) st =
     and_then (pick_handler env st url method req body) (\<lambda>(h, st).
     and_then (pick_times env url method req body n st) (\<lambda>(hs, st). Inr (h # hs, st)))"

lemma split_first_take:
  assumes "\<forall>h \<in> set hs. takes h = Inr True \<or> takes h = Inr False" "filter (\<lambda>h. takes h = Inr True) hs = m # ms"
  shows "\<exists>a b. hs = a @ m # b \<and> (\<forall>x \<in> set a. takes x = Inr False) \<and> takes m = Inr True \<and>
    ms = filter (\<lambda>h. takes h = Inr True) b"
  using assms by (fastforce simp: filter_eq_Cons_iff)

lemma pick_handler_primary:
  assumes "ms_handlers st = a @ h # b" "\<forall>x \<in> set a. handler_takes env url method req body x = Inr False"
    "handler_takes env url method req body h = Inr True"
  shows "pick_handler env st url method req body =
    Inr (Some h, \<lparr>ms_handlers = a @ b, ms_recycled = ms_recycled st @ [h]\<rparr>)"
  using pick_loop_first [of a "handler_takes env url method req body" h 0 b] assms
  by (simp add: pick_handler_def)

lemma pick_handler_recycled:
  assumes "\<forall>x \<in> set (ms_handlers st). handler_takes env url method req body x = Inr False"
    "\<forall>x \<in> set (ms_recycled st). handler_takes env url method req body x = Inr True \<or> handler_takes env url method req body x = Inr False"
  shows "pick_handler env st url method req body =
    Inr (first (filter (\<lambda>h. handler_takes env url method req body h = Inr True) (ms_recycled st)), st)"
proof (cases "filter (\<lambda>h. handler_takes env url method req body h = Inr True) (ms_recycled st)")
  case Nil
  then have "\<forall>x \<in> set (ms_recycled st). handler_takes env url method req body x = Inr False"
    using assms(2) by (auto simp: filter_empty_conv)
  with assms(1) Nil show ?thesis by (simp add: pick_handler_def pick_loop_none first_def)
next
  case (Cons m ms)
  then obtain a b where "ms_recycled st = a @ m # b" "\<forall>x \<in> set a. handler_takes env url method req body x = Inr False"
    "handler_takes env url method req body m = Inr True"
    using split_first_take [OF assms(2)] by blast
  with assms(1) Cons show ?thesis
    using pick_loop_first [of a "handler_takes env url method req body" m 0 b]
    by (simp add: pick_handler_def pick_loop_none first_def)
qed

lemma pick_times_served:
  assumes "\<forall>h \<in> set (ms_handlers st) \<union> set (ms_recycled st).
      handler_takes env url method req body h = Inr True \<or> handler_takes env url method req body h = Inr False"
    "filter (\<lambda>h. handler_takes env url method req body h = Inr True) (ms_handlers st) = ms"
    "filter (\<lambda>h. handler_takes env url method req body h = Inr True) (ms_recycled st) = rs"
  shows "\<exists>st'. pick_times env url method req body n st =
      Inr (map Some (take n ms) @ replicate (n - length ms) (first (rs @ ms)), st') \<and>
    mset (ms_handlers st') + mset (ms_recycled st') = mset (ms_handlers st) + mset (ms_recycled st) \<and>
    ms_recycled st' = ms_recycled st @ take n ms"
  using assms
proof (induction n arbitrary: st ms rs)
  case (Suc n)
  show ?case
  proof (cases ms)
    case Nil
    with Suc.prems have none: "\<forall>x \<in> set (ms_handlers st). handler_takes env url method req body x = Inr False"
      by (auto simp: filter_empty_conv)
    from pick_handler_recycled [OF this] Suc.prems(1,3)
    have "pick_handler env st url method req body = Inr (first rs, st)" by simp
    with Suc.IH [OF Suc.prems] Nil show ?thesis by auto
  next
    case (Cons m ms')
    with Suc.prems obtain a b where ab: "ms_handlers st = a @ m # b"
      "\<forall>x \<in> set a. handler_takes env url method req body x = Inr False"
      "handler_takes env url method req body m = Inr True"
      "ms' = filter (\<lambda>h. handler_takes env url method req body h = Inr True) b"
      using split_first_take [of "ms_handlers st" "handler_takes env url method req body" m ms'] by auto
    let ?st = "\<lparr>ms_handlers = a @ b, ms_recycled = ms_recycled st @ [m]\<rparr>"
    from ab(2) have "filter (\<lambda>h. handler_takes env url method req body h = Inr True) a = []"
      by (auto simp: filter_empty_conv)
    with Suc.IH [of ?st ms' "rs @ [m]"] Suc.prems(1,3) ab obtain st' where
      "pick_times env url method req body n ?st = Inr (map Some (take n ms') @ replicate (n - length ms') (first (rs @ m # ms')), st')"
      "mset (ms_handlers st') + mset (ms_recycled st') = mset (a @ b) + mset (ms_recycled st @ [m])"
      "ms_recycled st' = ms_recycled st @ m # take n ms'" by auto
    with pick_handler_primary [OF ab(1-3)] ab(1) Cons show ?thesis by simp
  qed
qed simp

text \<open>
  C14: Handlers are served first in, first out, and then reused. A request repeated \<open>n\<close> times, whose
  checks raise nothing, gets the handlers that take it one after the other in the order of their
  registration; when these are used up it gets the first one served again and again, or nothing if
  none ever took it. No handler is lost or doubled, and the used ones are kept in the order of use.
\<close>

theorem mock_first_in_first_out:
  assumes "\<forall>h \<in> set (ms_handlers st) \<union> set (ms_recycled st).
      handler_takes env url method req body h = Inr True \<or> handler_takes env url method req body h = Inr False"
    and "takers = filter (\<lambda>h. handler_takes env url method req body h = Inr True)"
  shows "\<exists>st'. pick_times env url method req body n st =
      Inr (map Some (take n (takers (ms_handlers st))) @
           replicate (n - length (takers (ms_handlers st))) (first (takers (ms_recycled st @ ms_handlers st))), st') \<and>
    mset (ms_handlers st') + mset (ms_recycled st') = mset (ms_handlers st) + mset (ms_recycled st) \<and>
    ms_recycled st' = ms_recycled st @ take n (takers (ms_handlers st))"
  using pick_times_served [OF assms(1) refl refl, of n] by (simp add: assms(2))

definition example_mock_env :: "unit mock_env" where
  "example_mock_env = \<lparr>mk_search = (\<lambda>_ _. Inr True), mk_eq = (\<lambda>a b. Inr (a = b)), mk_loads = (\<lambda>_. None),
     mk_dumps = (\<lambda>_. Inr ''{}''), mk_call = (\<lambda>_ _ sw. (Inr IsOther, sw)), mk_await = (\<lambda>_ sw. (Inr IsOther, sw)),
     mk_urlparse = (\<lambda>_. Inr (''http'', ''h'')), mk_hostname = (\<lambda>_. Inr (Some ''h'')), mk_octets = (\<lambda>_. None),
     mk_str = (\<lambda>_. None), mk_show_error = (\<lambda>_. ''error'')\<rparr>"

definition example_handler :: "u16 \<Rightarrow> handler" where
  "example_handler status = \<lparr>h_url = Some (PyStr (Some ''u'')), h_method = None, h_kind = ResponseKind status [] [] None None\<rparr>"

lemma mock_first_in_first_out_witness:
  "\<exists>st'. pick_times example_mock_env ''u'' ''GET'' [] [] 4 \<lparr>ms_handlers = [example_handler 200, example_handler 404], ms_recycled = []\<rparr>
      = Inr ([Some (example_handler 200), Some (example_handler 404), Some (example_handler 200), Some (example_handler 200)], st') \<and>
    ms_recycled st' = [example_handler 200, example_handler 404]"
proof -
  have t: "handler_takes example_mock_env ''u'' ''GET'' [] [] (example_handler s) = Inr True" for s
    by (simp add: handler_takes_def example_handler_def url_matches_def extract_string_def)
  have two: "replicate 2 x = [x, x]" for x :: "handler option" by (simp add: numeral_eq_Suc)
  show ?thesis
    using mock_first_in_first_out [OF _ refl, of "\<lparr>ms_handlers = [example_handler 200, example_handler 404], ms_recycled = []\<rparr>"
        example_mock_env "''u''" "''GET''" "[]" "[]" 4]
    by (simp add: t first_def two del: pick_times.simps) blast
qed

section \<open>What a batch gives\<close>

text \<open>The entries served one after the other.\<close>

fun serve_entries :: "'w mock_env \<Rightarrow> mock_entry list \<Rightarrow> mock_state \<times> 'w \<Rightarrow> batch_item list \<times> mock_state \<times> 'w" where
  "serve_entries env [] sw = ([], sw)"
| "serve_entries env (e # es) sw =
     (case dispatch_one env (me_url e) (me_method e) (me_headers e) (me_body e) sw of (r, sw) \<Rightarrow>
        (case serve_entries env es sw of (items, sw) \<Rightarrow>
           ((case r of Inr resp \<Rightarrow> batch_result_obj (me_url e) (Some resp) None
             | Inl x \<Rightarrow> batch_result_obj (me_url e) None (Some (mk_show_error env x))) # items, sw)))"

text \<open>All that a stream gives, up to its first error.\<close>

fun pulled :: "pull list \<Rightarrow> py_error + batch_item list" where
  "pulled [] = Inr []"
| "pulled (PullError e # r) = Inl e"
| "pulled (PullOne x # r) = map_sum id (Cons x) (pulled r)"
| "pulled (PullList xs # r) = map_sum id ((@) xs) (pulled r)"

lemma drain_buffered:
  "mi_buffered it = xs \<Longrightarrow> drain env out it sw = drain env (out @ xs) (it\<lparr>mi_buffered := []\<rparr>) sw"
proof (induction xs arbitrary: it out)
  case Nil
  then have "it\<lparr>mi_buffered := []\<rparr> = it" by simp
  then show ?case by simp
next
  case (Cons x xs)
  then have "drain env out it sw = drain env (out @ [x]) (it\<lparr>mi_buffered := xs\<rparr>) sw"
    by (subst drain.simps) (simp add: mock_anext_def)
  with Cons.IH [of "it\<lparr>mi_buffered := xs\<rparr>" "out @ [x]"] show ?case by simp
qed

lemma drain_pending:
  "mi_buffered it = [] \<Longrightarrow> mi_pending it = es \<Longrightarrow> serve_entries env es sw = (items, sw') \<Longrightarrow>
    drain env out it sw = drain env (out @ items) (it\<lparr>mi_pending := []\<rparr>) sw'"
proof (induction es arbitrary: it out sw items)
  case Nil
  then have it: "it\<lparr>mi_pending := []\<rparr> = it" by simp
  from Nil show ?case by (simp only: it) simp
next
  case (Cons e es)
  obtain r sw1 where r: "dispatch_one env (me_url e) (me_method e) (me_headers e) (me_body e) sw = (r, sw1)" by (metis surj_pair)
  obtain rest sw2 where rest: "serve_entries env es sw1 = (rest, sw2)" by (metis surj_pair)
  let ?x = "case r of Inr resp \<Rightarrow> batch_result_obj (me_url e) (Some resp) None
    | Inl x \<Rightarrow> batch_result_obj (me_url e) None (Some (mk_show_error env x))"
  from Cons.prems(3) r rest have eq: "sw2 = sw'" "items = ?x # rest" by simp_all
  have "drain env out it sw = drain env (out @ [?x]) (it\<lparr>mi_pending := es\<rparr>) sw1"
    using Cons.prems by (subst drain.simps) (simp add: mock_anext_def r)
  also have "\<dots> = drain env ((out @ [?x]) @ rest) (it\<lparr>mi_pending := []\<rparr>) sw'"
    using Cons.IH [OF _ _ rest [unfolded eq(1)], of "it\<lparr>mi_pending := es\<rparr>" "out @ [?x]"] Cons.prems(1) by simp
  finally show ?case by (simp add: eq(2))
qed

lemma drain_pulls:
  "drain env out \<lparr>mi_pending = [], mi_passthrough = Some pulls, mi_buffered = [], mi_exhausted = False\<rparr> sw
     = (map_sum id ((@) out) (pulled pulls), sw)"
proof (induction pulls arbitrary: out)
  case Nil
  show ?case by (subst drain.simps) (simp add: mock_anext_def)
next
  case (Cons p pulls)
  have empty: "drain env out \<lparr>mi_pending = [], mi_passthrough = Some (PullList [] # pulls), mi_buffered = [], mi_exhausted = False\<rparr> sw
      = drain env out \<lparr>mi_pending = [], mi_passthrough = Some pulls, mi_buffered = [], mi_exhausted = False\<rparr> sw"
    by (subst (1 2) drain.simps) (simp add: mock_anext_def)
  have fuse: "map_sum id ((@) (out @ xs)) r = map_sum id ((@) out) (map_sum id ((@) xs) r)" for xs and r :: "py_error + batch_item list"
    by (cases r) simp_all
  show ?case
  proof (cases p)
    case (PullOne x)
    have "drain env out \<lparr>mi_pending = [], mi_passthrough = Some (p # pulls), mi_buffered = [], mi_exhausted = False\<rparr> sw
      = drain env (out @ [x]) \<lparr>mi_pending = [], mi_passthrough = Some pulls, mi_buffered = [], mi_exhausted = False\<rparr> sw"
      by (subst drain.simps) (simp add: mock_anext_def PullOne)
    also have "\<dots> = (map_sum id ((@) out) (map_sum id ((@) [x]) (pulled pulls)), sw)"
      unfolding Cons.IH fuse [symmetric] by simp
    also have "(@) [x] = Cons x" by (simp add: fun_eq_iff)
    finally show ?thesis by (simp add: PullOne id_def)
  next
    case (PullError e)
    show ?thesis by (subst drain.simps) (simp add: mock_anext_def PullError)
  next
    case (PullList xs)
    show ?thesis
    proof (cases xs)
      case Nil
      have "map_sum id ((@) ([] :: batch_item list)) r = r" for r :: "py_error + batch_item list" by (cases r) simp_all
      with Cons.IH empty show ?thesis by (simp add: PullList Nil)
    next
      case (Cons x ys)
      have "drain env out \<lparr>mi_pending = [], mi_passthrough = Some (p # pulls), mi_buffered = [], mi_exhausted = False\<rparr> sw
        = drain env (out @ [x]) \<lparr>mi_pending = [], mi_passthrough = Some pulls, mi_buffered = ys, mi_exhausted = False\<rparr> sw"
        by (subst drain.simps) (simp add: mock_anext_def PullList Cons)
      also have "\<dots> = drain env ((out @ [x]) @ ys) \<lparr>mi_pending = [], mi_passthrough = Some pulls, mi_buffered = [], mi_exhausted = False\<rparr> sw"
        by (subst drain_buffered [OF refl]) simp
      also have "\<dots> = (map_sum id ((@) out) (map_sum id ((@) xs) (pulled pulls)), sw)"
        unfolding Cons.IH fuse [symmetric] by (simp add: Cons)
      finally show ?thesis by (simp add: PullList id_def)
    qed
  qed
qed

text \<open>
  C15: What a batch of the mock returns: the mocked requests' results first, in the order of their
  configurations, each an error or a response of its own; then everything the real client's stream
  gives, chunks flattened, in its order. An error of the stream is the batch's error.
\<close>

theorem mock_batch_results:
  "mock_request_batch env c open_real boundary configs sw =
    (case split_configs env c boundary 0 configs of
       Inl e \<Rightarrow> (Inl e, sw)
     | Inr (entries, passthrough) \<Rightarrow>
         (case if mc_real c \<and> passthrough \<noteq> [] then open_real passthrough else Inr [] of
            Inl e \<Rightarrow> (Inl e, sw)
          | Inr pulls \<Rightarrow>
              (case serve_entries env entries sw of (items, sw') \<Rightarrow> (map_sum id ((@) items) (pulled pulls), sw'))))"
proof (cases "split_configs env c boundary 0 configs")
  case (Inr p)
  obtain entries passthrough where p: "p = (entries, passthrough)" by (cases p)
  obtain items sw' where items: "serve_entries env entries sw = (items, sw')" by (metis surj_pair)
  have stop: "drain env items \<lparr>mi_pending = [], mi_passthrough = None, mi_buffered = [], mi_exhausted = False\<rparr> sw' = (Inr items, sw')"
    by (subst drain.simps) (simp add: mock_anext_def)
  have go: "drain env [] \<lparr>mi_pending = entries, mi_passthrough = it, mi_buffered = [], mi_exhausted = False\<rparr> sw
      = drain env items \<lparr>mi_pending = [], mi_passthrough = it, mi_buffered = [], mi_exhausted = False\<rparr> sw'" for it
    using drain_pending [OF _ _ items, of "\<lparr>mi_pending = entries, mi_passthrough = it, mi_buffered = [], mi_exhausted = False\<rparr>" "[]"]
    by simp
  show ?thesis
    by (cases "mc_real c \<and> passthrough \<noteq> []"; cases "open_real passthrough")
      (auto simp: mock_request_batch_def mock_batch_stream_def Inr p items go stop drain_pulls)
qed (simp add: mock_request_batch_def mock_batch_stream_def)

text \<open>Without a real client, requests that are not mocked vanish from a batch; a single one is an error.\<close>

lemma mock_batch_drops_excluded:
  assumes "\<not> mc_real c" "mc_should_mock_fn c = Some (\<lambda>_. Inr False)" "mk_hostname env = (\<lambda>_. Inr h)"
  shows "mock_request_batch env c open_real boundary configs sw = (Inr [], sw)"
    and "mock_client_request env c b d sw = (Inl (RuntimeError (''URL '' @ dg_url d @
      '' is excluded by should_mock_fn but no real_client was provided'')), sw)"
proof -
  have "split_configs env c boundary n configs = Inr ([], configs)" for n
    using assms(2,3) by (induction configs arbitrary: n) (simp_all add: should_intercept_def)
  with assms show "mock_request_batch env c open_real boundary configs sw = (Inr [], sw)"
    by (simp add: mock_batch_results)
  show "mock_client_request env c b d sw = (Inl (RuntimeError (''URL '' @ dg_url d @
      '' is excluded by should_mock_fn but no real_client was provided'')), sw)"
    using assms by (simp add: mock_client_request_def should_intercept_def delegate_request_def)
qed

section \<open>Following redirects\<close>

text \<open>A trace of dispatches: every URL with what the mock gave for it.\<close>

type_synonym mock_trace = "(string \<times> (py_error + response)) list"

fun dispatched ::
  "'w mock_env \<Rightarrow> string \<Rightarrow> header_list \<Rightarrow> bytes \<Rightarrow> mock_trace \<Rightarrow> mock_state \<times> 'w \<Rightarrow> mock_state \<times> 'w \<Rightarrow> bool" where
  "dispatched env method headers body [] sw sw' \<longleftrightarrow> sw' = sw"
| "dispatched env method headers body ((u, r) # t) sw sw' \<longleftrightarrow>
     (case dispatch_one env u method headers body sw of (r', sw1) \<Rightarrow> r' = r \<and> dispatched env method headers body t sw1 sw')"

text \<open>Each dispatch but the last answered with a redirect to the next URL.\<close>

fun followed :: "'w mock_env \<Rightarrow> mock_trace \<Rightarrow> bool" where
  "followed env ((u, r) # (u', r') # t) \<longleftrightarrow>
     (case r of Inr resp \<Rightarrow> mock_next_url env u resp = Some u' | Inl _ \<Rightarrow> False) \<and> followed env ((u', r') # t)"
| "followed env _ \<longleftrightarrow> True"

text \<open>The outcome of a trace; \<open>left\<close> is the number of redirects it did not use.\<close>

definition trace_outcome :: "'w mock_env \<Rightarrow> bool \<Rightarrow> u32 \<Rightarrow> nat \<Rightarrow> mock_trace \<Rightarrow> py_error + response \<Rightarrow> bool" where
  "trace_outcome env follow max_hops unused t r \<longleftrightarrow>
     (case snd (last t) of
        Inl e \<Rightarrow> r = Inl e
      | Inr resp \<Rightarrow>
          if follow \<and> mock_next_url env (fst (last t)) resp \<noteq> None
          then unused = 0 \<and> r = Inl (if max_hops = - 1 then PanicError else RuntimeError (''exceeded '' @
            show_nat (unat max_hops) @ '' redirects starting from mock dispatch''))
          else r = Inr resp)"

lemma trace_outcome_Cons:
  assumes "t \<noteq> []"
  shows "trace_outcome env follow max_hops k (x # t) = trace_outcome env follow max_hops k t"
  unfolding trace_outcome_def last_ConsR [OF assms] ..

lemma request_loop_trace:
  assumes "request_loop env meth headers body follow max_hops url hops sw = (r, sw')" "hops \<le> max_hops"
  shows "\<exists>t. t \<noteq> [] \<and> fst (hd t) = url \<and> length t + unat hops \<le> unat max_hops + 1 \<and> (\<not> follow \<longrightarrow> length t = 1) \<and>
    dispatched env meth headers body t sw sw' \<and> followed env t \<and>
    trace_outcome env follow max_hops (unat max_hops + 1 - unat hops - length t) t r"
  using assms
proof (induction env meth headers body follow max_hops url hops sw rule: request_loop.induct)
  case (1 env meth headers body follow max_hops url hops sw)
  obtain r1 sw1 where d: "dispatch_one env url meth headers body sw = (r1, sw1)" by (metis surj_pair)
  from 1(3) have le: "unat hops \<le> unat max_hops" by (simp add: word_le_nat_alt)
  show ?case
  proof (cases "\<exists>resp loc. r1 = Inr resp \<and> follow \<and> mock_next_url env url resp = Some loc \<and> hops \<noteq> - 1 \<and> \<not> hops + 1 > max_hops")
    case True
    then obtain resp loc where go: "r1 = Inr resp" "follow" "mock_next_url env url resp = Some loc" "hops \<noteq> - 1"
      "\<not> max_hops < hops + 1" by auto
    then have le1: "hops + 1 \<le> max_hops" by simp
    have eq: "request_loop env meth headers body follow max_hops loc (hops + 1) sw1 = (r, sw')"
      using 1(2) by (subst (asm) request_loop.simps) (simp add: d go)
    have hop: "unat (hops + 1) = unat hops + 1" using go(4) by (rule unat_plus_1)
    obtain t where t: "t \<noteq> []" "fst (hd t) = loc" "length t + unat (hops + 1) \<le> unat max_hops + 1"
      "dispatched env meth headers body t sw1 sw'" "followed env t"
      "trace_outcome env follow max_hops (unat max_hops + 1 - unat (hops + 1) - length t) t r"
      using 1(1) [OF d [symmetric] go(1) _ go(3,4) _ eq le1] go by auto
    have "followed env ((url, r1) # t)" using t(1,2,5) go by (cases t) auto
    moreover have "trace_outcome env follow max_hops (unat max_hops + 1 - unat hops - length ((url, r1) # t)) ((url, r1) # t) r"
      using t(6) hop by (simp add: trace_outcome_Cons [OF t(1)])
    moreover have "dispatched env meth headers body ((url, r1) # t) sw sw'" using t(4) d by simp
    moreover have "length ((url, r1) # t) + unat hops \<le> unat max_hops + 1" using t(3) hop by simp
    ultimately show ?thesis using go(2) by (intro exI [of _ "(url, r1) # t"]) simp
  next
    case False
    have last: "max_hops = hops" if "hops = - 1 \<or> max_hops < hops + 1"
    proof (cases "hops = - 1")
      case True
      with 1(3) show ?thesis by (metis order.antisym word_order.extremum)
    next
      case False
      with that have "unat max_hops < unat hops + 1" by (simp add: word_less_nat_alt unat_plus_1)
      with le show ?thesis by (simp add: word_unat_eq_iff)
    qed
    with False 1(2) d le show ?thesis
      by (intro exI [of _ "[(url, r1)]"], subst (asm) request_loop.simps)
        (auto simp: trace_outcome_def split: sum.splits option.splits if_splits)
  qed
qed

text \<open>
  C16: The redirect loop of a mocked request is bounded and honest: it dispatches a chain of URLs from
  the request's own, at most one more than \<open>max_redirects\<close> (just one when following is off), each the
  \<open>Location\<close> of the answer before it, and its outcome is the last answer. Only a last answer that is
  itself a redirect, with the allowance used up, becomes the \<open>exceeded\<close> error.
\<close>

theorem mock_redirect_chain:
  "\<exists>t r sw'. request_loop env method headers body follow max_hops url 0 sw = (r, sw') \<and>
    t \<noteq> [] \<and> fst (hd t) = url \<and> length t \<le> (if follow then unat max_hops + 1 else 1) \<and>
    dispatched env method headers body t sw sw' \<and> followed env t \<and>
    trace_outcome env follow max_hops (unat max_hops + 1 - length t) t r"
proof -
  obtain r sw' where "request_loop env method headers body follow max_hops url 0 sw = (r, sw')" by (metis surj_pair)
  with request_loop_trace [OF this] show ?thesis by (cases follow) fastforce+
qed

end
