(* ===== verification/Cookie_Chain.thy ===== *)
theory Cookie_Chain
  imports Http_Pool
begin

text \<open>
  Where every cookie goes that a call of \<open>send\<close> lets out: the \<open>Cookie\<close> lines of the requests on the wire
  are the caller's own, or carry cookies that earlier hops of the same redirect chain set and that may
  go to the host of this one. A run with a cookie that crosses from one host to another closes the theory.
\<close>

section \<open>The lines of a request\<close>

lemma emit_headers_lines:
  "(n, v) \<in> set (fst (emit_headers rc merged hs)) \<Longrightarrow>
   (n, v) \<in> set hs \<or> (\<exists>v0 e. rc = Some e \<and> (n, v0) \<in> set hs \<and> v = merge_cookie v0 e)"
proof (induction hs arbitrary: merged)
  case (Cons h hs)
  obtain n0 v0 where h: "h = (n0, v0)" by fastforce
  show ?case
  proof (cases "rc \<noteq> None \<and> \<not> merged \<and> eq_ignore_ascii_case n0 ''cookie''")
    case True
    then obtain e where e: "rc = Some e" by blast
    have "fst (emit_headers rc merged (h # hs)) = (n0, merge_cookie v0 e) # fst (emit_headers rc True hs)"
      using True by (simp add: h e split: prod.split)
    with Cons.prems have "(n, v) = (n0, merge_cookie v0 e) \<or> (n, v) \<in> set (fst (emit_headers rc True hs))" by simp
    then show ?thesis using Cons.IH [of True] h e by auto
  next
    case False
    have "fst (emit_headers rc merged (h # hs)) = h # fst (emit_headers rc merged hs)"
      using False by (cases rc) (auto simp: h split: prod.split)
    with Cons.prems have "(n, v) = h \<or> (n, v) \<in> set (fst (emit_headers rc merged hs))" by simp
    then show ?thesis using Cons.IH [of merged] by auto
  qed
qed simp

lemma default_headers_no_cookie: "(n, v) \<in> set (default_headers u custom manual) \<Longrightarrow> \<not> eq_ignore_ascii_case n ''cookie''"
  by (auto simp: default_headers_def eq_ignore_ascii_case_def to_ascii_lowercase_def split: option.splits if_splits)

text \<open>A \<open>Cookie\<close> line: the caller's, or one with the cookies of the chain, alone or behind the caller's.\<close>

lemma request_cookie_lines:
  assumes "(n, v) \<in> set (request_headers u config manual rc)" "eq_ignore_ascii_case n ''cookie''"
  shows "(n, v) \<in> set (unwrap_or (rc_headers config) []) \<or> (\<exists>h. rc = Some h \<and>
     ((n, v) = (''Cookie'', h) \<or> (\<exists>v0. (n, v0) \<in> set (unwrap_or (rc_headers config) []) \<and> v = merge_cookie v0 h)))"
proof -
  let ?custom = "unwrap_or (rc_headers config) []"
  obtain out m where out: "emit_headers rc False ?custom = (out, m)" by fastforce
  have "(n, v) \<in> set out \<or> (\<exists>h. rc = Some h \<and> (n, v) = (''Cookie'', h))"
    using assms default_headers_no_cookie by (auto simp: request_headers_eq out split: option.splits if_splits)
  then have "(n, v) \<in> set (fst (emit_headers rc False ?custom)) \<or> (\<exists>h. rc = Some h \<and> (n, v) = (''Cookie'', h))"
    by (simp add: out)
  then show ?thesis using emit_headers_lines [of n v rc False ?custom] by blast
qed

section \<open>The lines of a call\<close>

definition sent_request :: "event \<Rightarrow> http_request option" where
  "sent_request e = (case e of Pooled _ r \<Rightarrow> Some r | Sent _ r \<Rightarrow> Some r | _ \<Rightarrow> None)"

definition cookie_lines :: "http_request \<Rightarrow> header_list" where
  "cookie_lines r = filter (\<lambda>(n, v). eq_ignore_ascii_case n ''cookie'') (hq_headers r)"

definition line_confined :: "env \<Rightarrow> 'w net \<Rightarrow> request_config \<Rightarrow> client_cache \<Rightarrow> 'w \<Rightarrow> http_request \<Rightarrow> string \<times> string \<Rightarrow> bool" where
  "line_confined env net config cache w r line \<longleftrightarrow> line \<in> set (unwrap_or (rc_headers config) []) \<or>
     (should_forward_redirect_cookies config \<and> rc_resolve_ip config = None \<and> rc_request_target config = None \<and>
      (\<exists>u cache0 w0 hist lp cache1 w1 h. l_uri_parse (e_http env) (sanitize_uri (rc_url config)) = Inr u \<and>
         attempt_starts env net config 0 cache w cache0 w0 \<and> hop_path env net config u cache0 w0 hist lp cache1 w1 \<and>
         lp_uri lp = hq_uri r \<and>
         confined (e_psl env) (owned_names config) hist (hq_uri r) h \<and>
         (line = (''Cookie'', h) \<or>
          (\<exists>v. (fst line, v) \<in> set (unwrap_or (rc_headers config) []) \<and> snd line = merge_cookie v h))))"

lemma build_request_lines:
  "build_request lib u config origin manual rc = Inr r \<Longrightarrow>
     hq_headers r = request_headers u config manual rc \<and> (\<not> origin \<longrightarrow> hq_uri r = u)"
  by (auto simp: build_request_def and_then_eq_Inr Let_def split: option.splits if_splits)

lemma plain_lines:
  assumes "build_request lib v config origin manual None = Inr r" "line \<in> set (cookie_lines r)"
  shows "line \<in> set (unwrap_or (rc_headers config) [])"
proof -
  obtain n x where line: "line = (n, x)" by fastforce
  with assms(2) build_request_lines [OF assms(1)] request_cookie_lines [of n x v config manual None] show ?thesis
    by (simp add: cookie_lines_def)
qed

lemma direct_lines:
  assumes "direct_event env config u e" "sent_request e = Some r" "line \<in> set (cookie_lines r)"
  shows "line \<in> set (unwrap_or (rc_headers config) [])"
  using assms plain_lines [of "e_http env" _ config _ _ r line]
  by (cases e) (auto simp: direct_event_def sent_request_def)

lemma loop_lines:
  assumes "loop_event env net config u cache0 w0 e" "attempt_starts env net config 0 cache w cache0 w0" "\<not> direct_request config"
    and "l_uri_parse (e_http env) (sanitize_uri (rc_url config)) = Inr u"
    and "sent_request e = Some r" "line \<in> set (cookie_lines r)"
  shows "line_confined env net config cache w r line"
proof -
  from assms(1) obtain hist lp cache1 w1 where p: "hop_path env net config u cache0 w0 hist lp cache1 w1"
    "hop_event env config (lp_uri lp) (lp_cookies lp) e" by (auto simp: loop_event_def)
  then obtain manual where "build_request (e_http env) (lp_uri lp) config False manual (lp_cookies lp) = Inr r"
    using assms(5) by (cases e) (auto simp: hop_event_def sent_request_def)
  from build_request_lines [OF this] have r: "hq_headers r = request_headers (lp_uri lp) config manual (lp_cookies lp)"
    "hq_uri r = lp_uri lp" by simp_all
  obtain n v where line: "line = (n, v)" by fastforce
  with assms(6) r(1) have "(n, v) \<in> set (request_headers (lp_uri lp) config manual (lp_cookies lp))"
    "eq_ignore_ascii_case n ''cookie''" by (auto simp: cookie_lines_def)
  from request_cookie_lines [OF this] consider "line \<in> set (unwrap_or (rc_headers config) [])"
    | h where "lp_cookies lp = Some h" "line = (''Cookie'', h) \<or>
        (\<exists>v. (fst line, v) \<in> set (unwrap_or (rc_headers config) []) \<and> snd line = merge_cookie v h)"
    by (auto simp: line)
  then show ?thesis
  proof cases
    case 1
    then show ?thesis by (simp add: line_confined_def)
  next
    case (2 h)
    note conf = hop_path_confined [OF p(1) 2(1)]
    have "rc_resolve_ip config = None" "rc_request_target config = None" using assms(3) by (auto simp: direct_request_def)
    with conf p(1) r(2) assms(2,4) 2(2) show ?thesis unfolding line_confined_def by metis
  qed
qed

lemma event_lines:
  assumes "send_event env net config 0 cache w e" "sent_request e = Some r" "line \<in> set (cookie_lines r)"
  shows "line_confined env net config cache w r line"
proof -
  from assms(1,2) obtain cache0 w0 where start: "attempt_starts env net config 0 cache w cache0 w0"
    and "attempt_event env net config cache0 w0 e" by (cases e) (auto simp: send_event_def sent_request_def)
  then obtain u where u: "l_uri_parse (e_http env) (sanitize_uri (rc_url config)) = Inr u"
    "if direct_request config then direct_event env config u e else loop_event env net config u cache0 w0 e"
    by (auto simp: attempt_event_def)
  show ?thesis
  proof (cases "direct_request config")
    case True
    with u direct_lines [OF _ assms(2,3)] show ?thesis by (simp add: line_confined_def)
  next
    case False
    with u loop_lines [OF _ start False u(1) assms(2,3)] show ?thesis by simp
  qed
qed

section \<open>Properties\<close>

text \<open>
  C4: No cookie leaks. Every \<open>Cookie\<close> line of every request that a call of \<open>send\<close> puts on the wire, over
  all its redirects and retries, is one the caller gave, or carries cookies of the redirect chain,
  alone or behind the caller's. Those are there only if forwarding is on and the request goes through
  the redirect loop; each was set by a hop that this run went through, by the response of a host
  from which it may go to the host of this request, applies to its path, is not a secure one
  unless the request is https, and has no name the caller's own cookies have.
\<close>

theorem send_cookies_confined:
  "case send env (logged net) config cache (w, []) of (r, cache', w', es) \<Rightarrow>
     list_all (\<lambda>e. case sent_request e of Some q \<Rightarrow> list_all (line_confined env net config cache w q) (cookie_lines q) | None \<Rightarrow> True) es"
proof -
  obtain r cache' w' es where run: "send env (logged net) config cache (w, []) = (r, cache', w', es)"
    and es: "\<forall>e \<in> set es. send_event env net config 0 cache w e"
    using send_logs [of env net config cache w "[]"] by (auto simp: logs_def send_events_def)
  have "case sent_request e of Some q \<Rightarrow> list_all (line_confined env net config cache w q) (cookie_lines q) | None \<Rightarrow> True"
    if "e \<in> set es" for e
    using es that event_lines [of env net config cache w e] by (auto simp: list_all_iff split: option.split)
  then show ?thesis by (simp add: run list_all_iff)
qed

section \<open>A cookie that crosses\<close>

text \<open>A redirect from one host to another of the same registrable domain, with a domain cookie.\<close>

definition chain_uri :: "string \<Rightarrow> uri" where
  "chain_uri host = \<lparr>u_scheme = Some ''http'', u_authority = Some host, u_host = Some host, u_port = None, u_path = ''/'', u_query = None\<rparr>"

definition chain_env :: env where
  "chain_env = example_env\<lparr>e_http := example_lib\<lparr>l_uri_parse := Inr \<circ> chain_uri\<rparr>\<rparr>"

definition chain_headers :: header_list where
  "chain_headers = [(''Set-Cookie'', ''sid=1; Domain=amazonaws.com''), (''Set-Cookie'', ''own=2''), (''location'', ''shop.amazonaws.com'')]"

definition chain_net :: "unit net" where
  "chain_net = example_net\<lparr>n_pool := (\<lambda>m cn r w.
     ((Inr \<lparr>wr_status = 302, wr_headers = map (\<lambda>(n, v). (n, str_bytes v)) chain_headers, wr_body = []\<rparr>, []), w))\<rparr>"

definition chain_config :: request_config where
  "chain_config = example_config\<lparr>rc_redirect_cookies := Some True\<rparr>"

lemma chain_fields [simp]:
  "e_http chain_env = example_lib\<lparr>l_uri_parse := Inr \<circ> chain_uri\<rparr>" "e_psl chain_env = example_psl"
  "e_openssl chain_env = example_openssl" "e_decoders chain_env = (\<lambda>_ b. (b, None))"
  "n_pool chain_net m cn r w = ((Inr \<lparr>wr_status = 302, wr_headers = map (\<lambda>(n, v). (n, str_bytes v)) chain_headers, wr_body = []\<rparr>, []), w)"
  "n_now chain_net w = 0" "redirect_limit chain_config = 3" "should_follow_redirects chain_config"
  "should_forward_redirect_cookies chain_config" "rc_headers chain_config = None" "rc_max_body_size chain_config = None"
  by (simp_all add: chain_env_def chain_net_def chain_config_def example_config_def example_net_def example_env_def config_new_def
      redirect_limit_def should_follow_redirects_def should_forward_redirect_cookies_def unwrap_or_def)

abbreviation domain_cookie :: cookie where
  "domain_cookie \<equiv> \<lparr>c_name = ''sid'', c_value = ''1'', c_domain = ''amazonaws.com'', c_host_only = False, c_path = ''/'', c_secure = False\<rparr>"

abbreviation own_cookie :: cookie where
  "own_cookie \<equiv> \<lparr>c_name = ''own'', c_value = ''2'', c_domain = ''www.amazonaws.com'', c_host_only = True, c_path = ''/'', c_secure = False\<rparr>"

lemma parse_domain_cookie:
  "parse_set_cookie example_psl 0 ''sid=1; Domain=amazonaws.com'' ''www.amazonaws.com'' ''/'' = Done (Some (domain_cookie, False))"
proof -
  have a: "cookie_attr \<lparr>ca_domain = None, ca_path = None, ca_secure = False, ca_max_age = None, ca_expires = None\<rparr>
      '' Domain=amazonaws.com'' = Done \<lparr>ca_domain = Some ''amazonaws.com'', ca_path = None, ca_secure = False,
        ca_max_age = None, ca_expires = None\<rparr>" by code_simp
  have t: "trim ''sid=1'' = ''sid=1''" "trim ''sid'' = ''sid''" "trim ''1'' = ''1''" "default_path ''/'' = ''/''" by code_simp+
  show ?thesis using widen_across_registrable by (simp add: parse_set_cookie_def a t cookie_expired_def on_done_def)
qed

lemma parse_own_cookie:
  "parse_set_cookie example_psl 0 ''own=2'' ''www.amazonaws.com'' ''/'' = Done (Some (own_cookie, False))"
proof -
  have t: "trim ''own=2'' = ''own=2''" "trim ''own'' = ''own''" "trim ''2'' = ''2''" "default_path ''/'' = ''/''" by code_simp+
  show ?thesis by (simp add: parse_set_cookie_def t cookie_expired_def cookie_scope_def on_done_def)
qed

lemma chain_cookie_step:
  "chain_store example_psl 0 (with_caller_cookies []) chain_headers (chain_uri ''www.amazonaws.com'') =
     Done (\<lparr>cookies = [domain_cookie, own_cookie], caller_names = []\<rparr>, \<lparr>caller_owned = [], over_limit = []\<rparr>)"
proof -
  have h: "canonical_host ''www.amazonaws.com'' = ''www.amazonaws.com''"
    "eq_ignore_ascii_case ''Set-Cookie'' ''set-cookie''" "\<not> eq_ignore_ascii_case ''location'' ''set-cookie''" by code_simp+
  have s: "store_cookie (with_caller_cookies []) \<lparr>caller_owned = [], over_limit = []\<rparr> domain_cookie False =
      (\<lparr>cookies = [domain_cookie], caller_names = []\<rparr>, \<lparr>caller_owned = [], over_limit = []\<rparr>)"
    "store_cookie \<lparr>cookies = [domain_cookie], caller_names = []\<rparr> \<lparr>caller_owned = [], over_limit = []\<rparr> own_cookie False =
      (\<lparr>cookies = [domain_cookie, own_cookie], caller_names = []\<rparr>, \<lparr>caller_owned = [], over_limit = []\<rparr>)"
    by (simp_all add: store_cookie_def with_caller_cookies_def same_cookie_def cookie_size_def cookie_limits chain_bytes_def)
  show ?thesis
    by (simp add: chain_store_def chain_uri_def chain_headers_def h parse_domain_cookie parse_own_cookie on_done_def s)
qed

lemma chain_uri_scheme [simp]: "u_scheme (chain_uri h) = Some ''http''"
  by (simp add: chain_uri_def)

text \<open>The host-only cookie stays behind.\<close>

lemma chain_header_step:
  "header_for \<lparr>cookies = [domain_cookie, own_cookie], caller_names = []\<rparr> (chain_uri ''shop.amazonaws.com'') = Some ''sid=1''"
proof -
  have h: "canonical_host ''shop.amazonaws.com'' = ''shop.amazonaws.com''" by code_simp
  have "domain_matches ''shop.amazonaws.com'' ''amazonaws.com''"
    by (simp add: domain_matches_def ends_with_def parse_ip_first to_digit_def)
  then show ?thesis by (simp add: header_for_def chain_uri_def h cookie_applies_def path_matches_def)
qed

text \<open>So the loop goes on with the first cookie, in a request to a host that did not set it.\<close>

lemma cookie_crosses:
  "\<exists>lp cache. hop_path chain_env chain_net chain_config (chain_uri ''www.amazonaws.com'') Map.empty ()
       [(chain_uri ''www.amazonaws.com'', chain_headers)] lp cache () \<and>
     lp_uri lp = chain_uri ''shop.amazonaws.com'' \<and> lp_cookies lp = Some ''sid=1'' \<and>
     (\<exists>r. build_request (e_http chain_env) (lp_uri lp) chain_config False False (lp_cookies lp) = Inr r \<and>
        cookie_lines r = [(''Cookie'', ''sid=1'')])"
proof -
  let ?u = "chain_uri ''www.amazonaws.com''" and ?v = "chain_uri ''shop.amazonaws.com''"
  let ?lp = "initial_loop chain_config ?u" and ?m = "Direct (tls_key_of chain_config)"
  let ?resp = "\<lparr>sr_status = 302, sr_headers = chain_headers, sr_body = [], sr_location = Some ''shop.amazonaws.com'', sr_decode_error = None\<rparr>"
  have lp: "lp_uri ?lp = ?u" "lp_cookies ?lp = None" "lp_jar ?lp = Some (with_caller_cookies [])" "lp_hops ?lp = 0" "lp_chain ?lp = []"
    by (simp_all add: initial_loop_def initial_jar_def caller_cookie_names_def unwrap_or_def)
  have mode: "conn_mode_for (e_http chain_env) chain_config ?u = Inr ?m"
    by (simp add: conn_mode_for_def effective_proxy_def chain_config_def example_config_def config_new_def Let_def)
  obtain cached cache where c: "get_or_build chain_env chain_config ?m Map.empty = Inr (cached, cache)"
    by (simp add: get_or_build_def connector_new_def build_ssl_def should_verify_certs_def set_version_def check_def
      Let_def chain_config_def example_config_def config_new_def example_openssl_def unwrap_or_def)
  obtain cache' where x: "hop_exchange chain_env chain_net chain_config (lp_uri ?lp) (lp_cookies ?lp) Map.empty () =
      (Inr (?resp, Some ?m), cache', ())"
    by (simp add: hop_exchange_def lp mode [simplified] c dispatch_request_def build_request_def Let_def respond_def parse_response_def
        read_body_def max_body_def decode_body_def content_encoding_def header_values_def location_header_def
        max_body_def unwrap_or_def chain_headers_def)
  have plain: "sanitize_uri ''shop.amazonaws.com'' = ''shop.amazonaws.com''" by code_simp
  obtain lp' where f: "follow_redirect chain_env chain_config (n_now chain_net ()) ?resp (peer_ip_of_hop cache' (Some ?m) (lp_uri ?lp)) ?lp = Inr lp'"
    "lp_uri lp' = ?v" "lp_cookies lp' = Some ''sid=1''"
    using chain_header_step
    by (simp add: follow_redirect_def lp ok_or_def resolve_redirect_def plain follow_cookies_def Let_def chain_cookie_step
      del: sanitize_uri.simps)
  have "hop_path chain_env chain_net chain_config ?u Map.empty () ([] @ [(lp_uri ?lp, sr_headers ?resp)]) lp' cache' ()"
    by (rule hop_path.follow [OF hop_path.start x _ _ f(1)]) (simp_all add: is_redirect_def)
  moreover have "eq_ignore_ascii_case ''Cookie'' ''cookie''" "\<not> eq_ignore_ascii_case ''User-Agent'' ''cookie''"
    "\<not> eq_ignore_ascii_case ''Accept-Encoding'' ''cookie''" by code_simp+
  ultimately show ?thesis
    by (intro exI [of _ lp'] exI [of _ cache'])
       (simp add: f(2,3) lp build_request_def request_headers_def has_header_def cookie_lines_def unwrap_or_def example_lib_def)
qed

end
