(* ===== verification/Connection_Stream.thy ===== *)
theory Connection_Stream
  imports Tls_Setup
begin

text \<open>
  The streams under the pooled clients, \<^verbatim>\<open>src/client/hyper.rs\<close>: \<open>ConnectionStream\<close>, which is a TCP stream
  or a TLS stream with what ALPN chose and forwards every poll to it; \<open>DirectSender\<close>; and the OpenSSL
  providers, loaded once. The streams' own polls and the senders are parameters: a poll gives
  \<open>Ready\<close> with a result or \<open>Pending\<close>.
\<close>

section \<open>The stream\<close>

datatype 'a poll = Pending | Ready "string + 'a"

record 's async_io =
  io_read :: "nat \<Rightarrow> 's \<Rightarrow> bytes poll \<times> 's"
  io_write :: "bytes \<Rightarrow> 's \<Rightarrow> nat poll \<times> 's"
  io_flush :: "'s \<Rightarrow> unit poll \<times> 's"
  io_shutdown :: "'s \<Rightarrow> unit poll \<times> 's"

datatype ('t, 's) connection_stream = Plain 't | Tls 's bool

definition forward :: "('t \<Rightarrow> 'r \<times> 't) \<Rightarrow> ('s \<Rightarrow> 'r \<times> 's) \<Rightarrow> ('t, 's) connection_stream \<Rightarrow> 'r \<times> ('t, 's) connection_stream" where
  "forward f g c =
     (case c of
        Plain tcp \<Rightarrow> (case f tcp of (r, tcp) \<Rightarrow> (r, Plain tcp))
      | Tls stream alpn_h2 \<Rightarrow> (case g stream of (r, stream) \<Rightarrow> (r, Tls stream alpn_h2)))"

definition poll_read :: "'t async_io \<Rightarrow> 's async_io \<Rightarrow> nat \<Rightarrow> ('t, 's) connection_stream \<Rightarrow> bytes poll \<times> ('t, 's) connection_stream" where
  "poll_read tcp tls n = forward (io_read tcp n) (io_read tls n)"

definition poll_write :: "'t async_io \<Rightarrow> 's async_io \<Rightarrow> bytes \<Rightarrow> ('t, 's) connection_stream \<Rightarrow> nat poll \<times> ('t, 's) connection_stream" where
  "poll_write tcp tls buf = forward (io_write tcp buf) (io_write tls buf)"

definition poll_flush :: "'t async_io \<Rightarrow> 's async_io \<Rightarrow> ('t, 's) connection_stream \<Rightarrow> unit poll \<times> ('t, 's) connection_stream" where
  "poll_flush tcp tls = forward (io_flush tcp) (io_flush tls)"

definition poll_shutdown :: "'t async_io \<Rightarrow> 's async_io \<Rightarrow> ('t, 's) connection_stream \<Rightarrow> unit poll \<times> ('t, 's) connection_stream" where
  "poll_shutdown tcp tls = forward (io_shutdown tcp) (io_shutdown tls)"

text \<open>\<open>connected\<close>: whether hyper is told that HTTP/2 was negotiated.\<close>

definition connected_h2 :: "('t, 's) connection_stream \<Rightarrow> bool" where
  "connected_h2 c = (case c of Tls _ alpn_h2 \<Rightarrow> alpn_h2 | Plain _ \<Rightarrow> False)"

text \<open>The stream that a connector call leaves, over the socket and what the handshake made of it.\<close>

definition stream_of :: "connection \<Rightarrow> 't \<Rightarrow> 's \<Rightarrow> ('t, 's) connection_stream" where
  "stream_of c tcp tls = (case c of PlainConn \<Rightarrow> Plain tcp | TlsConn conf alpn_h2 \<Rightarrow> Tls tls alpn_h2)"

section \<open>Senders of a direct request\<close>

datatype ('a, 'b) direct_sender = Http1 'a | Http2 'b

definition send_request ::
  "('q \<Rightarrow> 'a \<Rightarrow> 'r \<times> 'a) \<Rightarrow> ('q \<Rightarrow> 'b \<Rightarrow> 'r \<times> 'b) \<Rightarrow> 'q \<Rightarrow> ('a, 'b) direct_sender \<Rightarrow> 'r \<times> ('a, 'b) direct_sender" where
  "send_request h1 h2 request sender =
     (case sender of
        Http1 s \<Rightarrow> (case h1 request s of (r, s) \<Rightarrow> (r, Http1 s))
      | Http2 s \<Rightarrow> (case h2 request s of (r, s) \<Rightarrow> (r, Http2 s)))"

section \<open>The providers\<close>

text \<open>
  A \<open>Once\<close> that has run does not run again; one whose closure panicked makes every later call panic.
  \<open>load\<close> says whether a provider can be loaded; the loaded ones are kept for good.
\<close>

datatype once = Incomplete | Complete | Poisoned

definition ensure_legacy_provider ::
  "(string \<Rightarrow> bool) \<Rightarrow> once \<times> string list \<Rightarrow> unit outcome \<times> once \<times> string list" where
  "ensure_legacy_provider load = (\<lambda>(init, loaded).
     case init of
       Complete \<Rightarrow> (Done (), init, loaded)
     | Poisoned \<Rightarrow> (Panic, init, loaded)
     | Incomplete \<Rightarrow>
         if load ''default'' \<and> load ''legacy'' then (Done (), Complete, loaded @ [''default'', ''legacy''])
         else (Panic, Poisoned, loaded))"

fun ensure_calls :: "(nat \<Rightarrow> string \<Rightarrow> bool) \<Rightarrow> nat \<Rightarrow> unit outcome list \<times> once \<times> string list" where
  "ensure_calls load 0 = ([], Incomplete, [])"
| "ensure_calls load (Suc n) = (case ensure_calls load n of (rs, st) \<Rightarrow>
     case ensure_legacy_provider (load n) st of (r, st) \<Rightarrow> (rs @ [r], st))"

text \<open>However often it is called, the providers are loaded once, and all calls end like the first.\<close>

lemma providers_loaded_once:
  "ensure_calls load (Suc n) =
     (if load 0 ''default'' \<and> load 0 ''legacy'' then (replicate (Suc n) (Done ()), Complete, [''default'', ''legacy''])
      else (replicate (Suc n) Panic, Poisoned, []))"
proof (induction n)
  case (Suc n)
  show ?case unfolding ensure_calls.simps(2) [of load "Suc n"] Suc.IH
    by (simp add: ensure_legacy_provider_def replicate_append_same)
qed (simp add: ensure_legacy_provider_def)

section \<open>A stream is what is under it\<close>

datatype io_op = ReadOp nat | WriteOp bytes | FlushOp | ShutdownOp

datatype io_result = ReadGot "bytes poll" | WriteGot "nat poll" | FlushGot "unit poll" | ShutdownGot "unit poll"

definition io_call :: "'s async_io \<Rightarrow> io_op \<Rightarrow> 's \<Rightarrow> io_result \<times> 's" where
  "io_call io op s =
     (case op of
        ReadOp n \<Rightarrow> map_prod ReadGot id (io_read io n s)
      | WriteOp b \<Rightarrow> map_prod WriteGot id (io_write io b s)
      | FlushOp \<Rightarrow> map_prod FlushGot id (io_flush io s)
      | ShutdownOp \<Rightarrow> map_prod ShutdownGot id (io_shutdown io s))"

definition connection_io :: "'t async_io \<Rightarrow> 's async_io \<Rightarrow> ('t, 's) connection_stream async_io" where
  "connection_io tcp tls = \<lparr>io_read = poll_read tcp tls, io_write = poll_write tcp tls,
     io_flush = poll_flush tcp tls, io_shutdown = poll_shutdown tcp tls\<rparr>"

fun io_run :: "'s async_io \<Rightarrow> io_op list \<Rightarrow> 's \<Rightarrow> io_result list \<times> 's" where
  "io_run io [] s = ([], s)"
| "io_run io (op # ops) s = (case io_call io op s of (r, s) \<Rightarrow> case io_run io ops s of (rs, s) \<Rightarrow> (r # rs, s))"

lemma connection_call:
  "io_call (connection_io tcp tls) op (Plain t) = map_prod id Plain (io_call tcp op t)"
  "io_call (connection_io tcp tls) op (Tls s h2) = map_prod id (\<lambda>s. Tls s h2) (io_call tls op s)"
  by (cases op; simp add: io_call_def connection_io_def poll_read_def poll_write_def poll_flush_def poll_shutdown_def
      forward_def split: prod.split)+

text \<open>
  Any sequence of polls gives on the connection what it gives on the stream inside, and never touches the
  ALPN outcome; hyper is told of HTTP/2 exactly when the handshake of a TLS target chose it.
\<close>

theorem connection_stream_transparent:
  "io_run (connection_io tcp tls) ops (Plain t) = map_prod id Plain (io_run tcp ops t) \<and>
   io_run (connection_io tcp tls) ops (Tls s h2) = map_prod id (\<lambda>s. Tls s h2) (io_run tls ops s)"
proof
  show "io_run (connection_io tcp tls) ops (Plain t) = map_prod id Plain (io_run tcp ops t)"
    by (induction ops arbitrary: t) (simp_all add: connection_call split_beta)
  show "io_run (connection_io tcp tls) ops (Tls s h2) = map_prod id (\<lambda>s. Tls s h2) (io_run tls ops s)"
    by (induction ops arbitrary: s) (simp_all add: connection_call split_beta)
qed

lemma connected_h2_iff:
  assumes "connector_call os cn u tcp hs slots = (Inr c, slots')"
  shows "connected_h2 (stream_of c t s) \<longleftrightarrow> u_scheme u = Some ''https'' \<and>
    (\<exists>conf cert. ssl_conf_for os (cn_ssl cn) (unwrap_or (u_host u) []) = Inr conf \<and>
       hs conf = HandshakeDone cert (Some (str_bytes ''h2'')))"
  using assms
  by (auto simp: connector_call_def Let_def connected_h2_def stream_of_def split: sum.splits if_splits handshake.splits)

end
