(* ===== verification/Test_Client.thy ===== *)
theory Test_Client
  imports Batch
begin

text \<open>
  The test clients, \<^verbatim>\<open>src/client/mock.rs\<close>, and what a batch over the counting one shows. Its two atomic
  counters are shared by all tasks, and each access is a step of its own; \<open>current\<close>, the local
  variable of a call, stays with the task. Which task moves next is up to the steps.
\<close>

section \<open>Clients\<close>

record test_client =
  tc_status :: u16
  tc_body :: string
  tc_headers :: header_list
  tc_error :: "string option"
  tc_delay :: "nat option"
  tc_concurrent :: u32
  tc_peak :: u32
  tc_echo :: bool

definition test_new :: "u16 \<Rightarrow> string \<Rightarrow> test_client" where
  "test_new status body = \<lparr>tc_status = status, tc_body = body, tc_headers = [], tc_error = None, tc_delay = None,
     tc_concurrent = 0, tc_peak = 0, tc_echo = False\<rparr>"

definition test_with_error :: "string \<Rightarrow> test_client" where
  "test_with_error message = \<lparr>tc_status = 0, tc_body = [], tc_headers = [], tc_error = Some message, tc_delay = None,
     tc_concurrent = 0, tc_peak = 0, tc_echo = False\<rparr>"

definition test_with_delay :: "nat \<Rightarrow> test_client \<Rightarrow> test_client" where
  "test_with_delay delay c = c\<lparr>tc_delay := Some delay\<rparr>"

definition test_with_headers :: "header_list \<Rightarrow> test_client \<Rightarrow> test_client" where
  "test_with_headers headers c = c\<lparr>tc_headers := headers\<rparr>"

definition test_with_echo :: "test_client \<Rightarrow> test_client" where
  "test_with_echo c = c\<lparr>tc_echo := True\<rparr>"

definition test_peak_concurrent :: "test_client \<Rightarrow> u32" where
  "test_peak_concurrent c = tc_peak c"

section \<open>One call, part by part\<close>

definition canned_response :: "request_config \<Rightarrow> u16 \<Rightarrow> header_list \<Rightarrow> bytes \<Rightarrow> response" where
  "canned_response config status headers body =
     \<lparr>rs_url = rc_url config, rs_status = status, rs_headers = headers, rs_body_bytes = body, rs_elapsed_ms = 0,
      rs_redirect_chain = [], rs_cert_info = None, rs_peer_ip = None, rs_request_url = rc_url config,
      rs_request_method = config_method config, rs_debug_log = [], rs_decode_error = None, rs_body_cache = None,
      rs_raw_headers_cache = None, rs_cookies_cache = None, rs_hash_cache = None\<rparr>"

text \<open>
  \<open>fetch_add\<close> and \<open>fetch_sub\<close> wrap; \<open>current\<close> is the count with this call in it. Its own \<open>+ 1\<close> is left
  unchecked: it could overflow only with \<open>2^32\<close> calls in the client at once.
\<close>

definition test_enter :: "test_client \<Rightarrow> u32 \<times> test_client" where
  "test_enter c = (tc_concurrent c + 1, c\<lparr>tc_concurrent := tc_concurrent c + 1\<rparr>)"

definition test_note :: "u32 \<Rightarrow> test_client \<Rightarrow> test_client" where
  "test_note current c = c\<lparr>tc_peak := max (tc_peak c) current\<rparr>"

definition test_leave :: "test_client \<Rightarrow> test_client" where
  "test_leave c = c\<lparr>tc_concurrent := tc_concurrent c - 1\<rparr>"

definition test_body :: "test_client \<Rightarrow> request_config \<Rightarrow> bytes" where
  "test_body c config =
     str_bytes (if tc_echo c
       then ''method='' @ config_method config @ '' body='' @ (case rc_body config of Some b \<Rightarrow> body_text b | None \<Rightarrow> []) @
         '' headers='' @ show_nat (case rc_headers config of Some hs \<Rightarrow> length hs | None \<Rightarrow> 0)
       else tc_body c)"

definition test_result :: "test_client \<Rightarrow> request_config \<Rightarrow> client_error + response" where
  "test_result c config =
     (case tc_error c of
        Some msg \<Rightarrow> Inl (err_connection msg)
      | None \<Rightarrow> Inr (canned_response config (tc_status c) (tc_headers c) (test_body c config)))"

text \<open>The call alone, with the time it sleeps.\<close>

definition test_send :: "test_client \<Rightarrow> request_config \<Rightarrow> (client_error + response) \<times> nat \<times> test_client" where
  "test_send c config =
     (if tc_error c \<noteq> None then (test_result c config, 0, c)
      else case test_enter c of (current, c1) \<Rightarrow>
        (test_result c config, unwrap_or (tc_delay c) 0, test_leave (test_note current c1)))"

section \<open>The other clients\<close>

definition kind_send :: "error_kind \<Rightarrow> string \<Rightarrow> request_config \<Rightarrow> client_error + response" where
  "kind_send kind message config = Inl \<lparr>ce_message = message, ce_kind = kind\<rparr>"

record sequence_client =
  sq_call_count :: u32
  sq_fail_count :: u32
  sq_fail_kind :: error_kind
  sq_success_status :: u16

definition sequence_new :: "u32 \<Rightarrow> error_kind \<Rightarrow> u16 \<Rightarrow> sequence_client" where
  "sequence_new fail_count fail_kind success_status =
     \<lparr>sq_call_count = 0, sq_fail_count = fail_count, sq_fail_kind = fail_kind, sq_success_status = success_status\<rparr>"

definition total_calls :: "sequence_client \<Rightarrow> u32" where
  "total_calls c = sq_call_count c"

definition sequence_send :: "sequence_client \<Rightarrow> request_config \<Rightarrow> (client_error + response) \<times> sequence_client" where
  "sequence_send c config =
     (let nth_call = sq_call_count c; c' = c\<lparr>sq_call_count := nth_call + 1\<rparr> in
      if nth_call < sq_fail_count c
      then (Inl \<lparr>ce_message = ''mock error on call '' @ show_nat (unat nth_call), ce_kind = sq_fail_kind c\<rparr>, c')
      else (Inr (canned_response config (sq_success_status c) [] (str_bytes ''ok'')), c'))"

fun sequence_sends :: "sequence_client \<Rightarrow> request_config list \<Rightarrow> (client_error + response) list" where
  "sequence_sends c [] = []"
| "sequence_sends c (r # rs) = (case sequence_send c r of (x, c) \<Rightarrow> x # sequence_sends c rs)"

lemma sequence_sends_nth:
  assumes "i < length rs" "unat (sq_call_count c) + length rs \<le> 2 ^ 32"
  shows "sequence_sends c rs ! i =
    (if unat (sq_call_count c) + i < unat (sq_fail_count c)
     then Inl \<lparr>ce_message = ''mock error on call '' @ show_nat (unat (sq_call_count c) + i), ce_kind = sq_fail_kind c\<rparr>
     else Inr (canned_response (rs ! i) (sq_success_status c) [] (str_bytes ''ok'')))"
  using assms
proof (induction rs arbitrary: i c)
  case (Cons r rs)
  let ?c = "c\<lparr>sq_call_count := sq_call_count c + 1\<rparr>"
  have snd: "snd (sequence_send c r) = ?c" by (simp add: sequence_send_def Let_def)
  show ?case
  proof (cases i)
    case 0
    then show ?thesis by (simp add: sequence_send_def Let_def word_less_nat_alt split: prod.split)
  next
    case (Suc j)
    have "unat (sq_call_count c + 1) = unat (sq_call_count c) + 1"
      using Cons.prems Suc by (simp add: unat_word_ariths)
    then show ?thesis using Cons.IH [of j ?c] Cons.prems Suc snd by (simp add: split_beta)
  qed
qed simp

text \<open>The first calls fail, as many as asked for, and from then on every call succeeds.\<close>

lemma sequence_fails_first:
  "length rs \<le> 2 ^ 32 \<Longrightarrow> length (sequence_sends (sequence_new n k s) rs) = length rs \<Longrightarrow> i < length rs \<Longrightarrow>
     isl (sequence_sends (sequence_new n k s) rs ! i) \<longleftrightarrow> i < unat n"
  by (simp add: sequence_sends_nth sequence_new_def)

section \<open>A batch over the counting client\<close>

text \<open>Where the call of a task is: before its first access, with its local count, or about to answer.\<close>

datatype call_phase = Idle | Called | Counted u32 | Resting u32 | Left

record test_run =
  tr_batch :: batch
  tr_phases :: "nat \<Rightarrow> call_phase"
  tr_client :: test_client

definition test_start :: "nat \<Rightarrow> test_client \<Rightarrow> test_run" where
  "test_start concurrency c = \<lparr>tr_batch = batch_start concurrency, tr_phases = (\<lambda>_. Idle), tr_client = c\<rparr>"

definition set_phase :: "nat \<Rightarrow> call_phase \<Rightarrow> test_run \<Rightarrow> test_run" where
  "set_phase i p s = s\<lparr>tr_phases := (tr_phases s)(i := p)\<rparr>"

lemma set_phase_simps [simp]:
  "tr_batch (set_phase i p s) = tr_batch s" "tr_client (set_phase i p s) = tr_client s"
  "tr_phases (set_phase i p s) = (tr_phases s)(i := p)"
  by (simp_all add: set_phase_def)

text \<open>
  The batch's own steps, and those of a call: it is let through by the semaphore, counts itself, notes
  the peak, rests, takes itself out and answers. A client with an error answers at once.
\<close>

inductive test_step :: "request_config list \<Rightarrow> test_run \<Rightarrow> test_run \<Rightarrow> bool" for configs where
  dispatch: "length (ba_tasks (tr_batch s)) < length configs \<Longrightarrow>
    test_step configs s (s\<lparr>tr_batch := (tr_batch s)\<lparr>ba_tasks := ba_tasks (tr_batch s) @ [Queued]\<rparr>\<rparr>)"
| permit: "i < length (ba_tasks (tr_batch s)) \<Longrightarrow> ba_tasks (tr_batch s) ! i = Queued \<Longrightarrow> 0 < ba_free (tr_batch s) \<Longrightarrow>
    test_step configs s (set_phase i Called (s\<lparr>tr_batch := (tr_batch s)\<lparr>ba_tasks := (ba_tasks (tr_batch s))[i := InFlight],
      ba_free := ba_free (tr_batch s) - 1\<rparr>\<rparr>))"
| count: "tr_phases s i = Called \<Longrightarrow> tc_error (tr_client s) = None \<Longrightarrow> test_enter (tr_client s) = (current, c) \<Longrightarrow>
    test_step configs s (set_phase i (Counted current) (s\<lparr>tr_client := c\<rparr>))"
| note_peak: "tr_phases s i = Counted current \<Longrightarrow>
    test_step configs s (set_phase i (Resting current) (s\<lparr>tr_client := test_note current (tr_client s)\<rparr>))"
| leave: "tr_phases s i = Resting current \<Longrightarrow>
    test_step configs s (set_phase i Left (s\<lparr>tr_client := test_leave (tr_client s)\<rparr>))"
| answer: "i < length (ba_tasks (tr_batch s)) \<Longrightarrow> ba_tasks (tr_batch s) ! i = InFlight \<Longrightarrow>
    tr_phases s i = (if tc_error (tr_client s) = None then Left else Called) \<Longrightarrow>
    test_step configs s (set_phase i Idle (s\<lparr>tr_batch := (tr_batch s)\<lparr>ba_tasks := (ba_tasks (tr_batch s))[i :=
        Finished \<lparr>br_url = rc_url (configs ! i), br_result = map_sum Client id (test_result (tr_client s) (configs ! i))\<rparr>],
      ba_free := ba_free (tr_batch s) + 1\<rparr>\<rparr>))"
| collect: "length (ba_tasks (tr_batch s)) = length configs \<Longrightarrow> length (ba_results (tr_batch s)) < length configs \<Longrightarrow>
    joined (ba_tasks (tr_batch s) ! length (ba_results (tr_batch s))) = Some r \<Longrightarrow>
    test_step configs s (s\<lparr>tr_batch := (tr_batch s)\<lparr>ba_results := ba_results (tr_batch s) @ [r]\<rparr>\<rparr>)"

definition test_reach :: "request_config list \<Rightarrow> nat \<Rightarrow> test_client \<Rightarrow> test_run \<Rightarrow> bool" where
  "test_reach configs concurrency c s \<longleftrightarrow> (test_step configs)\<^sup>*\<^sup>* (test_start concurrency c) s"

text \<open>Seen from the batch, every step is one of the batch's or none.\<close>

lemma test_step_batch: "test_step configs s s' \<Longrightarrow> (batch_step configs)\<^sup>*\<^sup>* (tr_batch s) (tr_batch s')"
proof (induction rule: test_step.induct)
  case (answer i s)
  then show ?case using batch_step.sent [of i "tr_batch s"] by (intro r_into_rtranclp) simp
next
  case (permit i s)
  then show ?case using batch_step.permit [of i "tr_batch s"] by (intro r_into_rtranclp) simp
qed (simp_all add: batch_step.dispatch batch_step.permit batch_step.collect r_into_rtranclp)

lemma test_reach_batch: "test_reach configs concurrency c s \<Longrightarrow> batch_reach configs concurrency (tr_batch s)"
  unfolding test_reach_def batch_reach_def
proof (induction rule: rtranclp_induct)
  case base
  show ?case by (simp add: test_start_def)
qed (use test_step_batch in \<open>auto intro: rtranclp_trans\<close>)

section \<open>What the counters say\<close>

definition local_count :: "call_phase \<Rightarrow> u32 option" where
  "local_count p = (case p of Counted v \<Rightarrow> Some v | Resting v \<Rightarrow> Some v | _ \<Rightarrow> None)"

definition is_resting :: "call_phase \<Rightarrow> bool" where
  "is_resting p = (case p of Resting _ \<Rightarrow> True | _ \<Rightarrow> False)"

lemma phase_simps [simp]:
  "local_count Idle = None" "local_count Called = None" "local_count (Counted v) = Some v"
  "local_count (Resting v) = Some v" "local_count Left = None"
  "\<not> is_resting Idle" "\<not> is_resting Called" "\<not> is_resting (Counted v)" "is_resting (Resting v)" "\<not> is_resting Left"
  by (simp_all add: local_count_def is_resting_def)

text \<open>
  \<open>order\<close> lists the calls that have counted themselves and not yet left, in the order in which they did.
  The \<open>k\<close>-th of them found at least the \<open>k\<close> before it.
\<close>

definition order_inv :: "(nat \<Rightarrow> call_phase) \<Rightarrow> nat list \<Rightarrow> bool" where
  "order_inv phases order \<longleftrightarrow> distinct order \<and> (\<forall>i. i \<in> set order \<longleftrightarrow> local_count (phases i) \<noteq> None)"

definition found_inv :: "(nat \<Rightarrow> nat) \<Rightarrow> nat list \<Rightarrow> bool" where
  "found_inv f order \<longleftrightarrow> (\<forall>k < length order. k < f (order ! k))"

lemma found_inv_filter: "\<forall>k < length xs. d + k < f (xs ! k) \<Longrightarrow> \<forall>k < length (filter P xs). d + k < (f (filter P xs ! k) :: nat)"
proof (induction xs arbitrary: d)
  case (Cons x xs)
  have rest: "\<forall>k < length xs. Suc d + k < f (xs ! k)" using Cons.prems by (metis Suc_less_eq add_Suc_shift length_Cons nth_Cons_Suc)
  show ?case
  proof (cases "P x")
    case True
    show ?thesis
    proof (intro allI impI)
      fix k assume "k < length (filter P (x # xs))"
      then show "d + k < f (filter P (x # xs) ! k)"
        using True Cons.prems Cons.IH [OF rest] by (cases k) force+
    qed
  next
    case False
    with Cons.IH [OF rest] show ?thesis by (auto dest: Suc_lessD)
  qed
qed simp

definition live_inv :: "test_run \<Rightarrow> bool" where
  "live_inv s \<longleftrightarrow> (\<forall>i. tr_phases s i \<noteq> Idle \<longrightarrow> i < length (ba_tasks (tr_batch s)) \<and> ba_tasks (tr_batch s) ! i = InFlight)"

lemma test_step_live: "test_step configs s s' \<Longrightarrow> live_inv s \<Longrightarrow> live_inv s'"
proof (induction rule: test_step.induct)
  case (dispatch s)
  then show ?case by (auto simp: live_inv_def nth_append)
next
  case (permit i s)
  then show ?case by (auto simp: live_inv_def nth_list_update)
next
  case (answer i s)
  then show ?case by (auto simp: live_inv_def nth_list_update)
next
  case (count s i current c)
  then have "i < length (ba_tasks (tr_batch s)) \<and> ba_tasks (tr_batch s) ! i = InFlight" by (simp add: live_inv_def)
  with count show ?case by (simp add: live_inv_def)
next
  case (note_peak s i current)
  then have "i < length (ba_tasks (tr_batch s)) \<and> ba_tasks (tr_batch s) ! i = InFlight" by (simp add: live_inv_def)
  with note_peak show ?case by (simp add: live_inv_def)
next
  case (leave s i current)
  then have "i < length (ba_tasks (tr_batch s)) \<and> ba_tasks (tr_batch s) ! i = InFlight" by (simp add: live_inv_def)
  with leave show ?case by (simp add: live_inv_def)
qed (simp add: live_inv_def)

text \<open>The client answers as it did at the start, and so do all tasks that have ended.\<close>

definition answer_inv :: "request_config list \<Rightarrow> test_client \<Rightarrow> test_run \<Rightarrow> bool" where
  "answer_inv configs c s \<longleftrightarrow> test_result (tr_client s) = test_result c \<and>
     (\<forall>i < length (ba_tasks (tr_batch s)). case ba_tasks (tr_batch s) ! i of
        Finished r \<Rightarrow> r = \<lparr>br_url = rc_url (configs ! i), br_result = map_sum Client id (test_result c (configs ! i))\<rparr>
      | Crashed e \<Rightarrow> False | _ \<Rightarrow> True)"

lemma test_result_counters:
  "test_result (c\<lparr>tc_concurrent := n\<rparr>) = test_result c" "test_result (c\<lparr>tc_peak := n\<rparr>) = test_result c"
  by (rule ext; simp add: test_result_def test_body_def split: option.split)+

lemma test_step_answers: "test_step configs s s' \<Longrightarrow> answer_inv configs c s \<Longrightarrow> answer_inv configs c s'"
proof (induction rule: test_step.induct)
  case (answer i s)
  then show ?case by (auto simp: answer_inv_def nth_list_update split: if_splits)
qed (auto simp: answer_inv_def nth_append nth_list_update test_enter_def test_note_def test_leave_def test_result_counters
  split: task.splits)

text \<open>The counters, with at most \<open>m\<close> requests in flight.\<close>

definition count_inv :: "nat \<Rightarrow> test_run \<Rightarrow> nat list \<Rightarrow> bool" where
  "count_inv m s order \<longleftrightarrow> order_inv (tr_phases s) order \<and> tc_concurrent (tr_client s) = of_nat (length order) \<and>
     (m < 2 ^ 32 \<longrightarrow> found_inv (\<lambda>i. unat (the (local_count (tr_phases s i)))) order) \<and>
     (\<forall>i v. local_count (tr_phases s i) = Some v \<longrightarrow> unat v \<le> m) \<and> unat (tc_peak (tr_client s)) \<le> m \<and>
     (\<forall>i v. tr_phases s i = Resting v \<longrightarrow> v \<le> tc_peak (tr_client s))"

lemma order_in_flight:
  assumes "order_inv (tr_phases s) order" "live_inv s"
  shows "length order \<le> in_flight (ba_tasks (tr_batch s))"
proof -
  let ?ts = "ba_tasks (tr_batch s)"
  have "set order \<subseteq> {i. i < length ?ts \<and> ?ts ! i = InFlight}"
  proof
    fix i assume "i \<in> set order"
    then have "tr_phases s i \<noteq> Idle" using assms(1) by (auto simp: order_inv_def)
    with assms(2) show "i \<in> {i. i < length ?ts \<and> ?ts ! i = InFlight}" by (simp add: live_inv_def)
  qed
  from card_mono [OF _ this] show ?thesis
    using assms(1) by (simp add: order_inv_def distinct_card in_flight_def length_filter_conv_card)
qed

lemma count_inv_frame:
  assumes "count_inv m s order" "tr_client s' = tr_client s"
    and "\<And>i. local_count (tr_phases s' i) = local_count (tr_phases s i)" "\<And>i v. tr_phases s' i = Resting v \<Longrightarrow> tr_phases s i = Resting v"
  shows "count_inv m s' order"
  unfolding count_inv_def order_inv_def using assms(1) [unfolded count_inv_def order_inv_def] assms(2-4)
  by (simp only: assms(2,3)) blast

lemma count_inv_enter:
  assumes "count_inv m s order" "tr_phases s i = Called" "test_enter (tr_client s) = (current, c)"
    and s': "s' = set_phase i (Counted current) (s\<lparr>tr_client := c\<rparr>)" and le: "Suc (length order) \<le> m"
  shows "count_inv m s' (order @ [i])"
proof -
  have c: "c = tr_client s\<lparr>tc_concurrent := tc_concurrent (tr_client s) + 1\<rparr>" "current = tc_concurrent (tr_client s) + 1"
    using assms(3) by (auto simp: test_enter_def)
  have conc: "current = of_nat (Suc (length order))" using assms(1) by (simp add: c(2) count_inv_def)
  have i: "i \<notin> set order" using assms(1,2) by (simp add: count_inv_def order_inv_def)
  have order: "order_inv (tr_phases s') (order @ [i])"
    using assms(1) i by (auto simp: count_inv_def order_inv_def s')
  have cur: "unat current \<le> m" unfolding conc using le by (metis le_trans mod_less_eq_dividend unat_of_nat)
  have found: "found_inv (\<lambda>i. unat (the (local_count (tr_phases s' i)))) (order @ [i])" if "m < 2 ^ 32"
  proof -
    have u: "unat current = Suc (length order)" unfolding conc using le that by (simp only: unat_of_nat) simp
    have f: "found_inv (\<lambda>i. unat (the (local_count (tr_phases s i)))) order" using assms(1) that by (simp add: count_inv_def)
    show ?thesis unfolding found_inv_def
    proof (intro allI impI)
      fix k assume k: "k < length (order @ [i])"
      show "k < unat (the (local_count (tr_phases s' ((order @ [i]) ! k))))"
      proof (cases "k < length order")
        case True
        then have "order ! k \<noteq> i" using i nth_mem by fastforce
        with f True show ?thesis by (simp add: found_inv_def s' nth_append)
      next
        case False
        with k have "k = length order" by simp
        then show ?thesis by (simp add: s' u)
      qed
    qed
  qed
  show ?thesis using assms(1) order cur found conc by (auto simp: count_inv_def s' c(1) c(2) [symmetric])
qed

lemma count_inv_leave:
  assumes "count_inv m s order" "tr_phases s i = Resting current"
    and s': "s' = set_phase i Left (s\<lparr>tr_client := test_leave (tr_client s)\<rparr>)"
  shows "count_inv m s' (filter (\<lambda>j. j \<noteq> i) order)"
proof -
  let ?order = "filter (\<lambda>j. j \<noteq> i) order"
  have o: "distinct order" "i \<in> set order" using assms(1,2) by (simp_all add: count_inv_def order_inv_def)
  have "?order = remove1 i order" using o(1) by (simp add: distinct_remove1_removeAll removeAll_filter_not_eq neq_commute)
  then have len: "length order = Suc (length ?order)" using o(2) length_pos_if_in_set [OF o(2)] by (simp add: length_remove1)
  have order: "order_inv (tr_phases s') ?order" using assms(1) by (auto simp: count_inv_def order_inv_def s')
  have found: "found_inv (\<lambda>j. unat (the (local_count (tr_phases s' j)))) ?order" if "m < 2 ^ 32"
  proof -
    have "\<forall>k < length ?order. 0 + k < unat (the (local_count (tr_phases s (?order ! k))))"
      using assms(1) that by (intro found_inv_filter) (simp add: count_inv_def found_inv_def)
    moreover have "k < length ?order \<Longrightarrow> ?order ! k \<noteq> i" for k using nth_mem [of k ?order] by fastforce
    ultimately show ?thesis by (simp add: found_inv_def s')
  qed
  have "tc_concurrent (tr_client s) - 1 = of_nat (length ?order)" using assms(1) by (simp add: count_inv_def len)
  with order found show ?thesis using assms(1) by (auto simp: count_inv_def s' test_leave_def)
qed

lemma count_inv_note:
  assumes "count_inv m s order" "tr_phases s i = Counted current"
    and s': "s' = set_phase i (Resting current) (s\<lparr>tr_client := test_note current (tr_client s)\<rparr>)"
  shows "count_inv m s' order"
proof -
  have same: "local_count (tr_phases s' j) = local_count (tr_phases s j)" for j using assms(2) by (simp add: s')
  have "unat current \<le> m" using assms(1,2) unfolding count_inv_def by (metis phase_simps(3))
  then have "unat (max (tc_peak (tr_client s)) current) \<le> m" using assms(1) by (simp add: count_inv_def max_def)
  moreover have "v \<le> max (tc_peak (tr_client s)) current" if "tr_phases s' j = Resting v" for j v
    using assms(1) that by (cases "j = i") (auto simp: s' count_inv_def le_max_iff_disj)
  ultimately show ?thesis using assms(1) same by (simp add: count_inv_def order_inv_def s' test_note_def)
qed

lemma test_step_counts:
  assumes "test_step configs s s'" "count_inv m s order" "live_inv s" "live_inv s'" "in_flight (ba_tasks (tr_batch s')) \<le> m"
  shows "\<exists>order'. count_inv m s' order'"
  using assms
proof (induction rule: test_step.induct)
  case (permit i s)
  then have "tr_phases s i = Idle" by (auto simp: live_inv_def)
  with permit show ?case by (intro exI [of _ order], elim count_inv_frame) (auto split: if_splits)
next
  case (count s i current c)
  let ?s = "set_phase i (Counted current) (s\<lparr>tr_client := c\<rparr>)"
  have o: "order_inv (tr_phases s) order" using count.prems(1) by (simp add: count_inv_def)
  then have "order_inv (tr_phases ?s) (order @ [i])" using count.hyps(1) by (auto simp: order_inv_def)
  from order_in_flight [OF this count.prems(3)] count.prems(4) have "Suc (length order) \<le> m" by simp
  from count_inv_enter [OF count.prems(1) count.hyps(1,3) refl this] show ?case by blast
next
  case (note_peak s i current)
  from count_inv_note [OF note_peak.prems(1) note_peak.hyps refl] show ?case by blast
next
  case (leave s i current)
  from count_inv_leave [OF leave.prems(1) leave.hyps refl] show ?case by blast
next
  case (answer i s)
  then show ?case by (intro exI [of _ order], elim count_inv_frame) (auto split: if_splits)
qed (intro exI [of _ order], elim count_inv_frame, simp_all)+

lemma test_reach_inv:
  assumes "test_reach configs m c s" "tc_concurrent c = 0" "tc_peak c = 0"
  shows "live_inv s \<and> answer_inv configs c s \<and> (\<exists>order. count_inv m s order)"
  using assms(1) unfolding test_reach_def
proof (induction rule: rtranclp_induct)
  case base
  have "count_inv m (test_start m c) []"
    using assms(2,3) by (simp add: count_inv_def order_inv_def found_inv_def test_start_def)
  then show ?case by (auto simp: live_inv_def answer_inv_def test_start_def batch_start_def)
next
  case (step s s')
  then obtain order where inv: "live_inv s" "answer_inv configs c s" "count_inv m s order" by blast
  have "test_reach configs m c s'" using step.hyps by (simp add: test_reach_def)
  from test_reach_batch [OF this] have "in_flight (ba_tasks (tr_batch s')) \<le> m"
    by (intro batch_permits.bounded) (simp add: batch_reach_def)
  with step.hyps(2) inv test_step_live test_step_answers test_step_counts show ?case by metis
qed

section \<open>Properties\<close>

text \<open>
  The peak that the test client reports after a run is a peak of requests in flight: never more than the
  concurrency of the batch, however the accesses of the tasks to the counters interleave, and at
  least the number of calls that rest in it at once. A batch that is done has the client's canned answer for
  every configuration.
\<close>

theorem test_peak:
  assumes "test_reach configs m c s" "tc_concurrent c = 0" "tc_peak c = 0"
  shows "unat (test_peak_concurrent (tr_client s)) \<le> m \<and>
    (m < 2 ^ 32 \<longrightarrow> card {i. is_resting (tr_phases s i)} \<le> unat (test_peak_concurrent (tr_client s))) \<and>
    (batch_done configs (tr_batch s) \<longrightarrow> ba_results (tr_batch s) =
       map (\<lambda>config. \<lparr>br_url = rc_url config, br_result = map_sum Client id (test_result c config)\<rparr>) configs)"
proof -
  obtain order where inv: "live_inv s" "answer_inv configs c s" "count_inv m s order"
    using test_reach_inv [OF assms] by blast
  have "card {i. is_resting (tr_phases s i)} \<le> unat (tc_peak (tr_client s))" if m: "m < 2 ^ 32"
  proof -
    let ?f = "\<lambda>i. unat (the (local_count (tr_phases s i)))"
    let ?rest = "filter (\<lambda>i. is_resting (tr_phases s i)) order"
    have resting: "is_resting p \<longleftrightarrow> (\<exists>v. p = Resting v)" for p by (cases p) simp_all
    have o: "distinct order" "\<And>i. i \<in> set order \<longleftrightarrow> local_count (tr_phases s i) \<noteq> None"
      using inv(3) by (simp_all add: count_inv_def order_inv_def)
    have "{i. is_resting (tr_phases s i)} = set ?rest" using o(2) resting by fastforce
    then have card: "card {i. is_resting (tr_phases s i)} = length ?rest" using distinct_card [of ?rest] o(1) by simp
    show ?thesis
    proof (cases "length ?rest")
      case (Suc k)
      have "\<forall>k < length ?rest. 0 + k < ?f (?rest ! k)"
        using inv(3) m by (intro found_inv_filter) (simp add: count_inv_def found_inv_def)
      then have k: "k < ?f (?rest ! k)" using Suc by simp
      have "?rest ! k \<in> set ?rest" using Suc by (intro nth_mem) simp
      then obtain v where "tr_phases s (?rest ! k) = Resting v" using resting by auto
      moreover from this inv(3) have "v \<le> tc_peak (tr_client s)" by (auto simp: count_inv_def)
      ultimately show ?thesis using k Suc card by (simp add: word_le_nat_alt)
    qed (simp add: card)
  qed
  moreover have "ba_results (tr_batch s) =
      map (\<lambda>config. \<lparr>br_url = rc_url config, br_result = map_sum Client id (test_result c config)\<rparr>) configs"
    if "batch_done configs (tr_batch s)"
  proof -
    note reach = test_reach_batch [OF assms(1)]
    note len = batch_done_lengths [OF reach that]
    show ?thesis
    proof (rule nth_equalityI)
      fix i assume "i < length (ba_results (tr_batch s))"
      then have i: "i < length configs" "joined (ba_tasks (tr_batch s) ! i) = Some (ba_results (tr_batch s) ! i)"
        using batch_reach_inv [OF reach] len by (simp_all add: batch_inv_def)
      with inv(2) len show "ba_results (tr_batch s) ! i =
          map (\<lambda>config. \<lparr>br_url = rc_url config, br_result = map_sum Client id (test_result c config)\<rparr>) configs ! i"
        by (cases "ba_tasks (tr_batch s) ! i") (force simp: answer_inv_def)+
    qed (simp add: len)
  qed
  ultimately show ?thesis using inv(3) by (simp add: count_inv_def test_peak_concurrent_def)
qed

end
