(* ===== verification/Python_Objects.thy ===== *)
theory Python_Objects
  imports Python_Client Python_H2 Mock
begin

text \<open>
  The objects that Python sees, \<^verbatim>\<open>src/python.rs\<close> and \<^verbatim>\<open>src/mock.rs\<close>: the attributes of each class as the
  list of its getters under their names, the constructors, the printed forms, and the modules with
  what is registered in them. Reading an attribute of a response may fill one of its caches.

  \<open>quoted\<close> is Rust's debug form of a text; \<open>order\<close> is the order in which a hash map is gone through.
\<close>

section \<open>Values and printed forms\<close>

datatype py_value = VNone | VBool bool | VInt int | VStr string | VBytes bytes | VList "py_value list"
  | VDict "string \<rightharpoonup> string" | VDelta int int | VHash response_hash | VCert cert_info | VHop redirect_hop
  | VHeaders py_headers | VRequest string string | VResponse py_response | VPy py

definition v_opt :: "('a \<Rightarrow> py_value) \<Rightarrow> 'a option \<Rightarrow> py_value" where
  "v_opt f x = (case x of None \<Rightarrow> VNone | Some a \<Rightarrow> f a)"

definition v_list :: "('a \<Rightarrow> py_value) \<Rightarrow> 'a list \<Rightarrow> py_value" where
  "v_list f xs = VList (map f xs)"

definition quote1 :: "string \<Rightarrow> string" where
  "quote1 s = [CHR 0x27] @ s @ [CHR 0x27]"

definition debug_opt :: "('a \<Rightarrow> string) \<Rightarrow> 'a option \<Rightarrow> string" where
  "debug_opt f x = (case x of None \<Rightarrow> ''None'' | Some a \<Rightarrow> ''Some('' @ f a @ '')'')"

definition debug_list :: "('a \<Rightarrow> string) \<Rightarrow> 'a list \<Rightarrow> string" where
  "debug_list f xs = ''['' @ join '', '' (map f xs) @ '']''"

definition debug_pair :: "(string \<Rightarrow> string) \<Rightarrow> string \<times> string \<Rightarrow> string" where
  "debug_pair quoted p = ''('' @ quoted (fst p) @ '', '' @ quoted (snd p) @ '')''"

definition show_int :: "int \<Rightarrow> string" where
  "show_int i = (if i < 0 then ''-'' @ show_nat (nat (- i)) else show_nat (nat i))"

section \<open>Plain data\<close>

definition hash_getters :: "response_hash \<Rightarrow> (string \<times> py_value) list" where
  "hash_getters h = [(''body_md5'', VStr (body_md5 h)), (''body_mmh3'', VInt (sint (body_mmh3 h))),
     (''body_sha256'', VStr (body_sha256 h)), (''header_md5'', VStr (header_md5 h)),
     (''header_mmh3'', VInt (sint (header_mmh3 h))), (''header_sha256'', VStr (header_sha256 h))]"

definition hash_repr :: "response_hash \<Rightarrow> string" where
  "hash_repr h = ''ResponseHash(body_md5='' @ quote1 (body_md5 h) @ '', body_mmh3='' @ show_int (sint (body_mmh3 h)) @ '')''"

definition cert_getters :: "cert_info \<Rightarrow> (string \<times> py_value) list" where
  "cert_getters c = [(''common_name'', v_opt VStr (ci_common_name c)), (''sans'', v_list VStr (ci_sans c)),
     (''emails'', v_list VStr (ci_emails c)), (''issuer'', v_opt VStr (ci_issuer c)),
     (''not_before'', v_opt VStr (ci_not_before c)), (''not_after'', v_opt VStr (ci_not_after c)),
     (''fingerprint_sha256'', v_opt VStr (ci_fingerprint_sha256 c))]"

definition cert_repr :: "(string \<Rightarrow> string) \<Rightarrow> cert_info \<Rightarrow> string" where
  "cert_repr quoted c =
     ''CertInfo(cn='' @ debug_opt quoted (ci_common_name c) @ '', sans='' @ debug_list quoted (ci_sans c) @ '')''"

definition hop_new :: "string \<Rightarrow> u16 \<Rightarrow> string option \<Rightarrow> redirect_hop" where
  "hop_new url status peer_ip = \<lparr>hop_url = url, hop_status = status, hop_peer_ip = peer_ip\<rparr>"

definition hop_getters :: "redirect_hop \<Rightarrow> (string \<times> py_value) list" where
  "hop_getters h = [(''url'', VStr (hop_url h)), (''status'', VInt (uint (hop_status h))), (''peer_ip'', v_opt VStr (hop_peer_ip h))]"

definition hop_repr :: "(string \<Rightarrow> string) \<Rightarrow> redirect_hop \<Rightarrow> string" where
  "hop_repr quoted h = ''RedirectHop(url='' @ quote1 (hop_url h) @ '', status='' @ show_nat (unat (hop_status h)) @
     '', peer_ip='' @ debug_opt quoted (hop_peer_ip h) @ '')''"

definition request_getters :: "string \<times> string \<Rightarrow> (string \<times> py_value) list" where
  "request_getters q = [(''url'', VStr (fst q)), (''method'', VStr (snd q))]"

definition request_repr :: "string \<times> string \<Rightarrow> string" where
  "request_repr q = ''Request(method='' @ quote1 (snd q) @ '', url='' @ quote1 (fst q) @ '')''"

definition raw_getters :: "raw_connection \<Rightarrow> (string \<times> py_value) list" where
  "raw_getters c = [(''cert_info'', v_opt VCert (rw_cert_info c)), (''negotiated_alpn'', v_opt VStr (rw_negotiated_alpn c)),
     (''peer_ip'', v_opt VStr (rw_peer_ip c))]"

definition h2_header_repr :: "(string \<Rightarrow> string) \<Rightarrow> h2_header \<Rightarrow> string" where
  "h2_header_repr quoted h = ''Header(name='' @ quoted (body_text (h_name h)) @ '', value='' @ quoted (body_text (h_value h)) @ '')''"

section \<open>Headers\<close>

definition headers_new :: "header_list option \<Rightarrow> py_headers" where
  "headers_new headers = headers_from_list (unwrap_or headers [])"

definition headers_iter :: "((string \<rightharpoonup> string) \<Rightarrow> string list) \<Rightarrow> py_headers \<Rightarrow> string list" where
  "headers_iter order h = order (ph_lookup h)"

definition headers_keys :: "((string \<rightharpoonup> string) \<Rightarrow> string list) \<Rightarrow> py_headers \<Rightarrow> string list" where
  "headers_keys order h = order (ph_lookup h)"

definition headers_values :: "((string \<rightharpoonup> string) \<Rightarrow> string list) \<Rightarrow> py_headers \<Rightarrow> string list" where
  "headers_values order h = map (\<lambda>k. the (ph_lookup h k)) (order (ph_lookup h))"

definition headers_items :: "py_headers \<Rightarrow> header_list" where
  "headers_items h = ph_list h"

definition headers_repr :: "(string \<Rightarrow> string) \<Rightarrow> py_headers \<Rightarrow> string" where
  "headers_repr quoted h = ''Headers('' @ debug_list (debug_pair quoted) (ph_list h) @ '')''"

section \<open>Responses\<close>

text \<open>A getter of the response: of a field, or of one of the values computed on demand.\<close>

definition of_field :: "(response \<Rightarrow> py_value) \<Rightarrow> py_response \<Rightarrow> py_value \<times> py_response" where
  "of_field f r = (f (pr_inner r), r)"

definition on_demand :: "('a \<Rightarrow> py_value) \<Rightarrow> (response \<Rightarrow> 'a \<times> response) \<Rightarrow> py_response \<Rightarrow> py_value \<times> py_response" where
  "on_demand conv f r = (case f (pr_inner r) of (x, inner) \<Rightarrow> (conv x, r\<lparr>pr_inner := inner\<rparr>))"

definition response_getters :: "digests \<Rightarrow> (string \<times> (py_response \<Rightarrow> py_value \<times> py_response)) list" where
  "response_getters dg =
     [(''url'', of_field (\<lambda>r. VStr (rs_url r))),
      (''status'', of_field (\<lambda>r. VInt (uint (rs_status r)))),
      (''status_code'', of_field (\<lambda>r. VInt (uint (rs_status r)))),
      (''is_success'', of_field (\<lambda>r. VBool (is_success r))),
      (''body'', on_demand VStr response_body),
      (''text'', on_demand VStr response_body),
      (''elapsed_ms'', of_field (\<lambda>r. VInt (uint (rs_elapsed_ms r)))),
      (''elapsed'', \<lambda>r. (case py_elapsed r of (s, us) \<Rightarrow> VDelta s us, r)),
      (''body_bytes'', of_field (\<lambda>r. VBytes (rs_body_bytes r))),
      (''content'', of_field (\<lambda>r. VBytes (rs_body_bytes r))),
      (''decode_error'', of_field (\<lambda>r. v_opt VStr (rs_decode_error r))),
      (''request'', \<lambda>r. case py_request_of r of ((url, meth), r) \<Rightarrow> (VRequest url meth, r)),
      (''headers'', \<lambda>r. case py_headers_of r of (h, r) \<Rightarrow> (VHeaders h, r)),
      (''raw_headers'', on_demand VStr response_raw_headers),
      (''cookies'', on_demand VDict response_cookies),
      (''cert_info'', of_field (\<lambda>r. v_opt VCert (rs_cert_info r))),
      (''peer_ip'', of_field (\<lambda>r. v_opt VStr (rs_peer_ip r))),
      (''hash'', on_demand VHash (response_hash_of dg)),
      (''redirect_chain'', of_field (\<lambda>r. v_list VHop (rs_redirect_chain r))),
      (''debug_log'', of_field (\<lambda>r. v_list VStr (rs_debug_log r)))]"

text \<open>\<open>getattr(response, name)\<close>; a name without getter raises \<open>AttributeError\<close>, here \<open>None\<close>.\<close>

definition response_attr :: "digests \<Rightarrow> string \<Rightarrow> py_response \<Rightarrow> py_value option \<times> py_response" where
  "response_attr dg name r =
     (case map_of (response_getters dg) name of None \<Rightarrow> (None, r) | Some g \<Rightarrow> (case g r of (v, r) \<Rightarrow> (Some v, r)))"

definition response_bool :: "py_response \<Rightarrow> bool" where
  "response_bool r \<longleftrightarrow> True"

text \<open>\<open>json.loads\<close> of the text.\<close>

definition response_json :: "(string \<Rightarrow> py_error + py) \<Rightarrow> py_response \<Rightarrow> (py_error + py) \<times> py_response" where
  "response_json loads r = (case response_body (pr_inner r) of (s, inner) \<Rightarrow> (loads s, r\<lparr>pr_inner := inner\<rparr>))"

text \<open>\<open>response\<close> of a batch result is a new object at every read.\<close>

definition batch_result_getters :: "py_batch_result \<Rightarrow> (string \<times> py_value) list" where
  "batch_result_getters b = [(''url'', VStr (pb_url b)), (''response'', v_opt VResponse (py_batch_response b)),
     (''error'', v_opt VStr (pb_error b)), (''success'', VBool (py_batch_success b))]"

definition batch_result_repr :: "(string \<Rightarrow> string) \<Rightarrow> py_batch_result \<Rightarrow> string" where
  "batch_result_repr quoted b =
     (case pb_response b of
        Some resp \<Rightarrow> ''BatchResult(url='' @ quote1 (pb_url b) @ '', status='' @ show_nat (unat (rs_status resp)) @ '')''
      | None \<Rightarrow> ''BatchResult(url='' @ quote1 (pb_url b) @ '', error='' @ debug_opt quoted (pb_error b) @ '')'')"

section \<open>Configurations of a batch\<close>

definition batch_config_new ::
  "string \<Rightarrow> string option \<Rightarrow> header_list option \<Rightarrow> py option \<Rightarrow> py option \<Rightarrow> u64 option \<Rightarrow> bool option \<Rightarrow> u32 option
    \<Rightarrow> bool option \<Rightarrow> bool option \<Rightarrow> string option \<Rightarrow> string list option \<Rightarrow> string option \<Rightarrow> string option \<Rightarrow> string option
    \<Rightarrow> u32 option \<Rightarrow> u64 option \<Rightarrow> u64 option \<Rightarrow> bool option \<Rightarrow> string option \<Rightarrow> string option \<Rightarrow> string list option
    \<Rightarrow> batch_config" where
  "batch_config_new url meth headers body files timeout follow_redirects max_redirects redirect_cookies verify_certs
      proxy no_proxy cipher_string min_tls_version max_tls_version retries retry_wait_min_ms retry_wait_max_ms raw_path
      request_target resolve_ip alpn_protocols =
     \<lparr>bc_url = url, bc_method = meth, bc_headers = headers, bc_body = body, bc_files = files, bc_timeout = timeout,
      bc_follow_redirects = follow_redirects, bc_max_redirects = max_redirects, bc_redirect_cookies = redirect_cookies,
      bc_verify_certs = verify_certs, bc_proxy = proxy, bc_no_proxy = no_proxy, bc_cipher_string = cipher_string,
      bc_min_tls_version = min_tls_version, bc_max_tls_version = max_tls_version, bc_retries = retries,
      bc_retry_wait_min_ms = retry_wait_min_ms, bc_retry_wait_max_ms = retry_wait_max_ms, bc_raw_path = raw_path,
      bc_request_target = request_target, bc_resolve_ip = resolve_ip, bc_alpn_protocols = alpn_protocols\<rparr>"

definition batch_config_clone :: "batch_config \<Rightarrow> batch_config" where
  "batch_config_clone c =
     \<lparr>bc_url = bc_url c, bc_method = bc_method c, bc_headers = bc_headers c, bc_body = bc_body c, bc_files = bc_files c,
      bc_timeout = bc_timeout c, bc_follow_redirects = bc_follow_redirects c, bc_max_redirects = bc_max_redirects c,
      bc_redirect_cookies = bc_redirect_cookies c, bc_verify_certs = bc_verify_certs c, bc_proxy = bc_proxy c,
      bc_no_proxy = bc_no_proxy c, bc_cipher_string = bc_cipher_string c, bc_min_tls_version = bc_min_tls_version c,
      bc_max_tls_version = bc_max_tls_version c, bc_retries = bc_retries c, bc_retry_wait_min_ms = bc_retry_wait_min_ms c,
      bc_retry_wait_max_ms = bc_retry_wait_max_ms c, bc_raw_path = bc_raw_path c,
      bc_request_target = bc_request_target c, bc_resolve_ip = bc_resolve_ip c, bc_alpn_protocols = bc_alpn_protocols c\<rparr>"

section \<open>Objects of the mock\<close>

definition mock_request_getters :: "mock_request \<Rightarrow> (string \<times> py_value) list" where
  "mock_request_getters q = [(''url'', VStr (mq_url q)), (''method'', VStr (mq_method q)),
     (''headers'', VPy (PyDict (map (\<lambda>(k, v). (PyStr (Some k), PyStr (Some v))) (mq_headers q)))),
     (''content'', VBytes (mq_content q))]"

definition mock_request_repr :: "mock_request \<Rightarrow> string" where
  "mock_request_repr q = ''MockRequest(method='' @ quote1 (mq_method q) @ '', url='' @ quote1 (mq_url q) @ '')''"

definition mock_response_getters :: "mock_response \<Rightarrow> (string \<times> py_value) list" where
  "mock_response_getters r = [(''status_code'', VInt (uint (mr_status_code r))), (''text'', VStr (mr_text r)),
     (''headers'', VPy (mr_headers r))]"

definition mock_set_headers :: "py \<Rightarrow> mock_response \<Rightarrow> mock_response" where
  "mock_set_headers v r = r\<lparr>mr_headers := v\<rparr>"

definition mock_response_repr :: "mock_response \<Rightarrow> string" where
  "mock_response_repr r = ''MockResponse(status_code='' @ show_nat (unat (mr_status_code r)) @ '')''"

definition handler_kind_clone :: "handler_kind \<Rightarrow> handler_kind" where
  "handler_kind_clone k =
     (case k of
        ResponseKind status_code body headers match_headers match_json \<Rightarrow>
          ResponseKind status_code body headers match_headers match_json
      | CallbackKind callback \<Rightarrow> CallbackKind callback)"

definition handler_clone :: "handler \<Rightarrow> handler" where
  "handler_clone h = \<lparr>h_url = h_url h, h_method = h_method h, h_kind = handler_kind_clone (h_kind h)\<rparr>"

section \<open>The modules\<close>

text \<open>A module is a map of names to objects; \<open>setattr\<close> with the result of \<open>getattr\<close> makes an alias.\<close>

datatype py_object = ModText string | ModBytes bytes | ModInt nat | ModClass string | ModFun string | ModException string
  | ModSub string

type_synonym py_module = "string \<rightharpoonup> py_object"

record interpreter =
  in_modules :: "string \<rightharpoonup> py_module"
  in_mappings :: "py_object list"

definition add_all :: "(string \<times> py_object) list \<Rightarrow> py_module \<Rightarrow> py_module" where
  "add_all entries m = foldl (\<lambda>m (name, obj). m(name \<mapsto> obj)) m entries"

definition add_classes :: "string list \<Rightarrow> py_module \<Rightarrow> py_module" where
  "add_classes names = add_all (map (\<lambda>n. (n, ModClass n)) names)"

definition add_functions :: "string list \<Rightarrow> py_module \<Rightarrow> py_module" where
  "add_functions names = add_all (map (\<lambda>n. (n, ModFun n)) names)"

definition set_alias :: "string \<times> string \<Rightarrow> py_module \<Rightarrow> py_error + py_module" where
  "set_alias a m = (case m (snd a) of None \<Rightarrow> Inl OtherError | Some obj \<Rightarrow> Inr (m(fst a \<mapsto> obj)))"

fun set_aliases :: "(string \<times> string) list \<Rightarrow> py_module \<Rightarrow> py_error + py_module" where
  "set_aliases [] m = Inr m"
| "set_aliases (a # r) m = and_then (set_alias a m) (set_aliases r)"

definition h2_constants :: "(string \<times> py_object) list" where
  "h2_constants = [(''PREFACE'', ModBytes PREFACE),
     (''FRAME_DATA'', ModInt (unat FRAME_DATA)), (''FRAME_HEADERS'', ModInt (unat FRAME_HEADERS)),
     (''FRAME_PRIORITY'', ModInt (unat FRAME_PRIORITY)), (''FRAME_RST_STREAM'', ModInt (unat FRAME_RST_STREAM)),
     (''FRAME_SETTINGS'', ModInt (unat FRAME_SETTINGS)), (''FRAME_PING'', ModInt (unat FRAME_PING)),
     (''FRAME_GOAWAY'', ModInt (unat FRAME_GOAWAY)), (''FRAME_WINDOW_UPDATE'', ModInt (unat FRAME_WINDOW_UPDATE)),
     (''FRAME_CONTINUATION'', ModInt (unat FRAME_CONTINUATION)), (''FLAG_END_STREAM'', ModInt (unat FLAG_END_STREAM)),
     (''FLAG_ACK'', ModInt (unat FLAG_ACK)), (''FLAG_END_HEADERS'', ModInt (unat FLAG_END_HEADERS)),
     (''FLAG_PADDED'', ModInt (unat FLAG_PADDED)), (''FLAG_PRIORITY'', ModInt (unat FLAG_PRIORITY))]"

text \<open>The identifiers of settings, \<^verbatim>\<open>src/h2/frame.rs\<close>.\<close>

definition SETTINGS_IDS :: "(string \<times> py_object) list" where
  "SETTINGS_IDS = [(''SETTINGS_HEADER_TABLE_SIZE'', ModInt 1), (''SETTINGS_ENABLE_PUSH'', ModInt 2),
     (''SETTINGS_MAX_CONCURRENT_STREAMS'', ModInt 3), (''SETTINGS_INITIAL_WINDOW_SIZE'', ModInt 4),
     (''SETTINGS_MAX_FRAME_SIZE'', ModInt 5), (''SETTINGS_MAX_HEADER_LIST_SIZE'', ModInt 6)]"

definition h2_functions :: "string list" where
  "h2_functions = [''h2_encode_headers'', ''h2_build_probe'', ''h2_build_raw_frame'', ''h2_build_settings_frame'',
     ''h2_build_headers_frame'', ''h2_build_continuation_frame'', ''h2_build_data_frame'', ''h2_build_window_update_frame'',
     ''h2_build_ping_frame'', ''h2_build_rst_stream_frame'', ''h2_build_goaway_frame'', ''h2_build_priority_frame'']"

definition h2_aliases :: "(string \<times> string) list" where
  "h2_aliases = [(''encode_headers'', ''h2_encode_headers''), (''build_probe'', ''h2_build_probe''),
     (''build_raw_frame'', ''h2_build_raw_frame''), (''build_settings_frame'', ''h2_build_settings_frame''),
     (''build_headers_frame'', ''h2_build_headers_frame''), (''build_continuation_frame'', ''h2_build_continuation_frame''),
     (''build_data_frame'', ''h2_build_data_frame''), (''build_window_update_frame'', ''h2_build_window_update_frame''),
     (''build_ping_frame'', ''h2_build_ping_frame''), (''build_rst_stream_frame'', ''h2_build_rst_stream_frame''),
     (''build_goaway_frame'', ''h2_build_goaway_frame''), (''build_priority_frame'', ''h2_build_priority_frame'')]"

definition register_h2_submodule :: "py_module \<times> interpreter \<Rightarrow> py_error + py_module \<times> interpreter" where
  "register_h2_submodule = (\<lambda>(parent, i).
     and_then (set_aliases h2_aliases (add_functions h2_functions (add_all SETTINGS_IDS (add_all h2_constants
       (add_classes [''Header'', ''Decoder''] Map.empty))))) (\<lambda>m.
     Inr (parent(''h2'' \<mapsto> ModSub ''blasthttp.h2''), i\<lparr>in_modules := (in_modules i)(''blasthttp.h2'' \<mapsto> m)\<rparr>)))"

definition register_mock_submodule :: "py_module \<times> interpreter \<Rightarrow> py_module \<times> interpreter" where
  "register_mock_submodule = (\<lambda>(parent, i).
     let m = add_all [(''TimeoutException'', ModException ''TimeoutException'')]
         (add_classes [''BlasthttpMock'', ''MockRequest'', ''MockResponse'', ''MockBatchIterator''] Map.empty) in
     (parent(''mock'' \<mapsto> ModSub ''blasthttp.mock''), i\<lparr>in_modules := (in_modules i)(''blasthttp.mock'' \<mapsto> m)\<rparr>))"

definition register_headers_as_mapping :: "py_module \<times> interpreter \<Rightarrow> py_error + py_module \<times> interpreter" where
  "register_headers_as_mapping = (\<lambda>(m, i).
     case m ''Headers'' of None \<Rightarrow> Inl OtherError | Some c \<Rightarrow> Inr (m, i\<lparr>in_mappings := c # in_mappings i\<rparr>))"

definition blasthttp_module :: "string \<Rightarrow> py_module \<times> interpreter \<Rightarrow> py_error + py_module \<times> interpreter" where
  "blasthttp_module version = (\<lambda>(m, i).
     let m = add_classes [''BlastHTTP'', ''BatchConfig'', ''Response'', ''BatchResult'', ''BatchResultIterator'', ''CertInfo'',
           ''ResponseHash'', ''RedirectHop'', ''Headers'', ''Request'', ''RawConnection''] (m(''__version__'' \<mapsto> ModText version));
         m = m(''HTTPStatusError'' \<mapsto> ModException ''HTTPStatusError'') in
     and_then (register_h2_submodule (m, i)) (\<lambda>mi. register_headers_as_mapping (register_mock_submodule mi)))"

section \<open>What reading shows\<close>

text \<open>A response whose caches are right, and what a getter gives on it.\<close>

definition py_cache_ok :: "digests \<Rightarrow> py_response \<Rightarrow> bool" where
  "py_cache_ok dg r \<longleftrightarrow> cache_ok dg (pr_inner r) \<and>
     pr_request_cache r \<in> {None, Some (rs_request_url (pr_inner r), rs_request_method (pr_inner r))}"

definition same_object :: "py_response \<Rightarrow> py_response \<Rightarrow> bool" where
  "same_object r r' \<longleftrightarrow> response_clone (pr_inner r) = response_clone (pr_inner r') \<and>
     fst (py_headers_of r) = fst (py_headers_of r')"

text \<open>Reading changes nothing that can be read, and what is read depends on nothing else.\<close>

definition invisible :: "digests \<Rightarrow> (py_response \<Rightarrow> py_value \<times> py_response) \<Rightarrow> bool" where
  "invisible dg g \<longleftrightarrow> (\<forall>r. py_cache_ok dg r \<longrightarrow> py_cache_ok dg (snd (g r)) \<and> same_object (snd (g r)) r \<and>
     (\<forall>r'. py_cache_ok dg r' \<longrightarrow> same_object r r' \<longrightarrow> fst (g r) = fst (g r')))"

lemma same_object_refl [simp]:
  "same_object r r"
  by (simp add: same_object_def)

lemma invisible_field:
  assumes "\<And>r. f (response_clone r) = f r"
  shows "invisible dg (of_field f)"
proof -
  have "f (pr_inner r) = f (pr_inner r')" if "same_object r r'" for r r'
    using that assms unfolding same_object_def by metis
  then show ?thesis unfolding invisible_def of_field_def by auto
qed

lemma pr_headers_inner:
  "rs_headers (pr_inner r) = rs_headers i \<Longrightarrow> fst (py_headers_of (r\<lparr>pr_inner := i\<rparr>)) = fst (py_headers_of r)"
  by (simp add: py_headers_of_def Let_def split: option.split)

lemma invisible_on_demand:
  assumes "\<And>r. cache_ok dg r \<Longrightarrow> fst (f r) = v (response_clone r)"
    "\<And>r. cache_ok dg r \<Longrightarrow> cache_ok dg (snd (f r)) \<and> response_clone (snd (f r)) = response_clone r"
  shows "invisible dg (on_demand conv f)"
  unfolding invisible_def
proof (intro allI impI conjI)
  fix r assume r: "py_cache_ok dg r"
  obtain x i where x: "f (pr_inner r) = (x, i)" by fastforce
  have i: "cache_ok dg i" "response_clone i = response_clone (pr_inner r)"
    using assms(2) [of "pr_inner r"] r by (simp_all add: py_cache_ok_def x)
  have fields: "rs_headers i = rs_headers (pr_inner r) \<and> rs_request_url i = rs_request_url (pr_inner r) \<and>
      rs_request_method i = rs_request_method (pr_inner r)" using clone_fields [OF i(2)] by simp
  have s: "snd (on_demand conv f r) = r\<lparr>pr_inner := i\<rparr>" by (simp add: on_demand_def x)
  show "py_cache_ok dg (snd (on_demand conv f r))" using r i fields unfolding s by (simp add: py_cache_ok_def)
  show "same_object (snd (on_demand conv f r)) r"
    using i fields pr_headers_inner [of r i] unfolding s by (simp add: same_object_def)
  fix r' assume r': "py_cache_ok dg r'" "same_object r r'"
  then have "fst (f (pr_inner r)) = fst (f (pr_inner r'))"
    using assms(1) r by (simp add: py_cache_ok_def same_object_def)
  moreover have "fst (on_demand conv f q) = conv (fst (f (pr_inner q)))" for q by (simp add: on_demand_def split_beta)
  ultimately show "fst (on_demand conv f r) = fst (on_demand conv f r')" by simp
qed

lemma invisible_request: "invisible dg (\<lambda>r. case py_request_of r of ((url, meth), r) \<Rightarrow> (VRequest url meth, r))"
  unfolding invisible_def
proof (intro allI impI conjI)
  let ?g = "\<lambda>r. case py_request_of r of ((url, meth), r) \<Rightarrow> (VRequest url meth, r)"
  have v: "fst (?g r) = VRequest (rs_request_url (pr_inner r)) (rs_request_method (pr_inner r))" if "py_cache_ok dg r" for r
    using that by (auto simp: py_cache_ok_def py_request_of_def Let_def)
  fix r assume r: "py_cache_ok dg r"
  then show "py_cache_ok dg (snd (?g r))" by (auto simp: py_cache_ok_def py_request_of_def Let_def)
  show "same_object (snd (?g r)) r"
    by (simp add: py_request_of_def Let_def same_object_def py_headers_of_def split: option.split prod.split)
  fix r' assume r': "py_cache_ok dg r'" "same_object r r'"
  from clone_fields [of "pr_inner r" "pr_inner r'"] r'(2) have "rs_request_url (pr_inner r) = rs_request_url (pr_inner r')"
    "rs_request_method (pr_inner r) = rs_request_method (pr_inner r')" by (simp_all add: same_object_def)
  then show "fst (?g r) = fst (?g r')" by (simp only: v [OF r] v [OF r'(1)])
qed

lemma invisible_headers: "invisible dg (\<lambda>r. case py_headers_of r of (h, r) \<Rightarrow> (VHeaders h, r))"
  by (auto simp: invisible_def same_object_def py_cache_ok_def py_headers_of_def Let_def split: option.splits)

lemma invisible_elapsed: "invisible dg (\<lambda>r. (case py_elapsed r of (s, us) \<Rightarrow> VDelta s us, r))"
proof -
  have "py_elapsed r = py_elapsed r'" if "same_object r r'" for r r'
    using clone_fields [of "pr_inner r" "pr_inner r'"] that by (simp add: same_object_def py_elapsed_def)
  then show ?thesis unfolding invisible_def by auto
qed

lemma getters_invisible: "\<forall>(name, g) \<in> set (response_getters dg). invisible dg g"
proof -
  have field: "rs_url (response_clone r) = rs_url r \<and> rs_status (response_clone r) = rs_status r \<and>
      rs_headers (response_clone r) = rs_headers r \<and> rs_body_bytes (response_clone r) = rs_body_bytes r \<and>
      rs_elapsed_ms (response_clone r) = rs_elapsed_ms r \<and> rs_redirect_chain (response_clone r) = rs_redirect_chain r \<and>
      rs_cert_info (response_clone r) = rs_cert_info r \<and> rs_peer_ip (response_clone r) = rs_peer_ip r \<and>
      rs_debug_log (response_clone r) = rs_debug_log r \<and> rs_decode_error (response_clone r) = rs_decode_error r" for r
    by (simp add: response_clone_def)
  have "invisible dg (on_demand VStr response_body)" "invisible dg (on_demand VStr response_raw_headers)"
    "invisible dg (on_demand VDict response_cookies)" "invisible dg (on_demand VHash (response_hash_of dg))"
    by (rule invisible_on_demand [where v = "\<lambda>r. body_text (rs_body_bytes r)"]
        invisible_on_demand [where v = "\<lambda>r. build_raw_headers (rs_headers r)"]
        invisible_on_demand [where v = "\<lambda>r. parse_set_cookies (rs_headers r)"]
        invisible_on_demand [where v = "\<lambda>r. hash_compute dg (rs_body_bytes r) (build_raw_headers (rs_headers r))"];
        simp add: accessor_results accessor_states field)+
  then show ?thesis
    unfolding response_getters_def
    by (simp add: invisible_field invisible_request invisible_headers invisible_elapsed field is_success_def)
qed

fun reads :: "digests \<Rightarrow> string list \<Rightarrow> py_response \<Rightarrow> py_value option list \<times> py_response" where
  "reads dg [] r = ([], r)"
| "reads dg (n # ns) r = (case response_attr dg n r of (v, r) \<Rightarrow> case reads dg ns r of (vs, r) \<Rightarrow> (v # vs, r))"

lemma response_attr_invisible:
  assumes "py_cache_ok dg r"
  shows "py_cache_ok dg (snd (response_attr dg n r)) \<and> same_object (snd (response_attr dg n r)) r \<and>
    (py_cache_ok dg r' \<longrightarrow> same_object r r' \<longrightarrow> fst (response_attr dg n r) = fst (response_attr dg n r'))"
proof (cases "map_of (response_getters dg) n")
  case (Some g)
  then have "invisible dg g" using getters_invisible map_of_SomeD by fastforce
  then have "py_cache_ok dg (snd (g r))" "same_object (snd (g r)) r"
    "py_cache_ok dg r' \<longrightarrow> same_object r r' \<longrightarrow> fst (g r) = fst (g r')"
    using assms unfolding invisible_def by blast+
  moreover have "response_attr dg n q = (Some (fst (g q)), snd (g q))" for q by (simp add: response_attr_def Some split_beta)
  ultimately show ?thesis by simp
qed (use assms in \<open>simp add: response_attr_def\<close>)

text \<open>
  Reading the attributes of a response is free of effects that could be seen: whatever is read, in
  whatever order and however often, each attribute gives what it gives when it is read first on the
  response as it was, and the response is the same object afterwards.
\<close>

theorem attribute_reads:
  assumes "py_cache_ok dg r"
  shows "fst (reads dg names r) = map (\<lambda>n. fst (response_attr dg n r)) names \<and>
    py_cache_ok dg (snd (reads dg names r)) \<and> same_object (snd (reads dg names r)) r"
  using assms
proof (induction names arbitrary: r)
  case (Cons n ns)
  obtain v r1 where 1: "response_attr dg n r = (v, r1)" by fastforce
  obtain vs r2 where 2: "reads dg ns r1 = (vs, r2)" by fastforce
  have r1: "py_cache_ok dg r1" "same_object r1 r" using response_attr_invisible [OF Cons.prems, of n] by (simp_all add: 1)
  have "fst (response_attr dg m r1) = fst (response_attr dg m r)" for m
    using response_attr_invisible [OF r1(1), of m r] Cons.prems r1(2) by blast
  with Cons.IH [OF r1(1)] 1 2 r1(2) show ?case by (simp add: same_object_def)
qed simp

text \<open>A response made from canned data shows the data; the aliases agree.\<close>

lemma new_response_attributes:
  assumes "py_response_new octets url status headers (Some (PyBytes body)) request_url meth ms peer hops cert = Inr r"
  shows "py_cache_ok dg r \<and> fst (reads dg [''url'', ''status'', ''status_code'', ''content'', ''body_bytes'', ''peer_ip'', ''redirect_chain'',
      ''headers'', ''request''] r) =
    [Some (VStr url), Some (VInt (uint status)), Some (VInt (uint status)), Some (VBytes body), Some (VBytes body),
     Some (v_opt VStr peer), Some (v_list VHop (unwrap_or hops [])), Some (VHeaders (headers_new headers)),
     Some (VRequest (unwrap_or request_url url) (unwrap_or meth ''GET''))]"
  using assms
  by (auto simp: py_response_new_def and_then_eq_Inr extract_string_def extract_bytes_def py_wrap_def py_cache_ok_def
      cache_ok_def response_attr_def response_getters_def of_field_def py_headers_of_def py_request_of_def headers_new_def Let_def)

text \<open>The keys and values of headers, whatever the order of the map, are the lookup of \<open>[]\<close>.\<close>

lemma headers_iteration:
  assumes "set (order (ph_lookup h)) = dom (ph_lookup h)" "distinct (order (ph_lookup h))"
  shows "map_of (zip (headers_keys order h) (headers_values order h)) = ph_lookup h \<and>
    length (headers_keys order h) = headers_len h"
proof
  show "map_of (zip (headers_keys order h) (headers_values order h)) = ph_lookup h"
  proof
    fix k
    have "map_of (zip (order (ph_lookup h)) (map (\<lambda>k. the (ph_lookup h k)) (order (ph_lookup h)))) k =
        (if k \<in> set (order (ph_lookup h)) then Some (the (ph_lookup h k)) else None)"
      by (simp add: map_of_zip_map)
    then show "map_of (zip (headers_keys order h) (headers_values order h)) k = ph_lookup h k"
      using assms(1) by (auto simp: headers_keys_def headers_values_def)
  qed
  show "length (headers_keys order h) = headers_len h"
    using assms by (simp add: headers_keys_def headers_len_def distinct_card [symmetric])
qed

lemma batch_config_clone_eq [simp]: "batch_config_clone c = c"
  by (cases c) (simp add: batch_config_clone_def)

lemma handler_clone_eq [simp]: "handler_clone h = h"
  by (cases h) (simp add: handler_clone_def handler_kind_clone_def split: handler_kind.split)

text \<open>The import succeeds; every builder has its friendly name, and \<open>Headers\<close> counts as a mapping.\<close>

lemma module_import:
  "case blasthttp_module version (Map.empty, \<lparr>in_modules = Map.empty, in_mappings = []\<rparr>) of Inl _ \<Rightarrow> False
   | Inr (m, i) \<Rightarrow>
       (case in_modules i ''blasthttp.h2'' of None \<Rightarrow> False | Some h2 \<Rightarrow>
          list_all (\<lambda>(new, old). h2 new = Some (ModFun old) \<and> old = ''h2_'' @ new) h2_aliases) \<and>
       (case in_modules i ''blasthttp.mock'' of None \<Rightarrow> False | Some mock \<Rightarrow> mock ''MockResponse'' = Some (ModClass ''MockResponse'')) \<and>
       in_mappings i = [ModClass ''Headers''] \<and> m ''h2'' = Some (ModSub ''blasthttp.h2'')"
  by code_simp

end
