(* ===== verification/Spec2Isabelle.thy ===== *)
theory Spec2Isabelle
  imports Huffman Hpack H2_Frame H2_Probe Std_Net Cookies Request_Config Proxy Wire Content_Coding Response_Model
    Tls_Setup Http_Request Http_Client Http_Trace Http_Pool Http_Body Raw_Connection Rate_Limiter Batch Paced_Batch Cli
    Multipart Python_Layer Python_Client Python_H2 Mock Cookie_Chain Connection_Stream Debug_Log Test_Client Python_Objects
begin

text \<open>
  Verification of blasthttp, an HTTP client in Rust with Python bindings: what is modelled, where,
  and what is proved. Paths are relative to the repository; \<open>hyper.rs\<close> is \<^verbatim>\<open>src/client/hyper.rs\<close>.

  THE PROGRAM. A caller fills a \<open>RequestConfig\<close> and calls \<open>HyperClient::send\<close>, directly, in a batch, or
  from Python. \<open>send\<close> retries attempts; an attempt cleans the URL, decides between a direct connection,
  a tunnel and a forward proxy, and runs a redirect loop that carries cookies from hop to hop. A hop
  goes through a pool of hyper clients keyed by TLS settings, or over a stream of its own; the answer
  is read up to a limit, its content codings are undone, and it becomes a \<open>Response\<close> whose derived
  views are computed on demand. A module of its own builds HTTP/2 frames and HPACK blocks by hand, to
  probe servers with requests that a regular library refuses to send.

  THEORIES, in the order of dependence.

  \<^item> Blast_Prelude: byte and integer types, the result and panic monads (\<open>and_then\<close>, \<open>on_done\<close>) and the
    string, slice and number operations of the Rust standard library that the sources call.
  \<^item> Prefix_Code, Huffman (\<^verbatim>\<open>src/h2/huffman.rs\<close>): bit lists and complete prefix codes (locale
    \<open>full_prefix_code\<close>); the code table, encoder, decode tree and decoder. A byte string decodes to a text
    exactly when it is that text's encoding.
  \<^item> Wire: the locale \<open>wire_item\<close>, a self-delimiting item that reads back in place; interpreted for
    HPACK integers and strings, HTTP/2 frames and ALPN names.
  \<^item> Hpack (\<^verbatim>\<open>src/h2/hpack.rs\<close>, \<^verbatim>\<open>src/h2/header.rs\<close>): encoder with its fuzzing knobs, decoder with
    the dynamic table, u32 arithmetic with its overflow checks. Blocks read back, the table's count is
    exact and within its limit, the table refines \<open>longest prefix that fits\<close>.
  \<^item> H2_Frame, H2_Probe (\<^verbatim>\<open>src/h2/frame.rs\<close>, \<^verbatim>\<open>src/h2/probe.rs\<close>): the frame builders and the probe; a
    server that reads the probe sees the request asked for.
  \<^item> Std_Net: \<open>std::net\<close> address parsing.
  \<^item> Request_Config (\<^verbatim>\<open>src/config.rs\<close>, \<^verbatim>\<open>src/client/mod.rs\<close>): defaults, validation, \<open>no_proxy\<close> matching,
    error kinds.
  \<^item> Cookies (\<^verbatim>\<open>src/cookies.rs\<close>): the chain's jar. Its ceilings and ownership are an invariant, storing
    refines a map update, a cookie goes only where its setter may reach.
  \<^item> Proxy (\<^verbatim>\<open>src/client/proxy.rs\<close>): proxy URLs, CONNECT and SOCKS5 over a socket given as the list of
    its deliveries. The outcome depends on the bytes and not on how they are cut.
  \<^item> Content_Coding, Response_Model, Tls_Setup, Http_Request (parts of \<open>hyper.rs\<close>, and
    \<^verbatim>\<open>src/response.rs\<close>): body reading and decoding; the response, its lossy text against a specification
    from an encoder of scalar values, its caches and views; ALPN, trust store, connectors and the peer
    slots; URL cleaning, redirect targets, proxy mode, header list, delay.
  \<^item> Http_Client (\<open>hyper.rs\<close>): the pool, the three dispatch paths, the redirect loop and the retry
    loop, composed as the code composes them, over an environment record \<open>net\<close>.
  \<^item> Http_Trace, Http_Pool: runs observed. A logging network, the jar's contract across hops (locales
    \<open>hop_jar\<close>, \<open>hop_sources\<close>), reachable pools; what \<open>send\<close> does to the network, which attempt it returns, what the
    redirect chain looks like, which TLS settings a pooled client has.
  \<^item> Cookie_Chain: where cookies go. Every \<open>Cookie\<close> line on the wire is the caller's, or carries cookies that
    earlier hops of the run set (\<open>hop_path\<close>) and that may go to this host.
  \<^item> Connection_Stream (\<open>hyper.rs\<close>): the streams under the pooled clients, transparent for what is inside;
    the direct senders; the providers that are loaded once.
  \<^item> Http_Body: where a response of \<open>send\<close> comes from and how long its body can be.
  \<^item> Raw_Connection (\<^verbatim>\<open>src/client/raw.rs\<close>): a connection without framing, over the stream that
    \<open>connect_stream\<close> opens. Until it is closed it is a pipe; later calls are refused.
  \<^item> Rate_Limiter, Batch (\<^verbatim>\<open>src/batch.rs\<close>): the atomic limiter as a step relation of racing tasks;
    both batch functions as step relations over tasks, semaphore (locale \<open>permits\<close>) and channel.
  \<^item> Paced_Batch (\<^verbatim>\<open>src/batch.rs\<close>): limiter and batch together. The driver of either function takes a permit
    before each dispatch while others race for the limiter (locale \<open>driven\<close>). Dispatches keep the rate, the
    driver can always go on, and the states reached are those of the plain functions; requests that wait at
    the semaphore of \<open>send_batch\<close> need not keep it (\<open>queued_burst\<close>).
  \<^item> Cli (\<^verbatim>\<open>src/main.rs\<close>): the configuration from the options, the URL file, what a run prints on each of
    its streams and its exit code. A batch prints the object of each response and an error for each failure,
    in order, and on standard error what its requests print on their way.
  \<^item> Multipart, Python_Layer (\<^verbatim>\<open>src/multipart.rs\<close>, \<^verbatim>\<open>src/python.rs\<close>): form bodies over a datatype of
    Python values with a reader that gets the parts back; arguments, case-insensitive headers (locale
    \<open>header_map\<close>), chunks of a result stream.
  \<^item> Python_Client, Python_H2 (\<^verbatim>\<open>src/python.rs\<close>): the client object (limiter, pool, requests, batches,
    downloads, raw connections) and the \<open>Response\<close> object with its caches; the HTTP/2 bindings with the
    texts of their errors. A call that has the limiter to itself is a run of the racing relation; a
    decoder object reads back what the bindings encode and refuses a table size above its own.
  \<^item> Mock (\<^verbatim>\<open>src/mock.rs\<close>): the mock client for Python tests. Matching handlers are used up in the order
    they were registered and then repeat; a batch is its mocked requests in order and then the real
    client's results; redirects form a linked chain within the limit.
  \<^item> Python_Objects (\<^verbatim>\<open>src/python.rs\<close>, \<^verbatim>\<open>src/mock.rs\<close>): the attributes, constructors and printed forms of
    every class, and the modules. Reading attributes has no effect that can be seen.
  \<^item> Test_Client (\<^verbatim>\<open>src/client/mock.rs\<close>): the test clients; a batch over the counting one, whose peak is
    at most the concurrency however its atomic accesses interleave.
  \<^item> Debug_Log (\<^verbatim>\<open>src/debug.rs\<close>): the log of messages and what is printed of it.

  CORRESPONDENCE. Structs are records with a field prefix, enums datatypes, \<open>Result\<close> is a sum with the
  error on the left, integers are words of their width. A Rust string is the list of its UTF-8 bytes.
  A panic is a value (\<open>Panic\<close>, \<open>Panicked\<close>, or \<open>None\<close> for the assertion of a frame builder). Definitions
  have the code's names; the body of a loop, or a block of a long function, is a definition of its own.
  Locks, atomics and \<open>OnceLock\<close> are state passed along; poisoned locks are left out.

  PARAMETERS. Code outside the repository is an argument: the public suffix list, the clock, OpenSSL,
  flate2 and brotli, the http crate's URI type, hyper's senders and sockets, digests, hashers, binary64
  rounding, \<open>str()\<close> of Python values. What a theorem needs of them is a hypothesis with a name, and a
  witness instantiates it.

  TERMINATION. Every function of the model is total. The loops over cookies, headers, body frames and
  wire bytes are structural or have a measure. The redirect loop descends on the redirects left and the
  retry loop on the retries left, which are the code's own counters; so no fuel is used. Batches and the limiter, whose
  order is the scheduler's, are step relations; \<open>batch_ends\<close> shows that no run of a batch is infinite
  or stuck.
  In the bindings too the counters are the code's own: the mock's redirect loop ends because its u32 counter is
  checked against the limit, draining a mock batch because the real client's stream is a finite list.

  NOT MODELLED. The calls of \<open>hyper.rs\<close> that record debug messages: 44 texts along the way, which nothing
  reads back; a response of the model has an empty log, and the command line prints any messages. A raw read
  without a timeout from a peer that is silent for ever does not return and is in no session. Of the Python bindings, the setters that pyo3
  generates, and the event loop under the futures. The byte layout of TLS and of hyper's own HTTP.
  clap's option parsing and JSON printing. \<^verbatim>\<open>src/lib.rs\<close> only declares modules.
\<close>

end
